(* ===== verification/Prelude.thy ===== *)
theory Prelude
  imports Main
begin

text \<open>
  Shared vocabulary of the development: the outcome of a Go computation that may panic, the
  iteration order of a Go map, and the generic facts on lists, options and maps that the
  component theories use.
\<close>

section \<open>Automation\<close>

named_theorems handler_simps
  \<open>equations that unfold one handler of a goroutine into its branches\<close>

named_theorems range_simps
  \<open>facts on the iteration order of a Go map\<close>

section \<open>Computations that may panic\<close>

text \<open>
  The run-time panics that code of the repository can raise. A panic in any goroutine ends the
  process, so it is a value of its own and never an error that a caller sees.
\<close>

datatype panic =
    IntegerDivideByZero
  | MakeSliceOutOfRange
  | MakeChanOutOfRange
  | SendOnClosedChannel
  | CloseOfClosedChannel
  | NilDereference

datatype 'a outcome = Return 'a | Panic panic

fun bind_outcome :: "'a outcome \<Rightarrow> ('a \<Rightarrow> 'b outcome) \<Rightarrow> 'b outcome" where
  "bind_outcome (Return x) f = f x"
| "bind_outcome (Panic p) f = Panic p"

fun panics :: "'a outcome \<Rightarrow> bool" where
  "panics (Return x) = False"
| "panics (Panic p) = True"

lemma bind_outcome_Return_iff:
  "bind_outcome m f = Return y \<longleftrightarrow> (\<exists>x. m = Return x \<and> f x = Return y)"
  by (cases m) auto

lemma bind_outcome_ReturnE:
  assumes "bind_outcome m f = Return y"
  obtains x where "m = Return x" and "f x = Return y"
  using assms by (cases m) auto

lemma not_panics_iff: "\<not> panics m \<longleftrightarrow> (\<exists>x. m = Return x)"
  by (cases m) auto

section \<open>Go maps and their iteration order\<close>

text \<open>
  A Go map is a partial function. A \<open>range\<close> loop over it visits every key once, in an order
  that the language leaves open and that may differ from loop to loop. An operation that
  ranges over a map takes the order of that loop as an argument; \<open>range_order m ks\<close> says that
  \<open>ks\<close> is an order the run time may choose.
\<close>

definition range_order :: "('k \<rightharpoonup> 'v) \<Rightarrow> 'k list \<Rightarrow> bool" where
  "range_order m ks \<longleftrightarrow> distinct ks \<and> set ks = dom m"

text \<open>The values a loop over \<open>m\<close> in the order \<open>ks\<close> sees.\<close>

definition range_values :: "('k \<rightharpoonup> 'v) \<Rightarrow> 'k list \<Rightarrow> 'v list" where
  "range_values m ks = List.map_filter m ks"

lemma range_orderI [intro?]: "distinct ks \<Longrightarrow> set ks = dom m \<Longrightarrow> range_order m ks"
  by (simp add: range_order_def)

lemma range_order_distinct: "range_order m ks \<Longrightarrow> distinct ks"
  by (simp add: range_order_def)

lemma range_order_set: "range_order m ks \<Longrightarrow> set ks = dom m"
  by (simp add: range_order_def)

lemma range_order_finite: "range_order m ks \<Longrightarrow> finite (dom m)"
  by (metis List.finite_set range_order_set)

lemma range_order_Nil_iff [range_simps]: "range_order m [] \<longleftrightarrow> m = Map.empty"
  by (auto simp: range_order_def)

lemma range_order_empty_iff [range_simps]: "range_order Map.empty ks \<longleftrightarrow> ks = []"
  by (auto simp: range_order_def)

lemma range_order_singleton [range_simps]: "range_order [k \<mapsto> v] ks \<longleftrightarrow> ks = [k]"
proof
  assume ks: "range_order [k \<mapsto> v] ks"
  then have "set ks = {k}" and "distinct ks" by (simp_all add: range_order_def)
  then show "ks = [k]" by (cases ks rule: remdups_adj.cases) (auto dest: equalityD1)
qed (simp add: range_order_def)

lemma range_order_exists: "finite (dom m) \<Longrightarrow> \<exists>ks. range_order m ks"
  using finite_distinct_list [of "dom m"] by (auto simp: range_order_def)

lemma range_values_Nil [simp]: "range_values m [] = []"
  by (simp add: range_values_def List.map_filter_def)

lemma range_values_Cons [simp]:
  "range_values m (k # ks) = (case m k of None \<Rightarrow> range_values m ks | Some v \<Rightarrow> v # range_values m ks)"
  by (simp add: range_values_def List.map_filter_def split: option.split)

lemma range_values_append [simp]:
  "range_values m (xs @ ys) = range_values m xs @ range_values m ys"
  by (induction xs) (auto split: option.split)

lemma set_range_values: "set (range_values m ks) = {v. \<exists>k \<in> set ks. m k = Some v}"
  by (induction ks) (auto split: option.split)

lemma range_order_values [range_simps]:
  "range_order m ks \<Longrightarrow> set (range_values m ks) = ran m"
  by (auto simp: set_range_values range_order_def ran_def)

lemma range_values_map: "set ks \<subseteq> dom m \<Longrightarrow> range_values m ks = map (\<lambda>k. the (m k)) ks"
  by (induction ks) (auto split: option.split)

lemma range_order_length [range_simps]:
  "range_order m ks \<Longrightarrow> length (range_values m ks) = card (dom m)"
  by (metis distinct_card length_map order_refl range_order_distinct range_order_set
      range_values_map)

lemma range_values_cong:
  "(\<And>k. k \<in> set ks \<Longrightarrow> m k = m' k) \<Longrightarrow> range_values m ks = range_values m' ks"
  by (induction ks) (auto split: option.split)

section \<open>Updating a map from a list\<close>

text \<open>The loop \<open>for _, x := range xs { m[key(x)] = val(x) }\<close>: later elements win.\<close>

fun store_all :: "('x \<Rightarrow> 'k) \<Rightarrow> ('x \<Rightarrow> 'v) \<Rightarrow> 'x list \<Rightarrow> ('k \<rightharpoonup> 'v) \<Rightarrow> ('k \<rightharpoonup> 'v)" where
  "store_all key val [] m = m"
| "store_all key val (x # xs) m = store_all key val xs (m(key x \<mapsto> val x))"

lemma store_all_append [simp]:
  "store_all key val (xs @ ys) m = store_all key val ys (store_all key val xs m)"
  by (induction xs arbitrary: m) auto

lemma store_all_other: "k \<notin> key ` set xs \<Longrightarrow> store_all key val xs m k = m k"
  by (induction xs arbitrary: m) auto

lemma dom_store_all [simp]: "dom (store_all key val xs m) = key ` set xs \<union> dom m"
  by (induction xs arbitrary: m) auto

lemma store_all_distinct:
  "distinct (map key xs) \<Longrightarrow> x \<in> set xs \<Longrightarrow> store_all key val xs m (key x) = Some (val x)"
  by (induction xs arbitrary: m) (auto simp: store_all_other)

lemma store_all_SomeD:
  "store_all key val xs m k = Some v \<Longrightarrow> (\<exists>x \<in> set xs. key x = k \<and> val x = v) \<or> (k \<notin> key ` set xs \<and> m k = Some v)"
proof (induction xs arbitrary: m)
  case Nil
  then show ?case by simp
next
  case (Cons x xs)
  from Cons.prems have "store_all key val xs (m(key x \<mapsto> val x)) k = Some v" by simp
  from Cons.IH [OF this] show ?case by (auto split: if_splits)
qed

lemma store_all_find:
  assumes "find (\<lambda>x. key x = k) (rev xs) = Some y"
  shows "store_all key val xs m k = Some (val y)"
  using assms by (induction xs arbitrary: y rule: rev_induct) (auto split: if_splits)

lemma store_all_in:
  "k \<in> key ` set xs \<Longrightarrow> \<exists>x \<in> set xs. key x = k \<and> store_all key val xs m k = Some (val x)"
  by (induction xs arbitrary: m) (fastforce simp: store_all_other)+

section \<open>Lists\<close>

lemma filter_filter_conj: "filter P (filter Q xs) = filter (\<lambda>x. Q x \<and> P x) xs"
  by simp

lemma drop_append_snoc: "n \<le> length xs \<Longrightarrow> drop n (xs @ [x]) = drop n xs @ [x]"
  by simp

end
