(* ===== verification/Mux_Filter.thy ===== *)
theory Mux_Filter
  imports Prelude
begin

text \<open>
  The predicates and channel filter of \<open>internal/mux/filter.go\<close>. A \<open>FilterFunc[T]\<close> is a
  HOL predicate; the combinators are translated loop by loop, and the goroutine of \<open>Filter\<close>
  is a loop over the values that arrive before its input channel is closed.
\<close>

section \<open>Filter combinators\<close>

type_synonym 't filter_func = "'t \<Rightarrow> bool"

definition Any :: "'t filter_func" where
  "Any = (\<lambda>_. True)"

definition Not_filter :: "'t filter_func \<Rightarrow> 't filter_func" where
  "Not_filter f = (\<lambda>v. \<not> f v)"

text \<open>The loops of \<open>Or\<close> and \<open>And\<close>, with their early returns.\<close>

fun Or_filter :: "'t filter_func list \<Rightarrow> 't filter_func" where
  "Or_filter [] v = False"
| "Or_filter (f # fs) v = (if f v then True else Or_filter fs v)"

fun And_filter :: "'t filter_func list \<Rightarrow> 't filter_func" where
  "And_filter [] v = True"
| "And_filter (f # fs) v = (if \<not> f v then False else And_filter fs v)"

lemma Any_apply [simp]: "Any v"
  by (simp add: Any_def)

lemma Not_filter_apply [simp]: "Not_filter f v \<longleftrightarrow> \<not> f v"
  by (simp add: Not_filter_def)

lemma Or_filter_iff: "Or_filter fs v \<longleftrightarrow> (\<exists>f \<in> set fs. f v)"
  by (induction fs) auto

lemma And_filter_iff: "And_filter fs v \<longleftrightarrow> (\<forall>f \<in> set fs. f v)"
  by (induction fs) auto

section \<open>Nil tests by reflection\<close>

text \<open>
  What \<open>reflect.ValueOf\<close> shows of a value: its kind, and for the kinds whose values can be
  nil whether this one is. \<open>ReflectInvalid\<close> is the kind of the zero \<open>reflect.Value\<close>, which
  \<open>ValueOf\<close> returns for a nil interface.
\<close>

datatype reflect_kind =
    ReflectInvalid | ReflectInterface | ReflectChan | ReflectFunc | ReflectMap | ReflectPtr
  | ReflectUnsafePointer | ReflectSlice | ReflectOther

record reflect_value =
  rv_kind :: reflect_kind
  rv_nil :: bool

definition rv_is_valid :: "reflect_value \<Rightarrow> bool" where
  "rv_is_valid rv \<longleftrightarrow> rv_kind rv \<noteq> ReflectInvalid"

definition IsNil :: "reflect_value \<Rightarrow> bool" where
  "IsNil rv = (case rv_kind rv of
     ReflectInvalid \<Rightarrow> True
   | ReflectInterface \<Rightarrow> \<not> rv_is_valid rv
   | ReflectChan \<Rightarrow> rv_nil rv
   | ReflectFunc \<Rightarrow> rv_nil rv
   | ReflectMap \<Rightarrow> rv_nil rv
   | ReflectPtr \<Rightarrow> rv_nil rv
   | ReflectUnsafePointer \<Rightarrow> rv_nil rv
   | ReflectSlice \<Rightarrow> rv_nil rv
   | ReflectOther \<Rightarrow> False)"

definition IsNotNil :: "reflect_value \<Rightarrow> bool" where
  "IsNotNil rv \<longleftrightarrow> \<not> IsNil rv"

section \<open>The channel filter\<close>

text \<open>
  The goroutine of \<open>Filter\<close>: it takes the values of \<open>in\<close> one by one, sends the accepted ones
  to \<open>out\<close>, and closes \<open>out\<close> when \<open>in\<close> is closed and drained. The state is what it has sent
  and whether it has closed \<open>out\<close>.
\<close>

record 't filter_out =
  out_sent :: "'t list"
  out_closed :: bool

fun Filter_loop :: "'t filter_func \<Rightarrow> 't list \<Rightarrow> 't filter_out \<Rightarrow> 't filter_out" where
  "Filter_loop f [] out = out\<lparr>out_closed := True\<rparr>"
| "Filter_loop f (v # vs) out =
     (if f v then Filter_loop f vs (out\<lparr>out_sent := out_sent out @ [v]\<rparr>)
      else Filter_loop f vs out)"

definition Filter :: "'t filter_func \<Rightarrow> 't list \<Rightarrow> 't filter_out" where
  "Filter f vs = Filter_loop f vs \<lparr>out_sent = [], out_closed = False\<rparr>"

lemma Filter_loop_eq:
  "Filter_loop f vs out = \<lparr>out_sent = out_sent out @ filter f vs, out_closed = True\<rparr>"
  by (induction vs arbitrary: out) auto

lemma Filter_eq: "Filter f vs = \<lparr>out_sent = filter f vs, out_closed = True\<rparr>"
  by (simp add: Filter_def Filter_loop_eq)

end
