(* ===== verification/Mux_Sink.thy ===== *)
theory Mux_Sink
  imports Prelude
begin

text \<open>
  Channels, sinks and the sink combinators of \<open>internal/mux/mux.go\<close>: \<open>thenSink\<close>,
  \<open>filterSink\<close>, \<open>chanSink\<close>, the \<open>AwaitReply\<close> handshake and \<open>ChainCancelFunc\<close>. The locale
  \<open>sink_contract\<close> is what a client of \<open>Sink\<close> relies on; the channel sink provides it.
\<close>

section \<open>Go channels\<close>

text \<open>
  A channel holds the values sent and not yet received, its capacity, the number of receivers
  blocked on it and whether it is closed. A send completes at once when there is room in the
  buffer or a receiver waits (an unbuffered channel has capacity 0 and hands over to a waiting
  receiver). An operation completes, blocks or panics.
\<close>

record 't chan =
  buffer :: "'t list"
  capacity :: nat
  waiting :: nat
  is_closed :: bool

datatype 'a chan_result = Done 'a | Blocks | Crashes panic

fun bind_chan :: "'a chan_result \<Rightarrow> ('a \<Rightarrow> 'b chan_result) \<Rightarrow> 'b chan_result" where
  "bind_chan (Done x) f = f x"
| "bind_chan Blocks f = Blocks"
| "bind_chan (Crashes p) f = Crashes p"

lemma bind_chan_Done_iff: "bind_chan m f = Done y \<longleftrightarrow> (\<exists>x. m = Done x \<and> f x = Done y)"
  by (cases m) auto

definition make_chan :: "nat \<Rightarrow> 't chan" where
  "make_chan n = \<lparr>buffer = [], capacity = n, waiting = 0, is_closed = False\<rparr>"

definition chan_send :: "'t \<Rightarrow> 't chan \<Rightarrow> 't chan chan_result" where
  "chan_send v c =
     (if is_closed c then Crashes SendOnClosedChannel
      else if length (buffer c) < capacity c + waiting c
      then Done (c\<lparr>buffer := buffer c @ [v]\<rparr>)
      else Blocks)"

text \<open>A receive gives \<open>None\<close> on a closed and drained channel (the \<open>ok\<close> flag is false).\<close>

definition chan_recv :: "'t chan \<Rightarrow> ('t option \<times> 't chan) chan_result" where
  "chan_recv c = (case buffer c of
     v # vs \<Rightarrow> Done (Some v, c\<lparr>buffer := vs, waiting := waiting c - 1\<rparr>)
   | [] \<Rightarrow> if is_closed c then Done (None, c) else Blocks)"

definition chan_close :: "'t chan \<Rightarrow> 't chan chan_result" where
  "chan_close c =
     (if is_closed c then Crashes CloseOfClosedChannel else Done (c\<lparr>is_closed := True\<rparr>))"

section \<open>Sinks\<close>

text \<open>
  The \<open>Sink\<close> interface: a sink of type \<open>'s\<close> is a pair of operations on its state.
  \<open>Submit\<close> returns an error or none (\<open>'e option\<close>).
\<close>

record ('s, 't, 'e) sink =
  sink_submit :: "'t \<Rightarrow> 's \<Rightarrow> ('s \<times> 'e option) chan_result"
  sink_close :: "'s \<Rightarrow> 's chan_result"

definition ThenSink :: "('s, 't, 'e) sink \<Rightarrow> ('u \<Rightarrow> 't) \<Rightarrow> ('s, 'u, 'e) sink" where
  "ThenSink k f = \<lparr>sink_submit = (\<lambda>v. sink_submit k (f v)), sink_close = sink_close k\<rparr>"

definition FilterSink :: "('s, 't, 'e) sink \<Rightarrow> ('t \<Rightarrow> bool) \<Rightarrow> ('s, 't, 'e) sink" where
  "FilterSink k f =
     \<lparr>sink_submit = (\<lambda>v s. if f v then sink_submit k v s else Done (s, None)),
      sink_close = sink_close k\<rparr>"

definition SinkFromChan :: "('t chan, 't, 'e) sink" where
  "SinkFromChan =
     \<lparr>sink_submit = (\<lambda>v c. bind_chan (chan_send v c) (\<lambda>c'. Done (c', None))),
      sink_close = chan_close\<rparr>"

text \<open>
  Submitting values one after the other, as a multiplexer does for one sink: an error is
  recorded and the next value follows.
\<close>

fun submit_all :: "('s, 't, 'e) sink \<Rightarrow> 't list \<Rightarrow> 's \<Rightarrow> ('s \<times> 'e list) chan_result" where
  "submit_all k [] s = Done (s, [])"
| "submit_all k (v # vs) s =
     bind_chan (sink_submit k v s) (\<lambda>(s', e).
       bind_chan (submit_all k vs s') (\<lambda>(s'', es).
         Done (s'', (case e of None \<Rightarrow> es | Some x \<Rightarrow> x # es))))"

lemma submit_all_ThenSink: "submit_all (ThenSink k f) vs s = submit_all k (map f vs) s"
  by (induction vs arbitrary: s) (simp_all add: ThenSink_def)

lemma submit_all_FilterSink: "submit_all (FilterSink k f) vs s = submit_all k (filter f vs) s"
proof (induction vs arbitrary: s)
  case Nil
  then show ?case by simp
next
  case (Cons v vs)
  then show ?case
  proof (cases "f v")
    case True
    with Cons show ?thesis by (simp add: FilterSink_def)
  next
    case False
    have "bind_chan (submit_all k (filter f vs) s) (\<lambda>(s'', es). Done (s'', es)) =
        submit_all k (filter f vs) s"
      by (cases "submit_all k (filter f vs) s") auto
    with False Cons.IH [of s] show ?thesis by (simp add: FilterSink_def)
  qed
qed

lemma close_ThenSink [simp]: "sink_close (ThenSink k f) = sink_close k"
  by (simp add: ThenSink_def)

lemma close_FilterSink [simp]: "sink_close (FilterSink k f) = sink_close k"
  by (simp add: FilterSink_def)

section \<open>What a client of a sink relies on\<close>

text \<open>
  \<open>content s\<close> is what the sink in state \<open>s\<close> has taken in, in order. A submit without error
  takes in its value and nothing else, a submit with an error takes in nothing, and closing
  keeps the content.
\<close>

locale sink_contract =
  fixes ops :: "('s, 't, 'e) sink"
    and content :: "'s \<Rightarrow> 't list"
    and closed :: "'s \<Rightarrow> bool"
  assumes submit_ok: "sink_submit ops v s = Done (s', None) \<Longrightarrow> content s' = content s @ [v]"
    and submit_error: "sink_submit ops v s = Done (s', Some e) \<Longrightarrow> content s' = content s"
    and submit_open: "sink_submit ops v s = Done (s', r) \<Longrightarrow> closed s' = closed s"
    and close_content: "sink_close ops s = Done s' \<Longrightarrow> content s' = content s \<and> closed s'"
    and submit_closed: "closed s \<Longrightarrow> sink_submit ops v s = Crashes SendOnClosedChannel"
begin

lemma submit_all_content:
  "submit_all ops vs s = Done (s', []) \<Longrightarrow> content s' = content s @ vs"
proof (induction vs arbitrary: s)
  case Nil
  then show ?case by simp
next
  case (Cons v vs)
  from Cons.prems obtain s1 where one: "sink_submit ops v s = Done (s1, None)"
    and rest: "submit_all ops vs s1 = Done (s', [])"
    by (auto simp: bind_chan_Done_iff split: option.splits)
  from Cons.IH [OF rest] submit_ok [OF one] show ?case by simp
qed

lemma submit_all_closed:
  "submit_all ops vs s = Done (s', es) \<Longrightarrow> closed s' = closed s"
proof (induction vs arbitrary: s es)
  case Nil
  then show ?case by simp
next
  case (Cons v vs)
  from Cons.prems obtain s1 r es' where "sink_submit ops v s = Done (s1, r)"
    and "submit_all ops vs s1 = Done (s', es')"
    by (auto simp: bind_chan_Done_iff)
  with Cons.IH submit_open show ?case by metis
qed

text \<open>A chain of the two combinators takes in exactly the mapped values that pass the filter.\<close>

lemma chained_content:
  "submit_all (FilterSink (ThenSink ops f) p) vs s = Done (s', []) \<Longrightarrow>
   content s' = content s @ map f (filter p vs)"
  by (simp add: submit_all_FilterSink submit_all_ThenSink submit_all_content)

end

interpretation chan_sink: sink_contract SinkFromChan buffer is_closed
  by unfold_locales
    (auto simp: SinkFromChan_def chan_send_def chan_close_def bind_chan_Done_iff split: if_splits)

section \<open>The request-reply handshake\<close>

record ('t, 'u) await_reply =
  ar_value :: 't
  ar_reply :: "'u chan"

definition NewAwaitReply :: "'t \<Rightarrow> ('t, 'u) await_reply" where
  "NewAwaitReply v = \<lparr>ar_value = v, ar_reply = make_chan 0\<rparr>"

definition Reply :: "'u \<Rightarrow> ('t, 'u) await_reply \<Rightarrow> ('t, 'u) await_reply chan_result" where
  "Reply u ar = bind_chan (chan_send u (ar_reply ar)) (\<lambda>c.
     bind_chan (chan_close c) (\<lambda>c'. Done (ar\<lparr>ar_reply := c'\<rparr>)))"

text \<open>\<open>Await\<close> starts to wait and, once a reply is there, takes it.\<close>

definition Await_begin :: "('t, 'u) await_reply \<Rightarrow> ('t, 'u) await_reply" where
  "Await_begin ar = ar\<lparr>ar_reply := (ar_reply ar)\<lparr>waiting := Suc (waiting (ar_reply ar))\<rparr>\<rparr>"

definition Await_end :: "('t, 'u) await_reply \<Rightarrow> ('u option \<times> ('t, 'u) await_reply) chan_result" where
  "Await_end ar = bind_chan (chan_recv (ar_reply ar)) (\<lambda>(u, c). Done (u, ar\<lparr>ar_reply := c\<rparr>))"

lemma Reply_blocks: "Reply u (NewAwaitReply v) = Blocks"
  by (simp add: Reply_def NewAwaitReply_def make_chan_def chan_send_def)

lemma Await_blocks: "Await_end (Await_begin (NewAwaitReply v)) = Blocks"
  by (simp add: Await_end_def Await_begin_def NewAwaitReply_def make_chan_def chan_recv_def)

text \<open>A reply reaches the caller that waits, once: a second reply is a send on a closed channel.\<close>

lemma handshake:
  assumes "Reply u (Await_begin (NewAwaitReply v)) = Done ar"
  shows "\<exists>ar'. Await_end ar = Done (Some u, ar')" and "Reply u' ar = Crashes SendOnClosedChannel"
    and "ar_value ar = v"
  using assms by (auto simp: Reply_def Await_begin_def Await_end_def NewAwaitReply_def make_chan_def chan_send_def
      chan_close_def chan_recv_def)

text \<open>\<open>AwaitDone\<close>, the handshake without a reply value.\<close>

type_synonym 't await_done = "('t, unit) await_reply"

definition Value :: "('t, 'u) await_reply \<Rightarrow> 't" where
  "Value ar = ar_value ar"

definition NewAwaitDone :: "'t \<Rightarrow> 't await_done" where
  "NewAwaitDone v = NewAwaitReply v"

definition signal_done :: "'t await_done \<Rightarrow> 't await_done chan_result" where
  "signal_done ad = Reply () ad"

definition Wait_end :: "'t await_done \<Rightarrow> (unit \<times> 't await_done) chan_result" where
  "Wait_end ad = bind_chan (Await_end ad) (\<lambda>(u, ad'). Done ((), ad'))"

lemma done_handshake:
  assumes "signal_done (Await_begin (NewAwaitDone v)) = Done ad"
  shows "\<exists>ad'. Wait_end ad = Done ((), ad')" and "signal_done ad = Crashes SendOnClosedChannel" and "Value ad = v"
  using handshake [of "()" v ad] assms by (auto simp: signal_done_def NewAwaitDone_def Wait_end_def Value_def)

section \<open>Chained cancel functions\<close>

text \<open>
  A cancel function acts on the world \<open>'w\<close>; a nil entry of the variadic tail is \<open>None\<close>.
\<close>

fun cancel_rest :: "('w \<Rightarrow> 'w) option list \<Rightarrow> 'w \<Rightarrow> 'w" where
  "cancel_rest [] w = w"
| "cancel_rest (cf # cfs) w = cancel_rest cfs (case cf of None \<Rightarrow> w | Some f \<Rightarrow> f w)"

definition ChainCancelFunc ::
    "('w \<Rightarrow> 'w) \<Rightarrow> ('w \<Rightarrow> 'w) \<Rightarrow> ('w \<Rightarrow> 'w) option list \<Rightarrow> 'w \<Rightarrow> 'w" where
  "ChainCancelFunc cf1 cf2 cfs = (\<lambda>w. cancel_rest cfs (cf2 (cf1 w)))"

lemma cancel_rest_fold: "cancel_rest cfs w = fold (\<lambda>f. f) (List.map_filter (\<lambda>f. f) cfs) w"
  by (induction cfs arbitrary: w) (auto simp: List.map_filter_def split: option.splits)

end
