(* ===== verification/Mux_Core.thy ===== *)
theory Mux_Core
  imports Mux_Sink "HOL-Library.Sublist"
begin

text \<open>
  The multiplexer of \<open>internal/mux/mux.go\<close> as a transition system: one goroutine
  \<open>run\<close> that owns the set of sinks, and any number of concurrent calls of \<open>Submit\<close>,
  \<open>Subscribe\<close>, the cancel functions and \<open>Close\<close>. A step is one channel operation, one lock
  operation or one call of a sink; the scheduler, the choice of a ready \<open>select\<close> branch, the
  expiry of the submit timeout, the iteration order of the map and the moments at which the
  \<open>Submit\<close> of a sink blocks are left open.
\<close>

section \<open>State\<close>

datatype mux_error = MuxClosed | SubmitTimedOut

text \<open>Where the goroutine \<open>run\<close> stands.\<close>

datatype ('s, 't) run_pc =
    RunSelect                             \<comment> \<open>at the \<open>select\<close> of the main loop\<close>
  | RunFanOut 't "'s list"                \<comment> \<open>fanning out a value, sinks still to visit\<close>
  | RunReply nat                          \<comment> \<open>at \<open>ar.reply <- struct{}{}\<close> for a call\<close>
  | RunLocking                            \<comment> \<open>in the defer, at \<open>submitMu.Lock\<close>\<close>
  | RunDraining "'t list"                 \<comment> \<open>holding the lock, \<open>buffered\<close> so far\<close>
  | RunDeliver "'t list"                  \<comment> \<open>lock released, values of \<open>buffered\<close> to deliver\<close>
  | RunDeliverTo 't "'s list" "'t list"   \<comment> \<open>delivering one of them, sinks and values left\<close>
  | RunClosing "'s list"                  \<comment> \<open>closing the sinks, those still to close\<close>
  | RunExited

text \<open>
  Where a call stands. A subscribe or cancel call ends with a flag: true when \<open>run\<close>
  acknowledged it, false when it left through \<open>done\<close>.
\<close>

datatype ('s, 't) call_pc =
    Idle
  | SubmitEnter 't | SubmitCheck 't | SubmitSelect 't
  | SubmitReturned 't "mux_error option"
  | SubscribeSelect 's | SubscribeWait 's | SubscribeReturned 's bool
  | CancelSelect 's | CancelWait 's | CancelReturned 's bool
  | CloseReturned

text \<open>What a sink sees: calls of its \<open>Submit\<close> (with whether it failed) and of its \<open>Close\<close>.\<close>

datatype ('s, 't) sink_event = SinkSubmit 's 't bool | SinkClose 's

text \<open>
  The fields of \<open>Mux\<close> (\<open>done\<close> is the closed state of the \<open>done\<close> channel), the two kinds of
  threads, the sinks whose \<open>Submit\<close> does not return at the moment (a channel sink whose channel is
  full), and history that the code does not keep: what the sinks saw, the values whose send
  on \<open>input\<close> completed, those whose delivery \<open>run\<close> has begun, how many values preceded the
  registration of a sink, and how often a sink was subscribed, cancelled, registered and
  unregistered.
\<close>

record ('s, 't) mux_state =
  input :: "'t list"
  inBufSize :: nat
  outputs :: "'s \<rightharpoonup> bool"
  done_closed :: bool
  run_at :: "('s, 't) run_pc"
  calls :: "nat \<Rightarrow> ('s, 't) call_pc"
  stuck :: "'s set"
  sink_log :: "('s, 't) sink_event list"
  accepted :: "'t list"
  taken :: "'t list"
  joined :: "'s \<Rightarrow> nat"
  subscribes :: "'s \<Rightarrow> nat"
  cancels :: "'s \<Rightarrow> nat"
  registrations :: "'s \<Rightarrow> nat"
  unregistrations :: "'s \<Rightarrow> nat"

text \<open>\<open>Make\<close> with a buffer of \<open>n\<close> values.\<close>

definition Make :: "nat \<Rightarrow> ('s, 't) mux_state" where
  "Make n = \<lparr>input = [], inBufSize = n, outputs = Map.empty, done_closed = False,
     run_at = RunSelect, calls = (\<lambda>_. Idle), stuck = {}, sink_log = [], accepted = [], taken = [],
     joined = (\<lambda>_. 0), subscribes = (\<lambda>_. 0), cancels = (\<lambda>_. 0), registrations = (\<lambda>_. 0),
     unregistrations = (\<lambda>_. 0)\<rparr>"

text \<open>
  The functional options of \<open>Make\<close>, which set fields before the channel is made; a nil option is
  skipped, and a negative buffer panics in \<open>make\<close> (a buffer beyond the memory does too, and is
  not modelled). The logger is there or not.
\<close>

record mux_options =
  opt_inBufSize :: int
  opt_logger :: bool

type_synonym mux_option = "mux_options \<Rightarrow> mux_options"

definition Buffered :: "int \<Rightarrow> mux_option" where
  "Buffered n m = m\<lparr>opt_inBufSize := n\<rparr>"

definition WithLogger :: "bool \<Rightarrow> mux_option" where
  "WithLogger logger m = m\<lparr>opt_logger := logger\<rparr>"

fun apply_mux_options :: "mux_option option list \<Rightarrow> mux_options \<Rightarrow> mux_options" where
  "apply_mux_options [] m = m"
| "apply_mux_options (None # opts) m = apply_mux_options opts m"
| "apply_mux_options (Some opt # opts) m = apply_mux_options opts (opt m)"

definition Make_with :: "mux_option option list \<Rightarrow> ('s, 't) mux_state outcome" where
  "Make_with opts =
     (let m = apply_mux_options opts \<lparr>opt_inBufSize = 0, opt_logger = False\<rparr>
      in if opt_inBufSize m < 0 then Panic MakeChanOutOfRange else Return (Make (nat (opt_inBufSize m))))"

text \<open>Without options, as the repository makes all its multiplexers, the channel is unbuffered.\<close>

lemma Make_with_none: "Make_with [] = Return (Make 0)"
  by (simp add: Make_with_def)

lemma apply_mux_options_append:
  "apply_mux_options (opts @ opts') m = apply_mux_options opts' (apply_mux_options opts m)"
  by (induction opts m rule: apply_mux_options.induct) simp_all

lemma Make_with_Buffered:
  "Make_with (opts @ [Some (Buffered n)]) = (if n < 0 then Panic MakeChanOutOfRange else Return (Make (nat n)))"
  "Make_with (opts @ [Some (WithLogger l)]) = Make_with opts"
  by (simp_all add: Make_with_def apply_mux_options_append Buffered_def WithLogger_def Let_def)

abbreviation set_call :: "nat \<Rightarrow> ('s, 't) call_pc \<Rightarrow> ('s, 't) mux_state \<Rightarrow> ('s, 't) mux_state" where
  "set_call c p \<sigma> \<equiv> \<sigma>\<lparr>calls := (calls \<sigma>)(c := p)\<rparr>"

abbreviation log_event :: "('s, 't) sink_event \<Rightarrow> ('s, 't) mux_state \<Rightarrow> ('s, 't) mux_state" where
  "log_event e \<sigma> \<equiv> \<sigma>\<lparr>sink_log := sink_log \<sigma> @ [e]\<rparr>"

text \<open>The write lock of \<open>submitMu\<close> is held or waited for: no new read lock is granted.\<close>

fun writer :: "('s, 't) run_pc \<Rightarrow> bool" where
  "writer RunLocking = True"
| "writer (RunDraining vs) = True"
| "writer _ = False"

text \<open>The read lock of \<open>submitMu\<close> is held by this call.\<close>

fun holds_rlock :: "('s, 't) call_pc \<Rightarrow> bool" where
  "holds_rlock (SubmitCheck v) = True"
| "holds_rlock (SubmitSelect v) = True"
| "holds_rlock _ = False"

section \<open>Steps\<close>

text \<open>\<open>Submit\<close>: the read lock, the check of \<open>done\<close>, and the final \<open>select\<close>.\<close>

inductive submit_step :: "('s, 't) mux_state \<Rightarrow> ('s, 't) mux_state \<Rightarrow> bool" where
  submit_rlock: "calls \<sigma> c = SubmitEnter v \<Longrightarrow> \<not> writer (run_at \<sigma>) \<Longrightarrow>
    submit_step \<sigma> (set_call c (SubmitCheck v) \<sigma>)"
| submit_fast_fail: "calls \<sigma> c = SubmitCheck v \<Longrightarrow> done_closed \<sigma> \<Longrightarrow>
    submit_step \<sigma> (set_call c (SubmitReturned v (Some MuxClosed)) \<sigma>)"
| submit_select: "calls \<sigma> c = SubmitCheck v \<Longrightarrow> \<not> done_closed \<sigma> \<Longrightarrow>
    submit_step \<sigma> (set_call c (SubmitSelect v) \<sigma>)"
| submit_buffer: "calls \<sigma> c = SubmitSelect v \<Longrightarrow> length (input \<sigma>) < inBufSize \<sigma> \<Longrightarrow>
    submit_step \<sigma> (set_call c (SubmitReturned v None)
      (\<sigma>\<lparr>input := input \<sigma> @ [v], accepted := accepted \<sigma> @ [v]\<rparr>))"
| submit_done: "calls \<sigma> c = SubmitSelect v \<Longrightarrow> done_closed \<sigma> \<Longrightarrow>
    submit_step \<sigma> (set_call c (SubmitReturned v (Some MuxClosed)) \<sigma>)"
| submit_timeout: "calls \<sigma> c = SubmitSelect v \<Longrightarrow>
    submit_step \<sigma> (set_call c (SubmitReturned v (Some SubmitTimedOut)) \<sigma>)"

text \<open>
  \<open>Subscribe\<close> and the cancel function it returns: the branch through \<open>done\<close>. The other
  branch is a rendezvous with \<open>run\<close>.
\<close>

inductive subscribe_step :: "('s, 't) mux_state \<Rightarrow> ('s, 't) mux_state \<Rightarrow> bool" where
  subscribe_done: "calls \<sigma> c = SubscribeSelect s \<Longrightarrow> done_closed \<sigma> \<Longrightarrow>
    subscribe_step \<sigma> (set_call c (SubscribeReturned s False) \<sigma>)"
| cancel_done: "calls \<sigma> c = CancelSelect s \<Longrightarrow> done_closed \<sigma> \<Longrightarrow>
    subscribe_step \<sigma> (set_call c (CancelReturned s False) \<sigma>)"

text \<open>
  The goroutine \<open>run\<close>: its main loop, then its deferred function. A value is taken from the
  buffer, or from a call that is at its send when the buffer is empty. A call of the \<open>Submit\<close> of a
  sink ends once the sink is not stuck; \<open>Close\<close> of a sink does not block, as every sink of the
  repository closes a channel there.
\<close>

inductive run_step :: "('s, 't) mux_state \<Rightarrow> ('s, 't) mux_state \<Rightarrow> bool" where
  run_receive: "run_at \<sigma> = RunSelect \<Longrightarrow> input \<sigma> = v # vs \<Longrightarrow> range_order (outputs \<sigma>) ks \<Longrightarrow>
    run_step \<sigma> (\<sigma>\<lparr>input := vs, taken := taken \<sigma> @ [v], run_at := RunFanOut v ks\<rparr>)"
| run_receive_direct: "run_at \<sigma> = RunSelect \<Longrightarrow> input \<sigma> = [] \<Longrightarrow> calls \<sigma> c = SubmitSelect v \<Longrightarrow>
    range_order (outputs \<sigma>) ks \<Longrightarrow>
    run_step \<sigma> (set_call c (SubmitReturned v None)
      (\<sigma>\<lparr>accepted := accepted \<sigma> @ [v], taken := taken \<sigma> @ [v], run_at := RunFanOut v ks\<rparr>))"
| run_fan_out: "run_at \<sigma> = RunFanOut v (k # ks) \<Longrightarrow> k \<notin> stuck \<sigma> \<Longrightarrow>
    run_step \<sigma> (log_event (SinkSubmit k v err) (\<sigma>\<lparr>run_at := RunFanOut v ks\<rparr>))"
| run_fan_out_end: "run_at \<sigma> = RunFanOut v [] \<Longrightarrow> run_step \<sigma> (\<sigma>\<lparr>run_at := RunSelect\<rparr>)"
| run_register: "run_at \<sigma> = RunSelect \<Longrightarrow> calls \<sigma> c = SubscribeSelect s \<Longrightarrow>
    run_step \<sigma> (set_call c (SubscribeWait s)
      (\<sigma>\<lparr>outputs := (outputs \<sigma>)(s \<mapsto> True), run_at := RunReply c,
         joined := (joined \<sigma>)(s := length (taken \<sigma>)),
         registrations := (registrations \<sigma>)(s := Suc (registrations \<sigma> s))\<rparr>))"
| run_unregister: "run_at \<sigma> = RunSelect \<Longrightarrow> calls \<sigma> c = CancelSelect s \<Longrightarrow>
    run_step \<sigma> (set_call c (CancelWait s) (log_event (SinkClose s)
      (\<sigma>\<lparr>outputs := (outputs \<sigma>)(s := None), run_at := RunReply c,
         unregistrations := (unregistrations \<sigma>)(s := Suc (unregistrations \<sigma> s))\<rparr>)))"
| run_reply_subscribe: "run_at \<sigma> = RunReply c \<Longrightarrow> calls \<sigma> c = SubscribeWait s \<Longrightarrow>
    run_step \<sigma> (set_call c (SubscribeReturned s True) (\<sigma>\<lparr>run_at := RunSelect\<rparr>))"
| run_reply_cancel: "run_at \<sigma> = RunReply c \<Longrightarrow> calls \<sigma> c = CancelWait s \<Longrightarrow>
    run_step \<sigma> (set_call c (CancelReturned s True) (\<sigma>\<lparr>run_at := RunSelect\<rparr>))"
| run_done: "run_at \<sigma> = RunSelect \<Longrightarrow> done_closed \<sigma> \<Longrightarrow> run_step \<sigma> (\<sigma>\<lparr>run_at := RunLocking\<rparr>)"
| run_lock: "run_at \<sigma> = RunLocking \<Longrightarrow> (\<And>c. \<not> holds_rlock (calls \<sigma> c)) \<Longrightarrow>
    run_step \<sigma> (\<sigma>\<lparr>run_at := RunDraining []\<rparr>)"
| run_drain: "run_at \<sigma> = RunDraining acc \<Longrightarrow> input \<sigma> = v # vs \<Longrightarrow>
    run_step \<sigma> (\<sigma>\<lparr>input := vs, run_at := RunDraining (acc @ [v])\<rparr>)"
| run_drain_direct: "run_at \<sigma> = RunDraining acc \<Longrightarrow> input \<sigma> = [] \<Longrightarrow> calls \<sigma> c = SubmitSelect v \<Longrightarrow>
    run_step \<sigma> (set_call c (SubmitReturned v None)
      (\<sigma>\<lparr>accepted := accepted \<sigma> @ [v], run_at := RunDraining (acc @ [v])\<rparr>))"
| run_drained: "run_at \<sigma> = RunDraining acc \<Longrightarrow> input \<sigma> = [] \<Longrightarrow>
    (\<And>c v. calls \<sigma> c \<noteq> SubmitSelect v) \<Longrightarrow> run_step \<sigma> (\<sigma>\<lparr>run_at := RunDeliver acc\<rparr>)"
| run_deliver: "run_at \<sigma> = RunDeliver (v # vs) \<Longrightarrow> range_order (outputs \<sigma>) ks \<Longrightarrow>
    run_step \<sigma> (\<sigma>\<lparr>taken := taken \<sigma> @ [v], run_at := RunDeliverTo v ks vs\<rparr>)"
| run_deliver_to: "run_at \<sigma> = RunDeliverTo v (k # ks) vs \<Longrightarrow> k \<notin> stuck \<sigma> \<Longrightarrow>
    run_step \<sigma> (log_event (SinkSubmit k v err) (\<sigma>\<lparr>run_at := RunDeliverTo v ks vs\<rparr>))"
| run_deliver_next: "run_at \<sigma> = RunDeliverTo v [] vs \<Longrightarrow>
    run_step \<sigma> (\<sigma>\<lparr>run_at := RunDeliver vs\<rparr>)"
| run_delivered: "run_at \<sigma> = RunDeliver [] \<Longrightarrow> range_order (outputs \<sigma>) ks \<Longrightarrow>
    run_step \<sigma> (\<sigma>\<lparr>run_at := RunClosing ks\<rparr>)"
| run_close_sink: "run_at \<sigma> = RunClosing (k # ks) \<Longrightarrow>
    run_step \<sigma> (log_event (SinkClose k)
      (\<sigma>\<lparr>outputs := (outputs \<sigma>)(k := None), run_at := RunClosing ks\<rparr>))"
| run_exit: "run_at \<sigma> = RunClosing [] \<Longrightarrow> run_step \<sigma> (\<sigma>\<lparr>run_at := RunExited\<rparr>)"

text \<open>
  A goroutine of the program enters a method. A cancel function can be called once some
  \<open>Subscribe\<close> has returned it. \<open>Close\<close> closes \<open>done\<close> the first time and does nothing later.
\<close>

inductive enter_step :: "('s, 't) mux_state \<Rightarrow> ('s, 't) mux_state \<Rightarrow> bool" where
  enter_submit: "calls \<sigma> c = Idle \<Longrightarrow> enter_step \<sigma> (set_call c (SubmitEnter v) \<sigma>)"
| enter_subscribe: "calls \<sigma> c = Idle \<Longrightarrow>
    enter_step \<sigma> (set_call c (SubscribeSelect s)
      (\<sigma>\<lparr>subscribes := (subscribes \<sigma>)(s := Suc (subscribes \<sigma> s))\<rparr>))"
| enter_cancel: "calls \<sigma> c = Idle \<Longrightarrow> calls \<sigma> c' = SubscribeReturned s True \<Longrightarrow>
    enter_step \<sigma> (set_call c (CancelSelect s)
      (\<sigma>\<lparr>cancels := (cancels \<sigma>)(s := Suc (cancels \<sigma> s))\<rparr>))"

inductive close_step :: "('s, 't) mux_state \<Rightarrow> ('s, 't) mux_state \<Rightarrow> bool" where
  mux_close: "calls \<sigma> c = Idle \<Longrightarrow>
    close_step \<sigma> (set_call c CloseReturned (\<sigma>\<lparr>done_closed := True\<rparr>))"

text \<open>The readers of the sinks: which sinks are stuck may change at any time.\<close>

inductive sink_step :: "('s, 't) mux_state \<Rightarrow> ('s, 't) mux_state \<Rightarrow> bool" where
  sinks_change: "sink_step \<sigma> (\<sigma>\<lparr>stuck := S\<rparr>)"

inductive internal_step :: "('s, 't) mux_state \<Rightarrow> ('s, 't) mux_state \<Rightarrow> bool" where
  internal_submit: "submit_step \<sigma> \<tau> \<Longrightarrow> internal_step \<sigma> \<tau>"
| internal_subscribe: "subscribe_step \<sigma> \<tau> \<Longrightarrow> internal_step \<sigma> \<tau>"
| internal_run: "run_step \<sigma> \<tau> \<Longrightarrow> internal_step \<sigma> \<tau>"

inductive mux_step :: "('s, 't) mux_state \<Rightarrow> ('s, 't) mux_state \<Rightarrow> bool" where
  step_internal: "internal_step \<sigma> \<tau> \<Longrightarrow> mux_step \<sigma> \<tau>"
| step_enter: "enter_step \<sigma> \<tau> \<Longrightarrow> mux_step \<sigma> \<tau>"
| step_close: "close_step \<sigma> \<tau> \<Longrightarrow> mux_step \<sigma> \<tau>"
| step_sinks: "sink_step \<sigma> \<tau> \<Longrightarrow> mux_step \<sigma> \<tau>"

text \<open>Several steps, and the states a multiplexer made with a buffer of \<open>n\<close> values reaches.\<close>

inductive mux_steps :: "('s, 't) mux_state \<Rightarrow> ('s, 't) mux_state \<Rightarrow> bool" where
  steps_refl: "mux_steps \<sigma> \<sigma>"
| steps_step: "mux_steps \<sigma> \<tau> \<Longrightarrow> mux_step \<tau> \<upsilon> \<Longrightarrow> mux_steps \<sigma> \<upsilon>"

definition mux_reachable :: "('s, 't) mux_state \<Rightarrow> bool" where
  "mux_reachable \<sigma> \<longleftrightarrow> (\<exists>n. mux_steps (Make n) \<sigma>)"

lemma mux_reachable_Make: "mux_reachable (Make n)"
  by (auto simp: mux_reachable_def intro: steps_refl)

lemma Make_with_reachable: "Make_with opts = Return \<sigma> \<Longrightarrow> mux_reachable \<sigma>"
  by (auto simp: Make_with_def Let_def mux_reachable_Make split: if_splits)

lemma mux_reachable_step: "mux_reachable \<sigma> \<Longrightarrow> mux_step \<sigma> \<tau> \<Longrightarrow> mux_reachable \<tau>"
  by (auto simp: mux_reachable_def intro: steps_step)

lemma mux_steps_trans: "mux_steps \<sigma> \<tau> \<Longrightarrow> mux_steps \<rho> \<sigma> \<Longrightarrow> mux_steps \<rho> \<tau>"
  by (induction rule: mux_steps.induct) (auto intro: steps_step)

lemma mux_reachable_steps: "mux_reachable \<sigma> \<Longrightarrow> mux_steps \<sigma> \<tau> \<Longrightarrow> mux_reachable \<tau>"
  by (auto simp: mux_reachable_def intro: mux_steps_trans)

end
