(* ===== verification/Mux_Invariants.thy ===== *)
theory Mux_Invariants
  imports Mux_Core
begin

text \<open>
  The invariants of the multiplexer of \<open>Mux_Core\<close>: how \<open>run\<close> and the calls agree, where every
  accepted value is, which sinks a loop may visit, and, for a sink that is subscribed and
  cancelled at most once, the calls it sees.
\<close>

section \<open>Induction over the reachable states\<close>

text \<open>An invariant is shown for each group of steps on its own.\<close>

lemma mux_step_elim:
  assumes "mux_step \<sigma> \<tau>"
    and "submit_step \<sigma> \<tau> \<Longrightarrow> P" and "subscribe_step \<sigma> \<tau> \<Longrightarrow> P" and "run_step \<sigma> \<tau> \<Longrightarrow> P"
    and "enter_step \<sigma> \<tau> \<Longrightarrow> P" and "close_step \<sigma> \<tau> \<Longrightarrow> P"
    and "sink_step \<sigma> \<tau> \<Longrightarrow> P"
  shows P
  using assms by (auto elim!: mux_step.cases internal_step.cases)

lemma mux_reachable_induct [consumes 1, case_names make submit subscribe run enter close sinks]:
  assumes "mux_reachable \<sigma>"
    and make: "\<And>n. I (Make n)"
    and "\<And>\<sigma> \<tau>. mux_reachable \<sigma> \<Longrightarrow> I \<sigma> \<Longrightarrow> submit_step \<sigma> \<tau> \<Longrightarrow> I \<tau>"
    and "\<And>\<sigma> \<tau>. mux_reachable \<sigma> \<Longrightarrow> I \<sigma> \<Longrightarrow> subscribe_step \<sigma> \<tau> \<Longrightarrow> I \<tau>"
    and "\<And>\<sigma> \<tau>. mux_reachable \<sigma> \<Longrightarrow> I \<sigma> \<Longrightarrow> run_step \<sigma> \<tau> \<Longrightarrow> I \<tau>"
    and "\<And>\<sigma> \<tau>. mux_reachable \<sigma> \<Longrightarrow> I \<sigma> \<Longrightarrow> enter_step \<sigma> \<tau> \<Longrightarrow> I \<tau>"
    and "\<And>\<sigma> \<tau>. mux_reachable \<sigma> \<Longrightarrow> I \<sigma> \<Longrightarrow> close_step \<sigma> \<tau> \<Longrightarrow> I \<tau>"
    and "\<And>\<sigma> \<tau>. mux_reachable \<sigma> \<Longrightarrow> I \<sigma> \<Longrightarrow> sink_step \<sigma> \<tau> \<Longrightarrow> I \<tau>"
  shows "I \<sigma>"
proof -
  from assms(1) obtain n where "mux_steps (Make n) \<sigma>" by (auto simp: mux_reachable_def)
  then have "I \<sigma>"
  proof (induction "Make n :: ('a, 'b) mux_state" \<sigma> rule: mux_steps.induct)
    case steps_refl
    show ?case by (rule make)
  next
    case (steps_step \<tau> \<upsilon>)
    then have "mux_reachable \<tau>" by (auto simp: mux_reachable_def)
    with steps_step show ?case by (auto elim!: mux_step_elim intro: assms(3-8))
  qed
  then show ?thesis .
qed

section \<open>What a sink sees\<close>

fun sink_got :: "'s \<Rightarrow> ('s, 't) sink_event list \<Rightarrow> 't list" where
  "sink_got s [] = []"
| "sink_got s (SinkSubmit k v err # es) = (if k = s then v # sink_got s es else sink_got s es)"
| "sink_got s (SinkClose k # es) = sink_got s es"

fun sink_closes :: "'s \<Rightarrow> ('s, 't) sink_event list \<Rightarrow> nat" where
  "sink_closes s [] = 0"
| "sink_closes s (SinkSubmit k v err # es) = sink_closes s es"
| "sink_closes s (SinkClose k # es) = (if k = s then Suc (sink_closes s es) else sink_closes s es)"

text \<open>No \<open>Submit\<close> of \<open>s\<close> follows a \<open>Close\<close> of \<open>s\<close>.\<close>

fun no_submit_after_close :: "'s \<Rightarrow> ('s, 't) sink_event list \<Rightarrow> bool" where
  "no_submit_after_close s [] = True"
| "no_submit_after_close s (SinkSubmit k v err # es) = no_submit_after_close s es"
| "no_submit_after_close s (SinkClose k # es) =
     ((k = s \<longrightarrow> sink_got s es = []) \<and> no_submit_after_close s es)"

lemma sink_got_append [simp]: "sink_got s (xs @ ys) = sink_got s xs @ sink_got s ys"
  by (induction s xs rule: sink_got.induct) auto

lemma sink_closes_append [simp]: "sink_closes s (xs @ ys) = sink_closes s xs + sink_closes s ys"
  by (induction s xs rule: sink_closes.induct) auto

lemma no_submit_after_close_append [simp]:
  "no_submit_after_close s (xs @ ys) \<longleftrightarrow>
     no_submit_after_close s xs \<and> no_submit_after_close s ys \<and>
     (sink_closes s xs = 0 \<or> sink_got s ys = [])"
  by (induction s xs rule: no_submit_after_close.induct) auto

section \<open>\<open>run\<close> and the calls agree\<close>

text \<open>\<open>run\<close> has left its main loop.\<close>

fun shutting :: "('s, 't) run_pc \<Rightarrow> bool" where
  "shutting RunSelect = False"
| "shutting (RunFanOut v ks) = False"
| "shutting (RunReply c) = False"
| "shutting _ = True"

text \<open>\<open>run\<close> has acquired \<open>submitMu\<close>.\<close>

fun past_lock :: "('s, 't) run_pc \<Rightarrow> bool" where
  "past_lock RunLocking = False"
| "past_lock p = shutting p"

text \<open>\<open>run\<close> has begun to close the sinks.\<close>

fun closing :: "('s, 't) run_pc \<Rightarrow> bool" where
  "closing (RunClosing ks) = True"
| "closing RunExited = True"
| "closing _ = False"

text \<open>The call waits for \<open>run\<close> to acknowledge it.\<close>

fun awaiting :: "('s, 't) call_pc \<Rightarrow> bool" where
  "awaiting (SubscribeWait s) = True"
| "awaiting (CancelWait s) = True"
| "awaiting _ = False"

definition replies_match :: "('s, 't) mux_state \<Rightarrow> bool" where
  "replies_match \<sigma> \<longleftrightarrow> (\<forall>c. awaiting (calls \<sigma> c) \<longleftrightarrow> run_at \<sigma> = RunReply c)"

lemma replies_matchD: "replies_match \<sigma> \<Longrightarrow> awaiting (calls \<sigma> c) \<longleftrightarrow> run_at \<sigma> = RunReply c"
  by (simp add: replies_match_def)

text \<open>
  The case analysis of one step. Each invariant below is shown by it for every group of steps:
  the simplifier evaluates the step, and what is left is a choice of the call that moved.
\<close>

lemmas step_elims =
  submit_step.cases subscribe_step.cases run_step.cases enter_step.cases close_step.cases
  sink_step.cases

lemma reachable_replies_match: "mux_reachable \<sigma> \<Longrightarrow> replies_match \<sigma>"
  unfolding replies_match_def
proof (induction rule: mux_reachable_induct)
  case (submit \<sigma> \<tau>)
  then show ?case by (elim step_elims) (simp; metis awaiting.simps)+
next
  case (subscribe \<sigma> \<tau>)
  then show ?case by (elim step_elims) (simp; metis awaiting.simps)+
next
  case (run \<sigma> \<tau>)
  then show ?case by (elim step_elims) simp_all
next
  case (enter \<sigma> \<tau>)
  then show ?case by (elim step_elims) (simp; metis awaiting.simps)+
next
  case (close \<sigma> \<tau>)
  then show ?case by (elim step_elims) (simp; metis awaiting.simps)
qed (simp add: Make_def, elim step_elims, simp)

section \<open>The shutdown lock\<close>

text \<open>
  \<open>run\<close> leaves its loop only when \<open>done\<close> is closed, and once it has held \<open>submitMu\<close> no call
  of \<open>Submit\<close> is at its send any more.
\<close>

fun sending :: "('s, 't) call_pc \<Rightarrow> bool" where
  "sending (SubmitSelect v) = True"
| "sending _ = False"

lemma sending_holds_rlock: "sending p \<Longrightarrow> holds_rlock p"
  by (cases p) auto

lemma past_lock_shutting: "past_lock p \<Longrightarrow> shutting p"
  by (cases p) auto

definition lock_ok :: "('s, 't) mux_state \<Rightarrow> bool" where
  "lock_ok \<sigma> \<longleftrightarrow> (shutting (run_at \<sigma>) \<longrightarrow> done_closed \<sigma>) \<and>
     (past_lock (run_at \<sigma>) \<longrightarrow> (\<forall>c. \<not> sending (calls \<sigma> c)))"

lemma reachable_lock_ok: "mux_reachable \<sigma> \<Longrightarrow> lock_ok \<sigma>"
  unfolding lock_ok_def
proof (induction rule: mux_reachable_induct)
  case (submit \<sigma> \<tau>)
  then show ?case by (elim step_elims) (auto dest: past_lock_shutting)
next
  case (subscribe \<sigma> \<tau>)
  then show ?case by (elim step_elims) auto
next
  case (run \<sigma> \<tau>)
  then show ?case by (elim step_elims) (auto dest: sending_holds_rlock)
next
  case (enter \<sigma> \<tau>)
  then show ?case by (elim step_elims) auto
next
  case (close \<sigma> \<tau>)
  then show ?case by (elim step_elims) auto
qed (simp add: Make_def, elim step_elims, simp)

lemma past_lock_no_send:
  assumes "mux_reachable \<sigma>" and "past_lock (run_at \<sigma>)"
  shows "calls \<sigma> c \<noteq> SubmitSelect v"
proof -
  from reachable_lock_ok [OF assms(1)] assms(2) have "\<not> sending (calls \<sigma> c)"
    by (simp add: lock_ok_def)
  then show ?thesis by auto
qed

section \<open>Where the accepted values are\<close>

text \<open>Values \<open>run\<close> has drained from the buffer and not begun to deliver.\<close>

fun pending :: "('s, 't) run_pc \<Rightarrow> 't list" where
  "pending (RunDraining vs) = vs"
| "pending (RunDeliver vs) = vs"
| "pending (RunDeliverTo v ks vs) = vs"
| "pending _ = []"

text \<open>\<open>run\<close> has emptied the buffer for good.\<close>

fun drained :: "('s, 't) run_pc \<Rightarrow> bool" where
  "drained (RunDraining vs) = False"
| "drained p = past_lock p"

lemma drained_past_lock: "drained p \<Longrightarrow> past_lock p"
  by (cases p) auto

text \<open>Every value whose send completed is delivered, drained or buffered, in order.\<close>

definition values_ok :: "('s, 't) mux_state \<Rightarrow> bool" where
  "values_ok \<sigma> \<longleftrightarrow> accepted \<sigma> = taken \<sigma> @ pending (run_at \<sigma>) @ input \<sigma> \<and>
     length (input \<sigma>) \<le> inBufSize \<sigma> \<and> (drained (run_at \<sigma>) \<longrightarrow> input \<sigma> = [])"

lemma reachable_values_ok: "mux_reachable \<sigma> \<Longrightarrow> values_ok \<sigma>"
  unfolding values_ok_def
proof (induction rule: mux_reachable_induct)
  case (submit \<sigma> \<tau>)
  then show ?case
    by (elim step_elims) (auto dest: past_lock_no_send drained_past_lock)
next
  case (run \<sigma> \<tau>)
  then show ?case by (elim step_elims) auto
qed (auto simp: Make_def elim!: step_elims)

section \<open>The sinks a loop visits\<close>

fun visiting :: "('s, 't) run_pc \<Rightarrow> 's list" where
  "visiting (RunFanOut v ks) = ks"
| "visiting (RunDeliverTo v ks vs) = ks"
| "visiting (RunClosing ks) = ks"
| "visiting _ = []"

definition visits_ok :: "('s, 't) mux_state \<Rightarrow> bool" where
  "visits_ok \<sigma> \<longleftrightarrow> finite (dom (outputs \<sigma>)) \<and> distinct (visiting (run_at \<sigma>)) \<and>
     set (visiting (run_at \<sigma>)) \<subseteq> dom (outputs \<sigma>) \<and>
     (closing (run_at \<sigma>) \<longrightarrow> set (visiting (run_at \<sigma>)) = dom (outputs \<sigma>))"

lemma reachable_visits_ok: "mux_reachable \<sigma> \<Longrightarrow> visits_ok \<sigma>"
  unfolding visits_ok_def
proof (induction rule: mux_reachable_induct)
  case (run \<sigma> \<tau>)
  then show ?case
    by (elim step_elims) (auto simp: range_order_def simp del: fun_upd_apply split: if_splits)
qed (auto simp: Make_def elim!: step_elims)

section \<open>The calls about one sink\<close>

text \<open>A call of \<open>Subscribe\<close> with the sink, one that was registered, a call of its cancel function.\<close>

fun subscribing :: "'s \<Rightarrow> ('s, 't) call_pc \<Rightarrow> bool" where
  "subscribing s (SubscribeSelect k) = (k = s)"
| "subscribing s (SubscribeWait k) = (k = s)"
| "subscribing s (SubscribeReturned k b) = (k = s)"
| "subscribing s _ = False"

fun registered_by :: "'s \<Rightarrow> ('s, 't) call_pc \<Rightarrow> bool" where
  "registered_by s (SubscribeWait k) = (k = s)"
| "registered_by s (SubscribeReturned k b) = (k = s \<and> b)"
| "registered_by s _ = False"

fun cancelling :: "'s \<Rightarrow> ('s, 't) call_pc \<Rightarrow> bool" where
  "cancelling s (CancelSelect k) = (k = s)"
| "cancelling s (CancelWait k) = (k = s)"
| "cancelling s (CancelReturned k b) = (k = s)"
| "cancelling s _ = False"

text \<open>A sink that is handed to \<open>Subscribe\<close> once and whose cancel function is called once.\<close>

definition used_once :: "'s \<Rightarrow> ('s, 't) mux_state \<Rightarrow> bool" where
  "used_once s \<sigma> \<longleftrightarrow> subscribes \<sigma> s \<le> 1 \<and> cancels \<sigma> s \<le> 1"

lemma mux_step_counts:
  assumes "mux_step \<sigma> \<tau>"
  shows "subscribes \<sigma> s \<le> subscribes \<tau> s" and "cancels \<sigma> s \<le> cancels \<tau> s"
    and "unregistrations \<sigma> s \<le> unregistrations \<tau> s"
  by (rule mux_step_elim [OF assms]; erule step_elims; simp)+

lemma used_once_back: "used_once s \<tau> \<Longrightarrow> mux_step \<sigma> \<tau> \<Longrightarrow> used_once s \<sigma>"
  using mux_step_counts [of \<sigma> \<tau> s] by (simp add: used_once_def)

lemma used_once_steps: "mux_steps \<sigma> \<tau> \<Longrightarrow> used_once s \<tau> \<Longrightarrow> used_once s \<sigma>"
  by (induction rule: mux_steps.induct) (auto dest: used_once_back)

lemma reachable_subscribing:
  "mux_reachable \<sigma> \<Longrightarrow> \<forall>c. subscribing s (calls \<sigma> c) \<longrightarrow> 0 < subscribes \<sigma> s"
  by (induction rule: mux_reachable_induct)
    (simp add: Make_def, (elim step_elims; simp; metis subscribing.simps)+)

lemma reachable_registered_by:
  "mux_reachable \<sigma> \<Longrightarrow> \<forall>c. registered_by s (calls \<sigma> c) \<longrightarrow> 0 < registrations \<sigma> s"
  by (induction rule: mux_reachable_induct)
    (simp add: Make_def, (elim step_elims; simp; metis registered_by.simps)+)

lemma reachable_cancelling:
  "mux_reachable \<sigma> \<Longrightarrow> \<forall>c. cancelling s (calls \<sigma> c) \<longrightarrow> 0 < cancels \<sigma> s"
  by (induction rule: mux_reachable_induct)
    (simp add: Make_def, (elim step_elims; simp; metis cancelling.simps)+)

lemma reachable_cancelling_registered:
  "mux_reachable \<sigma> \<Longrightarrow> \<forall>c. cancelling s (calls \<sigma> c) \<longrightarrow> 0 < registrations \<sigma> s"
proof (induction rule: mux_reachable_induct)
  case (enter \<sigma> \<tau>)
  from reachable_registered_by [OF enter(1), of s] enter(2,3) show ?case
    by (elim step_elims) (simp; metis cancelling.simps registered_by.simps)+
qed (simp add: Make_def, (elim step_elims; simp; metis cancelling.simps)+)

lemma reachable_registrations:
  "mux_reachable \<sigma> \<Longrightarrow> 0 < registrations \<sigma> s \<longrightarrow> 0 < subscribes \<sigma> s"
proof (induction rule: mux_reachable_induct)
  case (run \<sigma> \<tau>)
  from reachable_subscribing [OF run(1), of s] run(2,3) show ?case
    by (elim step_elims) (simp_all, metis subscribing.simps)
qed (simp add: Make_def, (elim step_elims; simp)+)

lemma reachable_unregistrations:
  "mux_reachable \<sigma> \<Longrightarrow> 0 < unregistrations \<sigma> s \<longrightarrow> 0 < cancels \<sigma> s \<and> 0 < registrations \<sigma> s"
proof (induction rule: mux_reachable_induct)
  case (run \<sigma> \<tau>)
  from reachable_cancelling [OF run(1), of s] reachable_cancelling_registered [OF run(1), of s]
    run(2,3) show ?case
    by (elim step_elims) (simp_all, metis cancelling.simps)
qed (simp add: Make_def, (elim step_elims; simp)+)

text \<open>
  For a sink that is used once: there is at most one call of \<open>Subscribe\<close> with it and at most
  one call of its cancel function, and neither has been served while it is still waiting.
\<close>

definition served_once :: "'s \<Rightarrow> ('s, 't) mux_state \<Rightarrow> bool" where
  "served_once s \<sigma> \<longleftrightarrow>
     (\<forall>c. calls \<sigma> c = SubscribeSelect s \<longrightarrow> registrations \<sigma> s = 0) \<and>
     (\<forall>c. calls \<sigma> c = CancelSelect s \<longrightarrow> unregistrations \<sigma> s = 0) \<and>
     registrations \<sigma> s \<le> 1 \<and> unregistrations \<sigma> s \<le> 1"

lemma subscribing_enter:
  assumes "mux_reachable \<sigma>" and "subscribes \<sigma> s = 0"
  shows "\<not> subscribing s (calls \<sigma> c)"
  using reachable_subscribing [OF assms(1), of s] assms(2) by auto

lemma cancelling_enter:
  assumes "mux_reachable \<sigma>" and "cancels \<sigma> s = 0"
  shows "\<not> cancelling s (calls \<sigma> c)"
  using reachable_cancelling [OF assms(1), of s] assms(2) by auto

lemma reachable_single_subscribe:
  "mux_reachable \<sigma> \<Longrightarrow> subscribes \<sigma> s \<le> 1 \<longrightarrow>
     (\<forall>c c'. subscribing s (calls \<sigma> c) \<longrightarrow> subscribing s (calls \<sigma> c') \<longrightarrow> c = c')"
proof (induction rule: mux_reachable_induct)
  case (enter \<sigma> \<tau>)
  from subscribing_enter [OF enter(1), of s] enter(2,3) show ?case
    by (elim step_elims) (simp; metis subscribing.simps le_zero_eq not_less_eq_eq)+
qed (simp add: Make_def, (elim step_elims; simp; metis subscribing.simps)+)

lemma reachable_single_cancel:
  "mux_reachable \<sigma> \<Longrightarrow> cancels \<sigma> s \<le> 1 \<longrightarrow>
     (\<forall>c c'. cancelling s (calls \<sigma> c) \<longrightarrow> cancelling s (calls \<sigma> c') \<longrightarrow> c = c')"
proof (induction rule: mux_reachable_induct)
  case (enter \<sigma> \<tau>)
  from cancelling_enter [OF enter(1), of s] enter(2,3) show ?case
    by (elim step_elims) (simp; metis cancelling.simps le_zero_eq not_less_eq_eq)+
qed (simp add: Make_def, (elim step_elims; simp; metis cancelling.simps)+)

lemma served_once_run:
  assumes "run_step \<sigma> \<tau>" and "mux_reachable \<sigma>" and "used_once s \<sigma>" and "served_once s \<sigma>"
  shows "served_once s \<tau>"
proof -
  have sub: "c = c'" if "calls \<sigma> c = SubscribeSelect s" and "calls \<sigma> c' = SubscribeSelect s" for c c'
    using reachable_single_subscribe [OF assms(2), of s] assms(3) that
    by (metis subscribing.simps(1) used_once_def)
  have can: "c = c'" if "calls \<sigma> c = CancelSelect s" and "calls \<sigma> c' = CancelSelect s" for c c'
    using reachable_single_cancel [OF assms(2), of s] assms(3) that
    by (metis cancelling.simps(1) used_once_def)
  from assms(1,4) show ?thesis
    unfolding served_once_def by cases (auto dest: sub can)
qed

lemma served_once_enter:
  assumes "enter_step \<sigma> \<tau>" and "mux_reachable \<sigma>" and "used_once s \<tau>" and "served_once s \<sigma>"
  shows "served_once s \<tau>"
  using assms(1)
proof cases
  case (enter_submit c v)
  with assms(4) show ?thesis by (auto simp: served_once_def)
next
  case (enter_subscribe c k)
  have "registrations \<sigma> s = 0" if "k = s"
    using reachable_registrations [OF assms(2), of s] assms(3) enter_subscribe that
    by (auto simp: used_once_def)
  with enter_subscribe assms(4) show ?thesis by (auto simp: served_once_def)
next
  case (enter_cancel c c' k)
  have "unregistrations \<sigma> s = 0" if "k = s"
    using reachable_unregistrations [OF assms(2), of s] assms(3) enter_cancel that
    by (auto simp: used_once_def)
  with enter_cancel assms(4) show ?thesis by (auto simp: served_once_def)
qed

lemma reachable_served_once:
  "mux_reachable \<sigma> \<Longrightarrow> used_once s \<sigma> \<longrightarrow> served_once s \<sigma>"
proof (induction rule: mux_reachable_induct)
  case make
  show ?case by (simp add: served_once_def Make_def)
next
  case (run \<sigma> \<tau>)
  then show ?case
    by (meson served_once_run used_once_back step_internal internal_run)
next
  case (enter \<sigma> \<tau>)
  then show ?case by (meson served_once_enter used_once_back step_enter)
qed (elim step_elims; fastforce simp: served_once_def used_once_def)+

section \<open>The protocol of one sink\<close>

text \<open>
  A sink that is not registered has seen nothing. A registered sink is in \<open>outputs\<close> until it is
  unregistered or \<open>run\<close> closes it at the end, and it has been closed exactly when it is no longer
  there. After its close it sees nothing.
\<close>

definition protocol_ok :: "'s \<Rightarrow> ('s, 't) mux_state \<Rightarrow> bool" where
  "protocol_ok s \<sigma> \<longleftrightarrow>
     (registrations \<sigma> s = 0 \<longrightarrow>
        outputs \<sigma> s = None \<and> sink_got s (sink_log \<sigma>) = [] \<and> sink_closes s (sink_log \<sigma>) = 0) \<and>
     (registrations \<sigma> s = 1 \<longrightarrow>
        sink_closes s (sink_log \<sigma>) = (if outputs \<sigma> s = None then 1 else 0)) \<and>
     (unregistrations \<sigma> s = 1 \<longrightarrow> outputs \<sigma> s = None) \<and>
     (registrations \<sigma> s = 1 \<longrightarrow> unregistrations \<sigma> s = 0 \<longrightarrow> \<not> closing (run_at \<sigma>) \<longrightarrow>
        outputs \<sigma> s \<noteq> None) \<and>
     no_submit_after_close s (sink_log \<sigma>)"

lemma protocol_ok_run:
  assumes "run_step \<sigma> \<tau>" and "mux_reachable \<sigma>" and "used_once s \<sigma>" and "protocol_ok s \<sigma>"
  shows "protocol_ok s \<tau>"
proof -
  have once: "served_once s \<sigma>" using reachable_served_once [OF assms(2)] assms(3) by blast
  have vis: "set (visiting (run_at \<sigma>)) \<subseteq> dom (outputs \<sigma>)"
    using reachable_visits_ok [OF assms(2)] by (simp add: visits_ok_def)
  have regs: "registrations \<sigma> s = 0 \<or> registrations \<sigma> s = 1"
    using once by (auto simp: served_once_def)
  have cancel: "registrations \<sigma> s = 1" if "calls \<sigma> c = CancelSelect s" for c
    using reachable_cancelling_registered [OF assms(2), of s] that regs
    by (metis cancelling.simps(1) less_numeral_extra(3))
  from assms(1) show ?thesis
  proof cases
    case (run_fan_out v k ks err)
    with assms(4) vis regs show ?thesis by (cases "k = s") (auto simp: protocol_ok_def)
  next
    case (run_deliver_to v k ks vs err)
    with assms(4) vis regs show ?thesis by (cases "k = s") (auto simp: protocol_ok_def)
  next
    case (run_register c k)
    with once reachable_unregistrations [OF assms(2), of s]
    have "registrations \<sigma> s = 0 \<and> unregistrations \<sigma> s = 0" if "k = s"
      using that by (auto simp: served_once_def)
    with run_register assms(4) show ?thesis by (cases "k = s") (simp_all add: protocol_ok_def)
  next
    case (run_unregister c k)
    show ?thesis
    proof (cases "k = s")
      case True
      with run_unregister cancel once have "registrations \<sigma> s = 1" "unregistrations \<sigma> s = 0"
        by (auto simp: served_once_def)
      with run_unregister assms(4) True show ?thesis by (simp add: protocol_ok_def)
    qed (use run_unregister assms(4) in \<open>simp add: protocol_ok_def\<close>)
  next
    case (run_close_sink k ks)
    with vis have "outputs \<sigma> k \<noteq> None" by auto
    with run_close_sink assms(4) regs show ?thesis
      by (cases "k = s") (auto simp: protocol_ok_def)
  qed (use assms(4) in \<open>simp_all add: protocol_ok_def\<close>)
qed

text \<open>Only \<open>run\<close> changes what the protocol and the deliveries speak of.\<close>

definition same_run :: "('s, 't) mux_state \<Rightarrow> ('s, 't) mux_state \<Rightarrow> bool" where
  "same_run \<sigma> \<tau> \<longleftrightarrow> outputs \<tau> = outputs \<sigma> \<and> sink_log \<tau> = sink_log \<sigma> \<and> run_at \<tau> = run_at \<sigma> \<and>
     joined \<tau> = joined \<sigma> \<and> taken \<tau> = taken \<sigma> \<and> registrations \<tau> = registrations \<sigma> \<and>
     unregistrations \<tau> = unregistrations \<sigma>"

lemma same_run_step:
  "submit_step \<sigma> \<tau> \<Longrightarrow> same_run \<sigma> \<tau>" "subscribe_step \<sigma> \<tau> \<Longrightarrow> same_run \<sigma> \<tau>"
  "enter_step \<sigma> \<tau> \<Longrightarrow> same_run \<sigma> \<tau>" "close_step \<sigma> \<tau> \<Longrightarrow> same_run \<sigma> \<tau>"
  "sink_step \<sigma> \<tau> \<Longrightarrow> same_run \<sigma> \<tau>"
  by (erule step_elims; simp add: same_run_def)+

text \<open>
  An invariant of a sink that is used once, and that depends on the state of \<open>run\<close> only, has to
  be shown for the steps of \<open>run\<close> only.
\<close>

lemma used_once_invariant:
  assumes reach: "mux_reachable \<sigma>"
    and make: "\<And>n. I (Make n)"
    and run: "\<And>\<sigma> \<tau>. run_step \<sigma> \<tau> \<Longrightarrow> mux_reachable \<sigma> \<Longrightarrow> used_once s \<sigma> \<Longrightarrow> I \<sigma> \<Longrightarrow> I \<tau>"
    and frame: "\<And>\<sigma> \<tau>. same_run \<sigma> \<tau> \<Longrightarrow> I \<sigma> \<Longrightarrow> I \<tau>"
  shows "used_once s \<sigma> \<longrightarrow> I \<sigma>"
  using reach
proof (induction rule: mux_reachable_induct)
  case make
  show ?case by (simp add: assms(2))
next
  case (submit \<sigma> \<tau>)
  then show ?case by (meson frame same_run_step(1) used_once_back step_internal internal_submit)
next
  case (subscribe \<sigma> \<tau>)
  then show ?case by (meson frame same_run_step(2) used_once_back step_internal internal_subscribe)
next
  case (run \<sigma> \<tau>)
  then show ?case by (meson assms(3) used_once_back step_internal internal_run)
next
  case (enter \<sigma> \<tau>)
  then show ?case by (meson frame same_run_step(3) used_once_back step_enter)
next
  case (close \<sigma> \<tau>)
  then show ?case by (meson frame same_run_step(4) used_once_back step_close)
next
  case (sinks \<sigma> \<tau>)
  then show ?case by (meson frame same_run_step(5) used_once_back step_sinks)
qed

lemma reachable_protocol_ok: "mux_reachable \<sigma> \<Longrightarrow> used_once s \<sigma> \<longrightarrow> protocol_ok s \<sigma>"
  by (rule used_once_invariant [OF _ _ protocol_ok_run])
    (auto simp: protocol_ok_def Make_def same_run_def)

section \<open>The deliveries to one sink\<close>

text \<open>The value \<open>run\<close> is fanning out and has not yet submitted to \<open>s\<close>.\<close>

fun owed :: "'s \<Rightarrow> ('s, 't) run_pc \<Rightarrow> 't list" where
  "owed s (RunFanOut v ks) = (if s \<in> set ks then [v] else [])"
| "owed s (RunDeliverTo v ks vs) = (if s \<in> set ks then [v] else [])"
| "owed s _ = []"

lemma owed_not_visiting: "s \<notin> set (visiting p) \<Longrightarrow> owed s p = []"
  by (cases p) auto

text \<open>
  While it is not unregistered a sink has seen every value delivered since it joined, but for the
  one it is owed; an unregistered sink has seen an initial part of them.
\<close>

definition delivery_ok :: "'s \<Rightarrow> ('s, 't) mux_state \<Rightarrow> bool" where
  "delivery_ok s \<sigma> \<longleftrightarrow> (registrations \<sigma> s = 1 \<longrightarrow> joined \<sigma> s \<le> length (taken \<sigma>) \<and>
     (unregistrations \<sigma> s = 0 \<longrightarrow>
        sink_got s (sink_log \<sigma>) @ owed s (run_at \<sigma>) = drop (joined \<sigma> s) (taken \<sigma>)) \<and>
     (unregistrations \<sigma> s = 1 \<longrightarrow>
        prefix (sink_got s (sink_log \<sigma>)) (drop (joined \<sigma> s) (taken \<sigma>))))"

lemma prefix_drop_snoc: "prefix xs (drop n ys) \<Longrightarrow> n \<le> length ys \<Longrightarrow> prefix xs (drop n (ys @ [v]))"
  by (simp add: prefix_append)

lemma delivery_ok_run:
  assumes "run_step \<sigma> \<tau>" and "mux_reachable \<sigma>" and "used_once s \<sigma>" and "delivery_ok s \<sigma>"
  shows "delivery_ok s \<tau>"
proof -
  have proto: "protocol_ok s \<sigma>" and once: "served_once s \<sigma>"
    using reachable_protocol_ok [OF assms(2)] reachable_served_once [OF assms(2)] assms(3) by blast+
  have vis: "set (visiting (run_at \<sigma>)) \<subseteq> dom (outputs \<sigma>)" "distinct (visiting (run_at \<sigma>))"
    using reachable_visits_ok [OF assms(2)] by (auto simp: visits_ok_def)
  have regs: "registrations \<sigma> s = 0 \<or> registrations \<sigma> s = 1"
    using once by (auto simp: served_once_def)
  have live: "s \<in> set ks" if "range_order (outputs \<sigma>) ks" "registrations \<sigma> s = 1"
    "unregistrations \<sigma> s = 0" "\<not> closing (run_at \<sigma>)" for ks
    using that proto by (auto simp: protocol_ok_def range_order_def)
  have gone: "s \<notin> set (visiting (run_at \<sigma>))" if "unregistrations \<sigma> s = 1"
    using that proto vis(1) by (auto simp: protocol_ok_def)
  have new: "registrations \<sigma> s = 0 \<and> unregistrations \<sigma> s = 0" if "calls \<sigma> c = SubscribeSelect s" for c
    using that once reachable_unregistrations [OF assms(2), of s] by (auto simp: served_once_def)
  from assms(1) show ?thesis
  proof cases
    case (run_fan_out v k ks err)
    with assms(4) vis gone show ?thesis by (cases "k = s") (auto simp: delivery_ok_def)
  next
    case (run_deliver_to v k ks vs err)
    with assms(4) vis gone show ?thesis by (cases "k = s") (auto simp: delivery_ok_def)
  next
    case (run_register c k)
    with assms(4) new proto show ?thesis
      by (cases "k = s") (simp_all add: delivery_ok_def protocol_ok_def)
  next
    case (run_unregister c k)
    with assms(4) once show ?thesis
      by (cases "k = s") (auto simp: delivery_ok_def served_once_def)
  next
    case (run_receive v vs ks)
    with assms(4) live show ?thesis by (auto simp: delivery_ok_def prefix_drop_snoc)
  next
    case (run_receive_direct c v ks)
    with assms(4) live show ?thesis by (auto simp: delivery_ok_def prefix_drop_snoc)
  next
    case (run_deliver v vs ks)
    with assms(4) live show ?thesis by (auto simp: delivery_ok_def prefix_drop_snoc)
  qed (use assms(4) in \<open>simp_all add: delivery_ok_def\<close>)
qed

lemma reachable_delivery_ok: "mux_reachable \<sigma> \<Longrightarrow> used_once s \<sigma> \<longrightarrow> delivery_ok s \<sigma>"
  by (rule used_once_invariant [OF _ _ delivery_ok_run])
    (auto simp: delivery_ok_def Make_def same_run_def)

end
