(* ===== verification/Mux_Properties.thy ===== *)
theory Mux_Properties
  imports Mux_Invariants
begin

text \<open>
  What the multiplexer promises, from the invariants of \<open>Mux_Invariants\<close>: the deliveries and the
  close of every sink, the meaning of a returned cancel function, the drain at shutdown, and the
  absence of deadlock; and two runs in which the promises of its documentation do not hold.
\<close>

section \<open>Steps keep history\<close>

lemma mux_step_log: "mux_step \<sigma> \<tau> \<Longrightarrow> prefix (sink_log \<sigma>) (sink_log \<tau>)"
  by (erule mux_step_elim; erule step_elims; simp)

lemma mux_step_accepted: "mux_step \<sigma> \<tau> \<Longrightarrow> prefix (accepted \<sigma>) (accepted \<tau>)"
  by (erule mux_step_elim; erule step_elims; simp)

lemma mux_step_registrations: "mux_step \<sigma> \<tau> \<Longrightarrow> registrations \<sigma> s \<le> registrations \<tau> s"
  by (erule mux_step_elim; erule step_elims; simp)

lemma mux_step_joined:
  "mux_step \<sigma> \<tau> \<Longrightarrow> registrations \<tau> s = registrations \<sigma> s \<Longrightarrow> joined \<tau> s = joined \<sigma> s"
  by (erule mux_step_elim; erule step_elims; simp split: if_splits)

lemma mux_step_done: "mux_step \<sigma> \<tau> \<Longrightarrow> done_closed \<sigma> \<Longrightarrow> done_closed \<tau>"
  by (erule mux_step_elim; erule step_elims; simp)

lemma mux_steps_log: "mux_steps \<sigma> \<tau> \<Longrightarrow> prefix (sink_log \<sigma>) (sink_log \<tau>)"
  by (induction rule: mux_steps.induct) (auto dest: mux_step_log intro: prefix_order.trans)

lemma mux_steps_accepted: "mux_steps \<sigma> \<tau> \<Longrightarrow> prefix (accepted \<sigma>) (accepted \<tau>)"
  by (induction rule: mux_steps.induct) (auto dest: mux_step_accepted intro: prefix_order.trans)

lemma mux_steps_registrations: "mux_steps \<sigma> \<tau> \<Longrightarrow> registrations \<sigma> s \<le> registrations \<tau> s"
  by (induction rule: mux_steps.induct)
    (auto dest: mux_step_registrations [where s = s] intro: order.trans)

lemma mux_steps_unregistrations: "mux_steps \<sigma> \<tau> \<Longrightarrow> unregistrations \<sigma> s \<le> unregistrations \<tau> s"
  by (induction rule: mux_steps.induct)
    (auto dest: mux_step_counts(3) [where s = s] intro: order.trans)

lemma mux_steps_joined:
  "mux_steps \<sigma> \<tau> \<Longrightarrow> registrations \<tau> s = registrations \<sigma> s \<Longrightarrow> joined \<tau> s = joined \<sigma> s"
proof (induction rule: mux_steps.induct)
  case (steps_step \<sigma> \<tau> \<upsilon>)
  from mux_steps_registrations [OF steps_step(1), of s] mux_step_registrations [OF steps_step(2), of s]
    steps_step(4) have "registrations \<tau> s = registrations \<sigma> s" by simp
  with steps_step mux_step_joined [OF steps_step(2), of s] show ?case by simp
qed simp

lemma mux_steps_done: "mux_steps \<sigma> \<tau> \<Longrightarrow> done_closed \<sigma> \<Longrightarrow> done_closed \<tau>"
  by (induction rule: mux_steps.induct) (auto dest: mux_step_done)

section \<open>The three stages of a sink\<close>

lemma sink_stages [consumes 2, case_names fresh live gone]:
  assumes "mux_reachable \<sigma>" and "used_once s \<sigma>"
  obtains
    (fresh) "registrations \<sigma> s = 0" and "outputs \<sigma> s = None" and "sink_got s (sink_log \<sigma>) = []"
      and "sink_closes s (sink_log \<sigma>) = 0"
  | (live) "registrations \<sigma> s = 1" and "unregistrations \<sigma> s = 0" and "outputs \<sigma> s \<noteq> None"
      and "sink_closes s (sink_log \<sigma>) = 0"
  | (gone) "registrations \<sigma> s = 1" and "outputs \<sigma> s = None" and "sink_closes s (sink_log \<sigma>) = 1"
proof -
  note proto = reachable_protocol_ok [OF assms(1), rule_format, OF assms(2)]
  note served = reachable_served_once [OF assms(1), rule_format, OF assms(2)]
  from served have "registrations \<sigma> s \<le> 1" "unregistrations \<sigma> s \<le> 1"
    by (simp_all add: served_once_def)
  then consider "registrations \<sigma> s = 0" | "registrations \<sigma> s = 1" by linarith
  then show thesis
  proof cases
    case 1
    with proto show thesis unfolding protocol_ok_def by (intro fresh) blast+
  next
    case 2
    note one = this
    show thesis
    proof (cases "outputs \<sigma> s")
      case None
      with proto one show thesis unfolding protocol_ok_def by (intro gone) simp_all
    next
      case (Some b)
      with proto have "unregistrations \<sigma> s \<noteq> 1" unfolding protocol_ok_def by force
      with \<open>unregistrations \<sigma> s \<le> 1\<close> have "unregistrations \<sigma> s = 0" by linarith
      with proto one Some show thesis unfolding protocol_ok_def by (intro live) simp_all
    qed
  qed
qed

lemma sink_closed_once:
  assumes "mux_reachable \<sigma>" and "used_once s \<sigma>"
  shows "sink_closes s (sink_log \<sigma>) \<le> 1"
  using assms by (cases rule: sink_stages) simp_all

lemma sink_never_late:
  assumes "mux_reachable \<sigma>" and "used_once s \<sigma>"
  shows "no_submit_after_close s (sink_log \<sigma>)"
  using reachable_protocol_ok [OF assms(1)] assms(2) by (simp add: protocol_ok_def)

lemma sink_deliveries:
  assumes "mux_reachable \<sigma>" and "used_once s \<sigma>" and "registrations \<sigma> s = 1"
  shows "joined \<sigma> s \<le> length (taken \<sigma>)"
    and "unregistrations \<sigma> s = 0 \<Longrightarrow>
      sink_got s (sink_log \<sigma>) @ owed s (run_at \<sigma>) = drop (joined \<sigma> s) (taken \<sigma>)"
  using reachable_delivery_ok [OF assms(1), of s] assms(2,3) by (simp_all add: delivery_ok_def)

section \<open>Acknowledged cancels\<close>

fun cancelled_by :: "'s \<Rightarrow> ('s, 't) call_pc \<Rightarrow> bool" where
  "cancelled_by s (CancelWait k) = (k = s)"
| "cancelled_by s (CancelReturned k b) = (k = s \<and> b)"
| "cancelled_by s _ = False"

lemma reachable_cancelled_by:
  "mux_reachable \<sigma> \<Longrightarrow> \<forall>c. cancelled_by s (calls \<sigma> c) \<longrightarrow> 0 < unregistrations \<sigma> s"
  by (induction rule: mux_reachable_induct)
    (simp add: Make_def, (elim step_elims; simp; metis cancelled_by.simps)+)

lemma closed_sink_stays:
  assumes "mux_reachable \<tau>" and "mux_steps \<sigma> \<tau>" and "used_once s \<tau>"
    and "sink_closes s (sink_log \<sigma>) = 1"
  shows "sink_got s (sink_log \<tau>) = sink_got s (sink_log \<sigma>)"
proof -
  from mux_steps_log [OF assms(2)] obtain es where "sink_log \<tau> = sink_log \<sigma> @ es"
    by (auto simp: prefix_def)
  moreover have "no_submit_after_close s (sink_log \<tau>)"
    using reachable_protocol_ok [OF assms(1)] assms(3) by (simp add: protocol_ok_def)
  ultimately show ?thesis using assms(4) by simp
qed

lemma cancelled_closed:
  assumes "mux_reachable \<sigma>" and "used_once s \<sigma>" and "calls \<sigma> c = CancelReturned s True"
  shows "sink_closes s (sink_log \<sigma>) = 1 \<and> outputs \<sigma> s = None"
proof -
  have "0 < unregistrations \<sigma> s"
    using reachable_cancelled_by [OF assms(1), of s] assms(3) by (metis cancelled_by.simps(2))
  moreover have "served_once s \<sigma>" using reachable_served_once [OF assms(1)] assms(2) by blast
  moreover have "0 < registrations \<sigma> s"
    using reachable_unregistrations [OF assms(1), of s] calculation(1) by blast
  ultimately have "unregistrations \<sigma> s = 1" "registrations \<sigma> s = 1"
    by (auto simp: served_once_def)
  then show ?thesis
    using reachable_protocol_ok [OF assms(1)] assms(2) by (simp add: protocol_ok_def)
qed

section \<open>Submits after a close\<close>

text \<open>A call of \<open>Submit\<close> that has not passed the check of \<open>done\<close>, or has failed.\<close>

fun doomed :: "'t \<Rightarrow> ('s, 't) call_pc \<Rightarrow> bool" where
  "doomed v (SubmitEnter w) = (w = v)"
| "doomed v (SubmitCheck w) = (w = v)"
| "doomed v (SubmitReturned w r) = (w = v \<and> r = Some MuxClosed)"
| "doomed v _ = False"

lemma doomed_step:
  "mux_step \<sigma> \<tau> \<Longrightarrow> done_closed \<sigma> \<Longrightarrow> doomed v (calls \<sigma> c) \<Longrightarrow> doomed v (calls \<tau> c)"
  by (erule mux_step_elim; erule step_elims; auto)

lemma doomed_steps:
  "mux_steps \<sigma> \<tau> \<Longrightarrow> done_closed \<sigma> \<Longrightarrow> doomed v (calls \<sigma> c) \<Longrightarrow> doomed v (calls \<tau> c)"
  by (induction rule: mux_steps.induct) (auto intro: doomed_step dest: mux_steps_done)

section \<open>Progress\<close>

text \<open>A call that has begun and not returned.\<close>

fun pending_call :: "('s, 't) call_pc \<Rightarrow> bool" where
  "pending_call Idle = False"
| "pending_call (SubmitReturned v r) = False"
| "pending_call (SubscribeReturned s b) = False"
| "pending_call (CancelReturned s b) = False"
| "pending_call CloseReturned = False"
| "pending_call _ = True"

text \<open>A step that is not the expiry of a submit timeout.\<close>

definition untimed_step :: "('s, 't) mux_state \<Rightarrow> ('s, 't) mux_state \<Rightarrow> bool" where
  "untimed_step \<sigma> \<tau> \<longleftrightarrow> internal_step \<sigma> \<tau> \<and>
     (\<forall>c v. calls \<tau> c = SubmitReturned v (Some SubmitTimedOut) \<longrightarrow> calls \<sigma> c = calls \<tau> c)"

lemma untimed_run: "run_step \<sigma> \<tau> \<Longrightarrow> untimed_step \<sigma> \<tau>"
  by (auto simp: untimed_step_def intro: internal_run elim: run_step.cases split: if_splits)

lemma untimed_subscribe: "subscribe_step \<sigma> \<tau> \<Longrightarrow> untimed_step \<sigma> \<tau>"
  by (auto simp: untimed_step_def intro: internal_subscribe elim: subscribe_step.cases split: if_splits)

lemma untimed_submit:
  "submit_step \<sigma> (set_call c p \<tau>) \<Longrightarrow> calls \<tau> = calls \<sigma> \<Longrightarrow>
   (\<And>v. p \<noteq> SubmitReturned v (Some SubmitTimedOut)) \<Longrightarrow> untimed_step \<sigma> (set_call c p \<tau>)"
  by (auto simp: untimed_step_def intro: internal_submit split: if_splits)

lemma rlock_holder_progress:
  assumes "done_closed \<sigma>" and "holds_rlock (calls \<sigma> c)"
  shows "\<exists>\<tau>. untimed_step \<sigma> \<tau>"
proof (cases "calls \<sigma> c")
  case (SubmitCheck v)
  from untimed_submit [OF submit_fast_fail [OF SubmitCheck assms(1)]] show ?thesis by blast
next
  case (SubmitSelect v)
  from untimed_submit [OF submit_done [OF SubmitSelect assms(1)]] show ?thesis by blast
qed (use assms in auto)

lemma reachable_order: "mux_reachable \<sigma> \<Longrightarrow> \<exists>ks. range_order (outputs \<sigma>) ks"
  by (rule range_order_exists) (simp add: reachable_visits_ok [unfolded visits_ok_def])

text \<open>
  The sink whose \<open>Submit\<close> \<open>run\<close> is in. \<open>run\<close> cannot move only at its \<open>select\<close>, at the write lock, in the
  \<open>Submit\<close> of a stuck sink, or after its end.
\<close>

fun submitting_to :: "('s, 't) run_pc \<Rightarrow> 's set" where
  "submitting_to (RunFanOut v (k # ks)) = {k}"
| "submitting_to (RunDeliverTo v (k # ks) vs) = {k}"
| "submitting_to _ = {}"

lemma run_progress:
  assumes "mux_reachable \<sigma>" and "run_at \<sigma> \<noteq> RunSelect" and "run_at \<sigma> \<noteq> RunExited"
    and "submitting_to (run_at \<sigma>) \<inter> stuck \<sigma> = {}"
  shows "\<exists>\<tau>. untimed_step \<sigma> \<tau>"
proof (cases "run_at \<sigma>")
  case (RunFanOut v ks)
  with assms(4) show ?thesis
    by (cases ks) (auto intro: untimed_run run_fan_out run_fan_out_end)
next
  case (RunReply c)
  with reachable_replies_match [OF assms(1)] have "awaiting (calls \<sigma> c)"
    by (simp add: replies_match_def)
  with RunReply show ?thesis
    by (cases "calls \<sigma> c") (auto intro: untimed_run run_reply_subscribe run_reply_cancel)
next
  case RunLocking
  with reachable_lock_ok [OF assms(1)] have "done_closed \<sigma>" by (simp add: lock_ok_def)
  with RunLocking show ?thesis by (blast intro: untimed_run run_lock rlock_holder_progress)
next
  case (RunDraining acc)
  then have "calls \<sigma> c \<noteq> SubmitSelect v" for c v
    using past_lock_no_send [OF assms(1)] by simp
  with RunDraining show ?thesis
    by (cases "input \<sigma>") (blast intro: untimed_run run_drained run_drain)+
next
  case (RunDeliver vs)
  obtain ks where "range_order (outputs \<sigma>) ks"
    using reachable_order [OF assms(1)] by blast
  with RunDeliver show ?thesis
    by (cases vs) (blast intro: untimed_run run_deliver run_delivered)+
next
  case (RunDeliverTo v ks vs)
  with assms(4) show ?thesis
    by (cases ks) (auto intro: untimed_run run_deliver_to run_deliver_next)
next
  case (RunClosing ks)
  then show ?thesis by (cases ks) (blast intro: untimed_run run_close_sink run_exit)+
qed (use assms in auto)

lemma select_progress:
  assumes "mux_reachable \<sigma>" and "run_at \<sigma> = RunSelect" and "pending_call (calls \<sigma> c)"
  shows "\<exists>\<tau>. untimed_step \<sigma> \<tau>"
proof -
  obtain ks where ks: "range_order (outputs \<sigma>) ks"
    using reachable_order [OF assms(1)] by blast
  show ?thesis
  proof (cases "calls \<sigma> c")
    case (SubmitEnter v)
    from untimed_submit [OF submit_rlock [OF SubmitEnter]] assms(2) show ?thesis by auto
  next
    case (SubmitCheck v)
    from untimed_submit [OF submit_fast_fail [OF SubmitCheck]]
      untimed_submit [OF submit_select [OF SubmitCheck]] show ?thesis by blast
  next
    case (SubmitSelect v)
    with ks assms(2) show ?thesis
      by (cases "input \<sigma>") (blast intro: untimed_run run_receive run_receive_direct)+
  next
    case (SubscribeWait s)
    with reachable_replies_match [OF assms(1)] assms(2) show ?thesis
      by (auto dest: replies_matchD [of _ c])
  next
    case (CancelWait s)
    with reachable_replies_match [OF assms(1)] assms(2) show ?thesis
      by (auto dest: replies_matchD [of _ c])
  qed (use assms in \<open>auto intro: untimed_run run_register run_unregister\<close>)
qed

lemma exited_progress:
  assumes "mux_reachable \<sigma>" and "run_at \<sigma> = RunExited" and "pending_call (calls \<sigma> c)"
  shows "\<exists>\<tau>. untimed_step \<sigma> \<tau>"
proof -
  have fin: "done_closed \<sigma>" using reachable_lock_ok [OF assms(1)] assms(2) by (simp add: lock_ok_def)
  have aw: "\<not> awaiting (calls \<sigma> c)"
    using reachable_replies_match [OF assms(1)] assms(2) by (simp add: replies_match_def)
  show ?thesis
  proof (cases "calls \<sigma> c")
    case (SubmitEnter v)
    from untimed_submit [OF submit_rlock [OF SubmitEnter]] assms(2) show ?thesis by auto
  qed (use assms fin aw in \<open>auto intro: rlock_holder_progress [of _ c] untimed_subscribe
      subscribe_done cancel_done\<close>)
qed

text \<open>
  A stuck sink holds everything up: \<open>run\<close> does not move, and until \<open>Close\<close> no subscription, no cancel
  function and no \<open>Submit\<close> to an unbuffered multiplexer succeeds.
\<close>

lemma stuck_sink_blocks:
  assumes "submitting_to (run_at \<sigma>) \<inter> stuck \<sigma> \<noteq> {}"
  shows "\<not> run_step \<sigma> \<tau>"
    and "internal_step \<sigma> \<tau> \<Longrightarrow> run_at \<tau> = run_at \<sigma>"
    and "internal_step \<sigma> \<tau> \<Longrightarrow> \<not> done_closed \<sigma> \<Longrightarrow> calls \<sigma> c \<in> {SubscribeSelect s, CancelSelect s} \<Longrightarrow>
      calls \<tau> c = calls \<sigma> c"
    and "internal_step \<sigma> \<tau> \<Longrightarrow> inBufSize \<sigma> = 0 \<Longrightarrow> accepted \<tau> = accepted \<sigma>"
proof -
  from assms have at: "(\<exists>v k ks. run_at \<sigma> = RunFanOut v (k # ks) \<and> k \<in> stuck \<sigma>) \<or>
      (\<exists>v k ks vs. run_at \<sigma> = RunDeliverTo v (k # ks) vs \<and> k \<in> stuck \<sigma>)"
    by (cases "run_at \<sigma>" rule: submitting_to.cases) auto
  then show still: "\<not> run_step \<sigma> \<tau>" by (auto elim: run_step.cases)
  show "internal_step \<sigma> \<tau> \<Longrightarrow> run_at \<tau> = run_at \<sigma>"
    using still by (auto elim!: internal_step.cases submit_step.cases subscribe_step.cases)
  show "calls \<tau> c = calls \<sigma> c"
    if "internal_step \<sigma> \<tau>" "\<not> done_closed \<sigma>" "calls \<sigma> c \<in> {SubscribeSelect s, CancelSelect s}"
    using that still by (auto elim!: internal_step.cases submit_step.cases subscribe_step.cases)
  show "accepted \<tau> = accepted \<sigma>" if "internal_step \<sigma> \<tau>" "inBufSize \<sigma> = 0"
    using that still by (auto elim!: internal_step.cases submit_step.cases subscribe_step.cases)
qed

section \<open>Shutdown comes to an end\<close>

text \<open>
  \<open>run\<close> can be driven to its end from this state by steps of the program, with readers that let every
  \<open>Submit\<close> of a sink return.
\<close>

definition can_exit :: "('s, 't) mux_state \<Rightarrow> bool" where
  "can_exit \<sigma> \<longleftrightarrow> (\<exists>\<tau>. mux_steps \<sigma> \<tau> \<and> run_at \<tau> = RunExited)"

lemma can_exit_step: "mux_step \<sigma> \<tau> \<Longrightarrow> can_exit \<tau> \<Longrightarrow> can_exit \<sigma>"
  unfolding can_exit_def by (meson mux_steps_trans steps_refl steps_step)

lemma can_exit_run: "run_step \<sigma> \<tau> \<Longrightarrow> can_exit \<tau> \<Longrightarrow> can_exit \<sigma>"
  by (rule can_exit_step [OF step_internal [OF internal_run]])

lemma can_exit_submit: "submit_step \<sigma> \<tau> \<Longrightarrow> can_exit \<tau> \<Longrightarrow> can_exit \<sigma>"
  by (rule can_exit_step [OF step_internal [OF internal_submit]])

lemma can_exit_freed: "can_exit (\<sigma>\<lparr>stuck := {}\<rparr>) \<Longrightarrow> can_exit \<sigma>"
  by (rule can_exit_step [OF step_sinks [OF sinks_change]])

lemma closing_exits: "run_at \<sigma> = RunClosing ks \<Longrightarrow> can_exit \<sigma>"
proof (induction ks arbitrary: \<sigma>)
  case Nil
  from Nil show ?case
    by (rule can_exit_run [OF run_exit]) (auto simp: can_exit_def intro: steps_refl)
next
  case (Cons k ks)
  from Cons.prems show ?case by (rule can_exit_run [OF run_close_sink]) (simp add: Cons.IH)
qed

lemma delivering_to_exits:
  fixes \<sigma> :: "('s, 't) mux_state"
  assumes "run_at \<sigma> = RunDeliverTo v ks vs" and "finite (dom (outputs \<sigma>))"
    and "\<And>\<tau> :: ('s, 't) mux_state. run_at \<tau> = RunDeliver vs \<Longrightarrow> finite (dom (outputs \<tau>)) \<Longrightarrow> can_exit \<tau>"
  shows "can_exit \<sigma>"
  using assms(1,2)
proof (induction ks arbitrary: \<sigma>)
  case Nil
  from Nil(1) show ?case by (rule can_exit_run [OF run_deliver_next]) (rule assms(3); simp add: Nil(2))
next
  case (Cons k ks)
  let ?\<sigma> = "\<sigma>\<lparr>stuck := {}\<rparr>"
  have at: "run_at ?\<sigma> = RunDeliverTo v (k # ks) vs" "k \<notin> stuck ?\<sigma>" using Cons.prems(1) by simp_all
  have "can_exit (log_event (SinkSubmit k v False) (?\<sigma>\<lparr>run_at := RunDeliverTo v ks vs\<rparr>))"
    by (rule Cons.IH) (use Cons.prems(2) in simp_all)
  from can_exit_freed [OF can_exit_run [OF run_deliver_to [OF at] this]] show ?case .
qed

lemma delivering_exits: "run_at \<sigma> = RunDeliver vs \<Longrightarrow> finite (dom (outputs \<sigma>)) \<Longrightarrow> can_exit \<sigma>"
proof (induction vs arbitrary: \<sigma>)
  case Nil
  then obtain ks where "range_order (outputs \<sigma>) ks" using range_order_exists by blast
  with Nil(1) show ?case by (rule can_exit_run [OF run_delivered]) (simp add: closing_exits)
next
  case (Cons v vs)
  then obtain ks where "range_order (outputs \<sigma>) ks" using range_order_exists by blast
  with Cons.prems(1) show ?case
    by (rule can_exit_run [OF run_deliver])
      (rule delivering_to_exits, simp, simp add: Cons.prems(2), rule Cons.IH)
qed

lemma draining_exits:
  "run_at \<sigma> = RunDraining acc \<Longrightarrow> finite (dom (outputs \<sigma>)) \<Longrightarrow>
   (\<And>c v. calls \<sigma> c \<noteq> SubmitSelect v) \<Longrightarrow> input \<sigma> = vs \<Longrightarrow> can_exit \<sigma>"
proof (induction vs arbitrary: \<sigma> acc)
  case Nil
  from Nil(1,4,3) show ?case
    by (rule can_exit_run [OF run_drained]) (simp add: delivering_exits Nil)
next
  case (Cons v vs)
  from Cons.prems(1,4) show ?case by (rule can_exit_run [OF run_drain]) (simp add: Cons)
qed

text \<open>Every holder of the read lock can fail, because \<open>done\<close> is closed, and release it.\<close>

lemma rlock_holder_fails:
  assumes "holds_rlock (calls \<sigma> c)" and "done_closed \<sigma>"
  shows "\<exists>v. submit_step \<sigma> (set_call c (SubmitReturned v (Some MuxClosed)) \<sigma>)"
proof (cases "calls \<sigma> c")
  case (SubmitCheck v)
  from submit_fast_fail [OF this assms(2)] show ?thesis by blast
next
  case (SubmitSelect v)
  from submit_done [OF this assms(2)] show ?thesis by blast
qed (use assms in auto)

lemma locking_exits:
  assumes "finite H" and "H = {c. holds_rlock (calls \<sigma> c)}" and "run_at \<sigma> = RunLocking"
    and "done_closed \<sigma>" and "finite (dom (outputs \<sigma>))"
  shows "can_exit \<sigma>"
  using assms
proof (induction H arbitrary: \<sigma> rule: finite_induct)
  case empty
  then have free: "\<And>c. \<not> holds_rlock (calls \<sigma> c)" by blast
  then have "calls \<sigma> c \<noteq> SubmitSelect v" for c v by (metis holds_rlock.simps(2))
  with empty show ?case
    by (intro can_exit_run [OF run_lock [OF _ free]] draining_exits) simp_all
next
  case (insert c H)
  then have "holds_rlock (calls \<sigma> c)" by blast
  then obtain v where step: "submit_step \<sigma> (set_call c (SubmitReturned v (Some MuxClosed)) \<sigma>)"
    using rlock_holder_fails insert.prems(3) by blast
  have "H = {c'. holds_rlock (((calls \<sigma>)(c := SubmitReturned v (Some MuxClosed))) c')}"
    using insert.hyps insert.prems(1) by auto
  with insert show ?case by (intro can_exit_submit [OF step] insert.IH) simp_all
qed

lemma finite_calls_upd:
  "finite {c. f c \<noteq> Idle} \<Longrightarrow> finite {c'. (f(c := p)) c' \<noteq> Idle}"
  by (rule finite_subset [of _ "insert c {c. f c \<noteq> Idle}"]) auto

lemma reachable_finite_calls: "mux_reachable \<sigma> \<Longrightarrow> finite {c. calls \<sigma> c \<noteq> Idle}"
  by (induction rule: mux_reachable_induct)
    (simp add: Make_def, (elim step_elims; simp add: finite_calls_upd del: fun_upd_apply)+)

lemma reachable_finite_holders: "mux_reachable \<sigma> \<Longrightarrow> finite {c. holds_rlock (calls \<sigma> c)}"
  by (rule finite_subset [OF _ reachable_finite_calls]) auto

lemma fan_out_exits:
  fixes \<sigma> :: "('s, 't) mux_state"
  assumes "run_at \<sigma> = RunFanOut v ks"
    and "\<And>\<tau> :: ('s, 't) mux_state. run_at \<tau> = RunSelect \<Longrightarrow> mux_reachable \<tau> \<Longrightarrow> done_closed \<tau> \<Longrightarrow> can_exit \<tau>"
    and "mux_reachable \<sigma>" and "done_closed \<sigma>"
  shows "can_exit \<sigma>"
  using assms(1,3,4)
proof (induction ks arbitrary: \<sigma>)
  case Nil
  note step = run_fan_out_end [OF Nil(1)]
  from mux_reachable_step [OF Nil(2) step_internal [OF internal_run [OF step]]] Nil(3)
  show ?case by (intro can_exit_run [OF step] assms(2)) simp_all
next
  case (Cons k ks)
  let ?\<sigma> = "\<sigma>\<lparr>stuck := {}\<rparr>"
  have at: "run_at ?\<sigma> = RunFanOut v (k # ks)" "k \<notin> stuck ?\<sigma>" using Cons.prems(1) by simp_all
  have "mux_reachable ?\<sigma>" by (rule mux_reachable_step [OF Cons.prems(2) step_sinks [OF sinks_change]])
  note step = run_fan_out [OF at, where err = False]
  let ?\<tau> = "log_event (SinkSubmit k v False) (?\<sigma>\<lparr>run_at := RunFanOut v ks\<rparr>)"
  have "mux_reachable ?\<tau>"
    by (rule mux_reachable_step [OF \<open>mux_reachable ?\<sigma>\<close> step_internal [OF internal_run [OF step]]])
  then have "can_exit ?\<tau>" by (intro Cons.IH) (use Cons.prems(3) in simp_all)
  from can_exit_freed [OF can_exit_run [OF step this]] show ?case .
qed

lemma reply_leads_back:
  assumes "run_at \<sigma> = RunReply c" and "mux_reachable \<sigma>"
  shows "\<exists>\<tau>. run_step \<sigma> \<tau> \<and> run_at \<tau> = RunSelect \<and> done_closed \<tau> = done_closed \<sigma>"
proof -
  have "awaiting (calls \<sigma> c)"
    using reachable_replies_match [OF assms(2)] assms(1) by (simp add: replies_match_def)
  then show ?thesis
  proof (cases "calls \<sigma> c")
    case (SubscribeWait s)
    from run_reply_subscribe [OF assms(1) this] show ?thesis by fastforce
  next
    case (CancelWait s)
    from run_reply_cancel [OF assms(1) this] show ?thesis by fastforce
  qed simp_all
qed

lemma select_exits:
  assumes "run_at \<sigma> = RunSelect" and "mux_reachable \<sigma>" and "done_closed \<sigma>"
  shows "can_exit \<sigma>"
  by (rule can_exit_run [OF run_done [OF assms(1,3)]], rule locking_exits [OF _ refl])
    (use assms reachable_finite_holders [OF assms(2)] reachable_visits_ok [OF assms(2)]
      in \<open>simp_all add: visits_ok_def\<close>)

end
