(* ===== verification/Mux_Runs.thy ===== *)
theory Mux_Runs
  imports Mux_Properties
begin

text \<open>
  Concrete runs of the multiplexer, step by step, for the properties to be applied to: a
  subscription and a delivery, a shutdown with a value in the buffer, an acknowledged cancel, a
  cancel that races with \<open>Close\<close>, and a cancel function called twice. Sinks and values are
  numbers; sink 7 is subscribed by call 0, and every state after it names what has changed.
\<close>

lemmas go_run = steps_step [OF _ step_internal [OF internal_run]]
lemmas go_submit = steps_step [OF _ step_internal [OF internal_submit]]
lemmas go_subscribe = steps_step [OF _ step_internal [OF internal_subscribe]]
lemmas go_enter = steps_step [OF _ step_enter]
lemmas go_close = steps_step [OF _ step_close]

lemma order_single [simp]: "range_order [s \<mapsto> b] [s]"
  by (simp add: range_order_def)

section \<open>The states\<close>

definition demo_subscribed :: "(nat, nat) mux_state" where
  "demo_subscribed = \<lparr>input = [], inBufSize = 1, outputs = [7 \<mapsto> True], done_closed = False,
     run_at = RunSelect, calls = (\<lambda>_. Idle)(0 := SubscribeReturned 7 True), stuck = {}, sink_log = [],
     accepted = [], taken = [], joined = (\<lambda>_. 0)(7 := 0), subscribes = (\<lambda>_. 0)(7 := 1),
     cancels = (\<lambda>_. 0), registrations = (\<lambda>_. 0)(7 := 1), unregistrations = (\<lambda>_. 0)\<rparr>"

text \<open>Call 1 has submitted 42, which waits in the buffer.\<close>

definition demo_buffered :: "(nat, nat) mux_state" where
  "demo_buffered = demo_subscribed\<lparr>input := [42], accepted := [42],
     calls := (\<lambda>_. Idle)(0 := SubscribeReturned 7 True, 1 := SubmitReturned 42 None)\<rparr>"

text \<open>\<open>run\<close> has delivered it and is back at its \<open>select\<close>.\<close>

definition demo_delivered :: "(nat, nat) mux_state" where
  "demo_delivered = demo_buffered\<lparr>input := [], taken := [42], sink_log := [SinkSubmit 7 42 False]\<rparr>"

text \<open>Call 2 has closed the multiplexer with the value still in the buffer.\<close>

definition demo_closed :: "(nat, nat) mux_state" where
  "demo_closed = demo_buffered\<lparr>done_closed := True,
     calls := (\<lambda>_. Idle)(0 := SubscribeReturned 7 True, 1 := SubmitReturned 42 None, 2 := CloseReturned)\<rparr>"

definition demo_exited :: "(nat, nat) mux_state" where
  "demo_exited = demo_closed\<lparr>input := [], taken := [42], outputs := Map.empty,
     sink_log := [SinkSubmit 7 42 False, SinkClose 7], run_at := RunExited\<rparr>"

text \<open>Call 2 has cancelled the subscription; \<open>run\<close> acknowledged it.\<close>

definition demo_cancelled :: "(nat, nat) mux_state" where
  "demo_cancelled = demo_delivered\<lparr>outputs := Map.empty,
     sink_log := [SinkSubmit 7 42 False, SinkClose 7], cancels := (\<lambda>_. 0)(7 := 1),
     unregistrations := (\<lambda>_. 0)(7 := 1),
     calls := (\<lambda>_. Idle)(0 := SubscribeReturned 7 True, 1 := SubmitReturned 42 None,
       2 := CancelReturned 7 True)\<rparr>"

text \<open>Call 3 has submitted 43 after that, and \<open>run\<close> has delivered it to nobody.\<close>

definition demo_after_cancel :: "(nat, nat) mux_state" where
  "demo_after_cancel = demo_cancelled\<lparr>accepted := [42, 43], taken := [42, 43],
     calls := (\<lambda>_. Idle)(0 := SubscribeReturned 7 True, 1 := SubmitReturned 42 None,
       2 := CancelReturned 7 True, 3 := SubmitReturned 43 None)\<rparr>"

text \<open>After \<open>demo_closed\<close>, call 3 has cancelled the subscription and left through \<open>done\<close>.\<close>

definition demo_race :: "(nat, nat) mux_state" where
  "demo_race = demo_closed\<lparr>cancels := (\<lambda>_. 0)(7 := 1),
     calls := (\<lambda>_. Idle)(0 := SubscribeReturned 7 True, 1 := SubmitReturned 42 None,
       2 := CloseReturned, 3 := CancelReturned 7 False)\<rparr>"

definition demo_race_exited :: "(nat, nat) mux_state" where
  "demo_race_exited = demo_race\<lparr>input := [], taken := [42], outputs := Map.empty,
     sink_log := [SinkSubmit 7 42 False, SinkClose 7], run_at := RunExited\<rparr>"

text \<open>After \<open>demo_cancelled\<close>, call 3 has called the same cancel function again.\<close>

definition demo_cancelled_twice :: "(nat, nat) mux_state" where
  "demo_cancelled_twice = demo_cancelled\<lparr>
     sink_log := [SinkSubmit 7 42 False, SinkClose 7, SinkClose 7], cancels := (\<lambda>_. 0)(7 := 2),
     unregistrations := (\<lambda>_. 0)(7 := 2),
     calls := (\<lambda>_. Idle)(0 := SubscribeReturned 7 True, 1 := SubmitReturned 42 None,
       2 := CancelReturned 7 True, 3 := CancelReturned 7 True)\<rparr>"

text \<open>After \<open>demo_closed\<close>, call 3 has submitted 43 and failed.\<close>

definition demo_refused :: "(nat, nat) mux_state" where
  "demo_refused = demo_closed\<lparr>
     calls := (\<lambda>_. Idle)(0 := SubscribeReturned 7 True, 1 := SubmitReturned 42 None,
       2 := CloseReturned, 3 := SubmitReturned 43 (Some MuxClosed))\<rparr>"

definition demo_entered :: "(nat, nat) mux_state" where
  "demo_entered = demo_closed\<lparr>
     calls := (\<lambda>_. Idle)(0 := SubscribeReturned 7 True, 1 := SubmitReturned 42 None,
       2 := CloseReturned, 3 := SubmitEnter 43)\<rparr>"

lemmas demo_defs = demo_subscribed_def demo_buffered_def demo_delivered_def demo_closed_def
  demo_exited_def demo_cancelled_def demo_after_cancel_def demo_race_def demo_race_exited_def
  demo_cancelled_twice_def demo_refused_def demo_entered_def

section \<open>The runs\<close>

lemma run_subscribed: "mux_steps (Make 1) demo_subscribed"
proof -
  note a = go_enter [OF steps_refl enter_subscribe [where c = 0 and s = 7 and \<sigma> = "Make 1 :: (nat, nat) mux_state"],
      simplified Make_def, simplified]
  note a = go_run [OF a run_register [where c = 0 and s = 7], simplified]
  note a = go_run [OF a run_reply_subscribe [where c = 0 and s = 7], simplified]
  from a show ?thesis by (simp add: Make_def demo_defs)
qed

lemma run_buffered: "mux_steps demo_subscribed demo_buffered"
proof -
  note a = go_enter [OF steps_refl enter_submit [where c = 1 and v = 42 and \<sigma> = demo_subscribed],
      simplified demo_defs, simplified]
  note a = go_submit [OF a submit_rlock [where c = 1 and v = 42], simplified]
  note a = go_submit [OF a submit_select [where c = 1 and v = 42], simplified]
  note a = go_submit [OF a submit_buffer [where c = 1 and v = 42], simplified]
  from a show ?thesis by (simp add: demo_defs)
qed

lemma run_delivered_demo: "mux_steps demo_buffered demo_delivered"
proof -
  note a = go_run [OF steps_refl run_receive [where \<sigma> = demo_buffered and v = 42 and vs = "[]" and ks = "[7]"],
      simplified demo_defs, simplified]
  note a = go_run [OF a run_fan_out [where v = 42 and err = False], simplified]
  note a = go_run [OF a run_fan_out_end [where v = 42], simplified]
  from a show ?thesis by (simp add: demo_defs)
qed

lemma run_closed: "mux_steps demo_buffered demo_closed"
proof -
  note a = go_close [OF steps_refl mux_close [where c = 2 and \<sigma> = demo_buffered],
      simplified demo_defs, simplified]
  from a show ?thesis by (simp add: demo_defs)
qed

text \<open>
  The exit of \<open>run\<close> is the same for the two closed states: lock, drain, deliver, close.
\<close>

lemma run_exits:
  fixes \<sigma> :: "(nat, nat) mux_state"
  assumes "run_at \<sigma> = RunSelect" and "done_closed \<sigma>" and "input \<sigma> = [42]"
    and "outputs \<sigma> = [7 \<mapsto> True]" and "\<And>c. \<not> holds_rlock (calls \<sigma> c)"
    and "stuck \<sigma> = {}"
  shows "mux_steps \<sigma> (\<sigma>\<lparr>input := [], taken := taken \<sigma> @ [42], outputs := Map.empty,
    sink_log := sink_log \<sigma> @ [SinkSubmit 7 42 False, SinkClose 7], run_at := RunExited\<rparr>)"
proof -
  have nosend: "calls \<sigma> c \<noteq> SubmitSelect v" for c v
    using assms(5) by (metis holds_rlock.simps(2))
  note a = go_run [OF steps_refl run_done [OF assms(1,2)]]
  note a = go_run [OF a run_lock, simplified, OF assms(5)]
  note a = go_run [OF a run_drain [where v = 42 and vs = "[]" and acc = "[]"], simplified assms(3), simplified]
  note a = go_run [OF a run_drained [where acc = "[42]"], simplified nosend, simplified]
  note a = go_run [OF a run_deliver [where v = 42 and vs = "[]" and ks = "[7]"], simplified assms(4), simplified]
  note a = go_run [OF a run_deliver_to [where v = 42 and vs = "[]" and k = 7 and ks = "[]" and err = False], simplified]
  note a = go_run [OF a run_deliver_next [where v = 42 and vs = "[]"], simplified]
  note a = go_run [OF a run_delivered [where ks = "[7]"], simplified assms(4), simplified]
  note a = go_run [OF a run_close_sink [where k = 7 and ks = "[]"], simplified]
  note a = go_run [OF a run_exit, simplified]
  from a assms(3,4,6) nosend show ?thesis by simp
qed

lemma run_exited: "mux_steps demo_closed demo_exited"
proof -
  have "mux_steps demo_closed (demo_closed\<lparr>input := [], taken := taken demo_closed @ [42],
      outputs := Map.empty, sink_log := sink_log demo_closed @ [SinkSubmit 7 42 False, SinkClose 7],
      run_at := RunExited\<rparr>)"
    by (rule run_exits) (simp_all add: demo_defs)
  then show ?thesis by (simp add: demo_defs)
qed

lemma run_race: "mux_steps demo_closed demo_race"
proof -
  note a = go_enter [OF steps_refl enter_cancel [where c = 3 and c' = 0 and s = 7 and \<sigma> = demo_closed],
      simplified demo_defs, simplified]
  note a = go_subscribe [OF a cancel_done [where c = 3 and s = 7], simplified]
  from a show ?thesis by (simp add: demo_defs)
qed

lemma run_race_exited: "mux_steps demo_race demo_race_exited"
proof -
  have "mux_steps demo_race (demo_race\<lparr>input := [], taken := taken demo_race @ [42],
      outputs := Map.empty, sink_log := sink_log demo_race @ [SinkSubmit 7 42 False, SinkClose 7],
      run_at := RunExited\<rparr>)"
    by (rule run_exits) (simp_all add: demo_defs)
  then show ?thesis by (simp add: demo_defs)
qed

lemma run_cancelled: "mux_steps demo_delivered demo_cancelled"
proof -
  note a = go_enter [OF steps_refl enter_cancel [where c = 2 and c' = 0 and s = 7 and \<sigma> = demo_delivered],
      simplified demo_defs, simplified]
  note a = go_run [OF a run_unregister [where c = 2 and s = 7], simplified]
  note a = go_run [OF a run_reply_cancel [where c = 2 and s = 7], simplified]
  from a show ?thesis by (simp add: demo_defs)
qed

lemma run_after_cancel: "mux_steps demo_cancelled demo_after_cancel"
proof -
  note a = go_enter [OF steps_refl enter_submit [where c = 3 and v = 43 and \<sigma> = demo_cancelled],
      simplified demo_defs, simplified]
  note a = go_submit [OF a submit_rlock [where c = 3 and v = 43], simplified]
  note a = go_submit [OF a submit_select [where c = 3 and v = 43], simplified]
  note a = go_run [OF a run_receive_direct [where c = 3 and v = 43 and ks = "[]"], simplified range_simps, simplified]
  note a = go_run [OF a run_fan_out_end [where v = 43], simplified]
  from a show ?thesis by (simp add: demo_defs)
qed

lemma run_cancelled_twice: "mux_steps demo_cancelled demo_cancelled_twice"
proof -
  note a = go_enter [OF steps_refl enter_cancel [where c = 3 and c' = 0 and s = 7 and \<sigma> = demo_cancelled],
      simplified demo_defs, simplified]
  note a = go_run [OF a run_unregister [where c = 3 and s = 7], simplified]
  note a = go_run [OF a run_reply_cancel [where c = 3 and s = 7], simplified]
  from a show ?thesis by (simp add: demo_defs numeral_2_eq_2)
qed

lemma run_entered: "mux_steps demo_closed demo_entered"
proof -
  note a = go_enter [OF steps_refl enter_submit [where c = 3 and v = 43 and \<sigma> = demo_closed],
      simplified demo_defs, simplified]
  from a show ?thesis by (simp add: demo_defs)
qed

lemma run_refused: "mux_steps demo_entered demo_refused"
proof -
  note a = go_submit [OF steps_refl submit_rlock [where c = 3 and v = 43 and \<sigma> = demo_entered],
      simplified demo_defs, simplified]
  note a = go_submit [OF a submit_fast_fail [where c = 3 and v = 43], simplified]
  from a show ?thesis by (simp add: demo_defs)
qed

lemma run_subscribed_exited: "mux_steps demo_subscribed demo_exited"
  by (rule mux_steps_trans [OF run_exited mux_steps_trans [OF run_closed run_buffered]])

lemma reach_subscribed: "mux_reachable demo_subscribed"
  using run_subscribed by (auto simp: mux_reachable_def)

lemmas reach_buffered = mux_reachable_steps [OF reach_subscribed run_buffered]
lemmas reach_delivered = mux_reachable_steps [OF reach_buffered run_delivered_demo]
lemmas reach_closed = mux_reachable_steps [OF reach_buffered run_closed]
lemmas reach_exited = mux_reachable_steps [OF reach_closed run_exited]
lemmas reach_cancelled = mux_reachable_steps [OF reach_delivered run_cancelled]
lemmas reach_race = mux_reachable_steps [OF reach_closed run_race]
lemmas reach_cancelled_twice = mux_reachable_steps [OF reach_cancelled run_cancelled_twice]

end
