(* ===== verification/Mux_Spec.thy ===== *)
theory Mux_Spec
  imports Mux_Runs
begin

text \<open>
  The contract of \<open>Mux\<close>: the properties of every run of the transition system of \<open>Mux_Core\<close>, each
  applied to a run of \<open>Mux_Runs\<close>.
\<close>

section \<open>Deliveries\<close>

text \<open>
  C1: Exactly once and in order. Between two deliveries, a registered sink has received exactly the
  values that the multiplexer has taken since the sink joined, each once and in the order of their
  acceptance; what was accepted and not yet taken is in the input buffer.
\<close>
theorem mux_fifo_exactly_once:
  assumes "mux_reachable \<sigma>" and "used_once s \<sigma>" and "run_at \<sigma> = RunSelect"
    and "outputs \<sigma> s \<noteq> None"
  shows "sink_got s (sink_log \<sigma>) = drop (joined \<sigma> s) (taken \<sigma>)
    \<and> accepted \<sigma> = taken \<sigma> @ input \<sigma>"
proof -
  from assms(1,2) have "registrations \<sigma> s = 1" "unregistrations \<sigma> s = 0"
    by (cases rule: sink_stages; use assms(4) in simp)+
  with sink_deliveries [OF assms(1,2)] reachable_values_ok [OF assms(1)] assms(3) show ?thesis
    by (simp add: values_ok_def)
qed

lemma mux_fifo_exactly_once_witness:
  "sink_got 7 (sink_log demo_delivered) = drop (joined demo_delivered 7) (taken demo_delivered)
    \<and> accepted demo_delivered = taken demo_delivered @ input demo_delivered
    \<and> taken demo_delivered = [42]"
  using mux_fifo_exactly_once [OF reach_delivered, of 7] by (simp add: demo_defs used_once_def)

text \<open>
  C9: A synchronous subscribe. Once \<open>Subscribe\<close> has returned with a live cancel function, every value
  accepted afterwards reaches the sink: when the multiplexer has shut down and the sink was not
  cancelled, what the sink received ends with all of them, in order.
\<close>
theorem mux_subscribe_then_delivered:
  assumes "mux_reachable \<sigma>" and "calls \<sigma> c = SubscribeReturned s True" and "mux_steps \<sigma> \<tau>"
    and "used_once s \<tau>" and "run_at \<tau> = RunExited" and "unregistrations \<tau> s = 0"
  shows "\<exists>ys. sink_got s (sink_log \<tau>) = ys @ drop (length (accepted \<sigma>)) (accepted \<tau>)"
proof -
  have reach: "mux_reachable \<tau>" by (rule mux_reachable_steps [OF assms(1,3)])
  have once: "used_once s \<sigma>" by (rule used_once_steps [OF assms(3,4)])
  have "0 < registrations \<sigma> s"
    using reachable_registered_by [OF assms(1), of s] assms(2) by (metis registered_by.simps(2))
  with assms(1) once have regs\<sigma>: "registrations \<sigma> s = 1" by (cases rule: sink_stages) simp_all
  with reach assms(4) mux_steps_registrations [OF assms(3), of s]
  have regs\<tau>: "registrations \<tau> s = 1" by (cases rule: sink_stages) simp_all
  have le: "joined \<sigma> s \<le> length (accepted \<sigma>)"
    using sink_deliveries(1) [OF assms(1) once regs\<sigma>] reachable_values_ok [OF assms(1)]
    by (simp add: values_ok_def)
  have "joined \<tau> s = joined \<sigma> s" using mux_steps_joined [OF assms(3)] regs\<sigma> regs\<tau> by simp
  then have got: "sink_got s (sink_log \<tau>) = drop (joined \<sigma> s) (accepted \<tau>)"
    using sink_deliveries(2) [OF reach assms(4) regs\<tau> assms(6)] reachable_values_ok [OF reach] assms(5)
    by (simp add: values_ok_def)
  obtain zs where "accepted \<tau> = accepted \<sigma> @ zs"
    using mux_steps_accepted [OF assms(3)] by (auto simp: prefix_def)
  with got le show ?thesis by simp
qed

lemma mux_subscribe_then_delivered_witness:
  "\<exists>ys. sink_got 7 (sink_log demo_exited)
     = ys @ drop (length (accepted demo_subscribed)) (accepted demo_exited)"
  by (rule mux_subscribe_then_delivered [OF reach_subscribed _ run_subscribed_exited, of 0])
    (simp_all add: demo_defs used_once_def)

section \<open>The life of a sink\<close>

text \<open>
  C29: The contract of \<open>Sink\<close> is kept. A sink that is subscribed once and cancelled at most once is
  closed at most once, and its \<open>Submit\<close> is never called after its \<open>Close\<close>, whatever the
  interleaving of submits, subscriptions, cancels and \<open>Close\<close>.
\<close>
theorem mux_sink_protocol:
  assumes "mux_reachable \<sigma>" and "used_once s \<sigma>"
  shows "sink_closes s (sink_log \<sigma>) \<le> 1 \<and> no_submit_after_close s (sink_log \<sigma>)"
  using sink_closed_once [OF assms] sink_never_late [OF assms] by simp

lemma mux_sink_protocol_witness:
  "sink_closes 7 (sink_log demo_cancelled) \<le> 1 \<and> no_submit_after_close 7 (sink_log demo_cancelled)
    \<and> sink_got 7 (sink_log demo_cancelled) = [42]"
  using mux_sink_protocol [OF reach_cancelled, of 7] by (simp add: demo_defs used_once_def)

text \<open>
  C2: A synchronous cancel, for a sink that is subscribed at most once and whose cancel function is
  called at most once, until the end of the continuation considered. Once \<open>run\<close> has acknowledged the
  cancel function, the sink is out of \<open>outputs\<close>, has been closed exactly once, and receives no further
  value. Without the condition this fails: a second call of the cancel function closes the sink
  again, and a second subscription delivers to it again.
\<close>
theorem mux_cancel_is_final:
  assumes "mux_reachable \<sigma>" and "calls \<sigma> c = CancelReturned s True" and "mux_steps \<sigma> \<tau>"
    and "used_once s \<tau>"
  shows "outputs \<sigma> s = None \<and> sink_closes s (sink_log \<tau>) = 1
    \<and> sink_got s (sink_log \<tau>) = sink_got s (sink_log \<sigma>)"
proof -
  have reach: "mux_reachable \<tau>" by (rule mux_reachable_steps [OF assms(1,3)])
  have closed: "sink_closes s (sink_log \<sigma>) = 1" and out: "outputs \<sigma> s = None"
    using cancelled_closed [OF assms(1) used_once_steps [OF assms(3,4)] assms(2)] by auto
  obtain es where "sink_log \<tau> = sink_log \<sigma> @ es"
    using mux_steps_log [OF assms(3)] by (auto simp: prefix_def)
  moreover have "sink_closes s (sink_log \<tau>) \<le> 1" by (rule sink_closed_once [OF reach assms(4)])
  ultimately show ?thesis
    using closed out closed_sink_stays [OF reach assms(3,4) closed] by simp
qed

lemma mux_cancel_is_final_witness:
  "outputs demo_cancelled 7 = None \<and> sink_closes 7 (sink_log demo_after_cancel) = 1
    \<and> sink_got 7 (sink_log demo_after_cancel) = sink_got 7 (sink_log demo_cancelled)
    \<and> taken demo_after_cancel = [42, 43]"
  using mux_cancel_is_final [OF reach_cancelled _ run_after_cancel, of 2 7]
  by (simp add: demo_defs used_once_def)

section \<open>Shutdown\<close>

text \<open>
  C28: Nothing accepted is lost at shutdown. When \<open>run\<close> has ended, no sink is registered, every value
  whose \<open>Submit\<close> succeeded has been delivered, and a sink that was registered and not cancelled has
  received all values accepted since it joined and been closed exactly once.
\<close>
theorem mux_shutdown_complete:
  assumes "mux_reachable \<sigma>" and "run_at \<sigma> = RunExited"
  shows "outputs \<sigma> = Map.empty \<and> taken \<sigma> = accepted \<sigma>
    \<and> (\<forall>s. used_once s \<sigma> \<longrightarrow> registrations \<sigma> s = 1 \<longrightarrow>
          sink_closes s (sink_log \<sigma>) = 1
          \<and> (unregistrations \<sigma> s = 0 \<longrightarrow>
               sink_got s (sink_log \<sigma>) = drop (joined \<sigma> s) (accepted \<sigma>)))"
proof -
  have out: "outputs \<sigma> = Map.empty"
    using reachable_visits_ok [OF assms(1)] assms(2)
    by (simp add: visits_ok_def dom_eq_empty_conv [symmetric] del: dom_eq_empty_conv)
  have taken: "taken \<sigma> = accepted \<sigma>"
    using reachable_values_ok [OF assms(1)] assms(2) by (simp add: values_ok_def)
  have "sink_closes s (sink_log \<sigma>) = 1
      \<and> (unregistrations \<sigma> s = 0 \<longrightarrow> sink_got s (sink_log \<sigma>) = drop (joined \<sigma> s) (accepted \<sigma>))"
    if "used_once s \<sigma>" "registrations \<sigma> s = 1" for s
    using assms(1) that(1)
  proof (cases rule: sink_stages)
    case gone
    with sink_deliveries(2) [OF assms(1) that] taken assms(2) show ?thesis by simp
  qed (use that out in simp_all)
  with out taken show ?thesis by blast
qed

lemma mux_shutdown_complete_witness:
  "outputs demo_exited = Map.empty \<and> taken demo_exited = accepted demo_exited
    \<and> sink_closes 7 (sink_log demo_exited) = 1 \<and> sink_got 7 (sink_log demo_exited) = [42]"
  using mux_shutdown_complete [OF reach_exited]
  by (auto simp: demo_defs used_once_def)

text \<open>
  C26: \<open>Close\<close> leads to the end. From every reachable state in which \<open>done\<close> is closed, the goroutine
  \<open>run\<close> can be driven to its exit, provided that a sink that is stuck is read again: whatever calls are
  in flight, none of them can keep the write lock or the drain from completing.
\<close>
theorem mux_close_terminates:
  assumes "mux_reachable \<sigma>" and "done_closed \<sigma>"
  shows "\<exists>\<tau>. mux_steps \<sigma> \<tau> \<and> run_at \<tau> = RunExited"
proof -
  have fin: "finite (dom (outputs \<sigma>))" "finite {c. holds_rlock (calls \<sigma> c)}"
    using reachable_visits_ok [OF assms(1)] reachable_finite_holders [OF assms(1)]
    by (simp_all add: visits_ok_def)
  have "can_exit \<sigma>"
  proof (cases "run_at \<sigma>")
    case RunSelect
    then show ?thesis using assms by (rule select_exits)
  next
    case (RunFanOut v ks)
    then show ?thesis using select_exits assms by (rule fan_out_exits)
  next
    case (RunReply c)
    from reply_leads_back [OF this assms(1)] obtain \<tau> where step: "run_step \<sigma> \<tau>"
      and "run_at \<tau> = RunSelect" and "done_closed \<tau> = done_closed \<sigma>" by blast
    with mux_reachable_step [OF assms(1) step_internal [OF internal_run [OF step]]] assms(2)
    show ?thesis by (intro can_exit_run [OF step] select_exits) simp_all
  next
    case RunLocking
    with locking_exits [OF fin(2) refl] assms(2) fin(1) show ?thesis by simp
  next
    case (RunDraining acc)
    then have "calls \<sigma> c \<noteq> SubmitSelect v" for c v using past_lock_no_send [OF assms(1)] by simp
    with RunDraining fin(1) show ?thesis by (rule draining_exits [OF _ _ _ refl])
  next
    case (RunDeliverTo v ks vs)
    then show ?thesis using fin(1) delivering_exits by (rule delivering_to_exits)
  next
    case (RunDeliver vs)
    then show ?thesis using fin(1) by (rule delivering_exits)
  next
    case (RunClosing ks)
    then show ?thesis by (rule closing_exits)
  next
    case RunExited
    then show ?thesis unfolding can_exit_def by (blast intro: steps_refl)
  qed
  then show ?thesis by (simp add: can_exit_def)
qed

lemma mux_close_terminates_witness: "\<exists>\<tau>. mux_steps demo_race \<tau> \<and> run_at \<tau> = RunExited"
  by (rule mux_close_terminates [OF reach_race]) (simp add: demo_defs)

text \<open>
  C27: No deadlock inside the multiplexer. In every reachable state in which some call has not
  returned, or \<open>run\<close> is neither at its \<open>select\<close> nor at its end, a step of the program is possible
  that is not the expiry of a submit timeout, provided that \<open>run\<close> is not inside the \<open>Submit\<close> of a sink
  that is stuck: a sink made from a channel blocks while the channel is full, and holds up \<open>run\<close> and
  with it every subscription, cancel function and unbuffered \<open>Submit\<close>. Apart from that the locks, the
  channels and the replies of the multiplexer never wait for each other.
\<close>
theorem mux_no_deadlock:
  assumes "mux_reachable \<sigma>"
    and "pending_call (calls \<sigma> c) \<or> (run_at \<sigma> \<noteq> RunSelect \<and> run_at \<sigma> \<noteq> RunExited)"
    and "submitting_to (run_at \<sigma>) \<inter> stuck \<sigma> = {}"
  shows "\<exists>\<tau>. untimed_step \<sigma> \<tau>"
proof (cases "run_at \<sigma> = RunSelect \<or> run_at \<sigma> = RunExited")
  case True
  with assms(2) have "pending_call (calls \<sigma> c)" by blast
  with True assms(1) show ?thesis using select_progress exited_progress by blast
next
  case False
  with run_progress [OF assms(1) _ _ assms(3)] show ?thesis by blast
qed

lemma mux_no_deadlock_witness: "\<exists>\<tau>. untimed_step demo_entered \<tau>"
  using mux_no_deadlock [OF mux_reachable_steps [OF reach_closed run_entered], of 3]
  by (simp add: demo_defs)

text \<open>
  A submit to a closed multiplexer fails at once. A call of \<open>Submit\<close> that has not passed its
  check of \<open>done\<close> when \<open>Close\<close> is called can only return the error that the multiplexer is closed,
  never a timeout and never success.
\<close>
theorem mux_submit_after_close:
  assumes "done_closed \<sigma>" and "calls \<sigma> c = SubmitEnter v \<or> calls \<sigma> c = SubmitCheck v"
    and "mux_steps \<sigma> \<tau>" and "calls \<tau> c = SubmitReturned w r"
  shows "w = v \<and> r = Some MuxClosed"
proof -
  have "doomed v (calls \<sigma> c)" using assms(2) by auto
  from doomed_steps [OF assms(3,1) this] assms(4) show ?thesis by simp
qed

lemma mux_submit_after_close_witness:
  "calls demo_refused 3 = SubmitReturned 43 (Some MuxClosed) \<and> (43::nat) = 43 \<and> Some MuxClosed = Some MuxClosed"
  using mux_submit_after_close [OF _ _ run_refused, of 3 43 43 "Some MuxClosed"]
  by (simp add: demo_defs)

section \<open>Where the documentation promises more\<close>

text \<open>
  The race of a cancel with \<open>Close\<close>. The cancel function may return through \<open>done\<close> while \<open>run\<close>
  still has values to deliver: the sink, used once, receives a value and its close after its cancel
  function has returned.
\<close>
theorem mux_cancel_races_with_close:
  "\<exists>\<sigma> \<tau> :: (nat, nat) mux_state. \<exists>c s. mux_reachable \<sigma> \<and> calls \<sigma> c = CancelReturned s False \<and>
     mux_steps \<sigma> \<tau> \<and> used_once s \<tau> \<and>
     sink_got s (sink_log \<sigma>) = [] \<and> sink_closes s (sink_log \<sigma>) = 0 \<and>
     sink_got s (sink_log \<tau>) = [42] \<and> sink_closes s (sink_log \<tau>) = 1"
  by (rule exI [of _ demo_race], rule exI [of _ demo_race_exited], rule exI [of _ 3],
      rule exI [of _ 7])
    (use reach_race run_race_exited in \<open>simp add: demo_defs used_once_def\<close>)

text \<open>
  A cancel function is not idempotent. Calling it twice while the multiplexer runs closes the
  sink twice, which panics for a sink made from a channel.
\<close>
lemma mux_double_cancel_closes_twice:
  "\<exists>\<sigma> :: (nat, nat) mux_state. \<exists>s. mux_reachable \<sigma> \<and> subscribes \<sigma> s = 1 \<and> cancels \<sigma> s = 2 \<and>
     sink_closes s (sink_log \<sigma>) = 2 \<and>
     (\<forall>c :: nat chan. bind_chan (sink_close SinkFromChan c) (sink_close SinkFromChan)
        = Crashes CloseOfClosedChannel)"
  by (rule exI [of _ demo_cancelled_twice], rule exI [of _ 7])
    (use reach_cancelled_twice in \<open>simp add: demo_defs SinkFromChan_def chan_close_def\<close>)

end
