(* ===== verification/Mux_Broadcast.thy ===== *)
theory Mux_Broadcast
  imports Prelude
begin

text \<open>
  The abstract multiplexer: a broadcaster that keeps for every member the values it is promised, in
  order. That the unbuffered multiplexer, the only kind the repository makes, refines it is the
  theorem of \<open>Mux_Refinement\<close>; the theories of the discovery and the slices use the broadcaster for
  the multiplexer they hold.
\<close>

section \<open>The broadcaster\<close>

type_synonym ('s, 't) broadcast = "'s \<rightharpoonup> 't list"

text \<open>A value for every member; a new member with what it has got before; a member leaves.\<close>

definition publish :: "'t \<Rightarrow> ('s, 't) broadcast \<Rightarrow> ('s, 't) broadcast" where
  "publish v b = (\<lambda>s. map_option (\<lambda>vs. vs @ [v]) (b s))"

definition join_member :: "'s \<Rightarrow> 't list \<Rightarrow> ('s, 't) broadcast \<Rightarrow> ('s, 't) broadcast" where
  "join_member s vs b = b(s \<mapsto> vs)"

definition leave_member :: "'s \<Rightarrow> ('s, 't) broadcast \<Rightarrow> ('s, 't) broadcast" where
  "leave_member s b = b(s := None)"

lemma publish_apply [simp]: "publish v b s = map_option (\<lambda>vs. vs @ [v]) (b s)"
  by (simp add: publish_def)

lemma join_member_apply [simp]: "join_member s vs b t = (if t = s then Some vs else b t)"
  by (simp add: join_member_def)

lemma leave_member_apply [simp]: "leave_member s b t = (if t = s then None else b t)"
  by (simp add: leave_member_def)

text \<open>An operation of the broadcaster; \<open>NoOp\<close> leaves it as it is.\<close>

datatype ('s, 't) operation = Publish 't | Join 's "'t list" | Leave 's | NoOp

fun perform :: "('s, 't) operation \<Rightarrow> ('s, 't) broadcast \<Rightarrow> ('s, 't) broadcast" where
  "perform (Publish v) b = publish v b"
| "perform (Join s vs) b = join_member s vs b"
| "perform (Leave s) b = leave_member s b"
| "perform NoOp b = b"

end
