(* ===== verification/Mux_Refinement.thy ===== *)
theory Mux_Refinement
  imports Mux_Runs Mux_Broadcast
begin

text \<open>
  The unbuffered multiplexer of \<open>Mux_Core\<close> refines the broadcaster of \<open>Mux_Broadcast\<close>. The members are
  the registered sinks, and what a member has is what its \<open>Submit\<close> was called with, followed by
  the values that \<open>run\<close> holds and has still to submit to it. Which operation a step is can be read off
  the call that returns and the call of a sink.
\<close>

section \<open>What the members have\<close>

definition promised :: "('s, 't) mux_state \<Rightarrow> ('s, 't) broadcast" where
  "promised \<sigma> = (\<lambda>s. map_option (\<lambda>_. sink_got s (sink_log \<sigma>) @ owed s (run_at \<sigma>) @ pending (run_at \<sigma>))
     (outputs \<sigma> s))"

text \<open>
  A \<open>Submit\<close> that succeeds publishes its value; a \<open>Subscribe\<close> that \<open>run\<close> takes adds its sink, with what the
  sink got before; when a sink is closed it leaves. Every other step is no operation.
\<close>

inductive operation_of :: "('s, 't) mux_state \<Rightarrow> ('s, 't) mux_state \<Rightarrow> ('s, 't) operation \<Rightarrow> bool" where
  op_publish: "calls \<sigma> c = SubmitSelect v \<Longrightarrow> calls \<tau> c = SubmitReturned v None \<Longrightarrow> operation_of \<sigma> \<tau> (Publish v)"
| op_join: "calls \<sigma> c = SubscribeSelect s \<Longrightarrow> calls \<tau> c = SubscribeWait s \<Longrightarrow>
    operation_of \<sigma> \<tau> (Join s (sink_got s (sink_log \<sigma>)))"
| op_leave: "sink_log \<tau> = sink_log \<sigma> @ [SinkClose s] \<Longrightarrow> operation_of \<sigma> \<tau> (Leave s)"
| op_none: "(\<And>c v. calls \<sigma> c = SubmitSelect v \<Longrightarrow> calls \<tau> c \<noteq> SubmitReturned v None) \<Longrightarrow>
    (\<And>c s. calls \<sigma> c = SubscribeSelect s \<Longrightarrow> calls \<tau> c \<noteq> SubscribeWait s) \<Longrightarrow>
    (\<And>s. sink_log \<tau> \<noteq> sink_log \<sigma> @ [SinkClose s]) \<Longrightarrow> operation_of \<sigma> \<tau> NoOp"

inductive_cases operation_ofE: "operation_of \<sigma> \<tau> op"

lemma operation_of_exists: "\<exists>op. operation_of \<sigma> \<tau> op"
  by (meson operation_of.intros)

lemma operation_of_some:
  assumes "operation_of \<sigma> \<tau> op"
  shows "calls \<sigma> c = SubmitSelect v \<Longrightarrow> calls \<tau> c = SubmitReturned v None \<Longrightarrow> op \<noteq> NoOp"
    and "calls \<sigma> c = SubscribeSelect s \<Longrightarrow> calls \<tau> c = SubscribeWait s \<Longrightarrow> op \<noteq> NoOp"
    and "sink_log \<tau> = sink_log \<sigma> @ [SinkClose s] \<Longrightarrow> op \<noteq> NoOp"
  using assms by (auto elim: operation_of.cases)

section \<open>The refinement\<close>

lemma promised_cong:
  "outputs \<tau> = outputs \<sigma> \<Longrightarrow> sink_log \<tau> = sink_log \<sigma> \<Longrightarrow> run_at \<tau> = run_at \<sigma> \<Longrightarrow> promised \<tau> = promised \<sigma>"
  by (simp add: promised_def)

text \<open>A submit that fails, a call that begins, a closed \<open>done\<close> and a stuck sink are no operation.\<close>

lemma simulate_other:
  assumes "submit_step \<sigma> \<tau> \<or> subscribe_step \<sigma> \<tau> \<or> enter_step \<sigma> \<tau> \<or> close_step \<sigma> \<tau> \<or> sink_step \<sigma> \<tau>"
    and "inBufSize \<sigma> = 0" and "operation_of \<sigma> \<tau> op"
  shows "promised \<tau> = perform op (promised \<sigma>)"
proof -
  have "same_run \<sigma> \<tau>" using assms(1) same_run_step by blast
  then have same: "promised \<tau> = promised \<sigma>" and log: "sink_log \<tau> = sink_log \<sigma>"
    by (auto simp: same_run_def intro: promised_cong)
  have "op = NoOp"
    using assms(3,1,2) log by cases (auto elim!: step_elims split: if_splits)
  with same show ?thesis by simp
qed

lemma simulate_run:
  assumes "mux_reachable \<sigma>" and "inBufSize \<sigma> = 0" and "run_step \<sigma> \<tau>" and "operation_of \<sigma> \<tau> op"
  shows "promised \<tau> = perform op (promised \<sigma>)"
proof -
  have vis: "distinct (visiting (run_at \<sigma>))" "set (visiting (run_at \<sigma>)) \<subseteq> dom (outputs \<sigma>)"
    using reachable_visits_ok [OF assms(1)] by (auto simp: visits_ok_def)
  have empty: "input \<sigma> = []" using reachable_values_ok [OF assms(1)] assms(2) by (simp add: values_ok_def)
  note step = assms(3)
  show ?thesis
    using step
  proof cases
    case (run_receive_direct c v ks)
    have "op = Publish v" using assms(4) operation_of_some(1) [OF assms(4), of c v] run_receive_direct
      by cases (auto split: if_splits)
    with run_receive_direct show ?thesis by (auto simp: promised_def fun_eq_iff range_order_def)
  next
    case (run_fan_out v k ks err)
    have "op = NoOp" using assms(4) run_fan_out by cases auto
    with run_fan_out vis show ?thesis by (auto simp: promised_def fun_eq_iff)
  next
    case (run_register c s)
    have "op = Join s (sink_got s (sink_log \<sigma>))" using assms(4) operation_of_some(2) [OF assms(4), of c s] run_register by cases (auto split: if_splits)
    with run_register show ?thesis by (auto simp: promised_def fun_eq_iff)
  next
    case (run_unregister c s)
    have "op = Leave s" using assms(4) operation_of_some(3) [OF assms(4), of s] run_unregister
      by cases (auto split: if_splits)
    with run_unregister show ?thesis by (auto simp: promised_def fun_eq_iff)
  next
    case (run_drain_direct acc c v)
    have "op = Publish v" using assms(4) operation_of_some(1) [OF assms(4), of c v] run_drain_direct
      by cases (auto split: if_splits)
    with run_drain_direct show ?thesis by (auto simp: promised_def fun_eq_iff map_option_case split: option.split)
  next
    case (run_deliver v vs ks)
    have "op = NoOp" using assms(4) run_deliver by cases auto
    with run_deliver show ?thesis by (auto simp: promised_def fun_eq_iff range_order_def)
  next
    case (run_deliver_to v k ks vs err)
    have "op = NoOp" using assms(4) run_deliver_to by cases auto
    with run_deliver_to vis show ?thesis by (auto simp: promised_def fun_eq_iff)
  next
    case (run_close_sink s ks)
    have "op = Leave s" using assms(4) operation_of_some(3) [OF assms(4), of s] run_close_sink by cases auto
    with run_close_sink show ?thesis by (auto simp: promised_def fun_eq_iff)
  qed (use assms(4) empty in \<open>auto simp: promised_def fun_eq_iff elim!: operation_ofE split: if_splits\<close>)
qed

text \<open>
  C11: Refinement of the broadcaster. Each step of an unbuffered multiplexer (one channel operation,
  lock operation or sink call of any goroutine) is one operation of the broadcaster, and which one
  is seen from outside: the return of a successful \<open>Submit\<close> publishes its value for all
  registered sinks at once, the acceptance of a \<open>Subscribe\<close> adds its sink, the \<open>Close\<close> of a sink removes
  it, and every other step changes nothing. What a member of the broadcaster has is what the \<open>Submit\<close> of
  the sink was really called with, and after it only the values that \<open>run\<close> holds for it.
\<close>
theorem mux_refines_broadcast:
  assumes "mux_reachable \<sigma>" and "inBufSize \<sigma> = 0" and "mux_step \<sigma> \<tau>"
  shows "(\<exists>op. operation_of \<sigma> \<tau> op) \<and> (\<forall>op. operation_of \<sigma> \<tau> op \<longrightarrow> promised \<tau> = perform op (promised \<sigma>)) \<and>
    (run_at \<tau> \<in> {RunSelect, RunExited} \<longrightarrow>
       promised \<tau> = (\<lambda>s. map_option (\<lambda>_. sink_got s (sink_log \<tau>)) (outputs \<tau> s)))"
proof (intro conjI allI impI operation_of_exists)
  fix op assume "operation_of \<sigma> \<tau> op"
  with simulate_run [OF assms(1,2)] simulate_other [OF _ assms(2)] show "promised \<tau> = perform op (promised \<sigma>)"
    by (rule_tac mux_step_elim [OF assms(3)]) blast+
next
  assume "run_at \<tau> \<in> {RunSelect, RunExited}"
  then show "promised \<tau> = (\<lambda>s. map_option (\<lambda>_. sink_got s (sink_log \<tau>)) (outputs \<tau> s))"
    by (auto simp: promised_def)
qed

text \<open>Sink 7 is registered, and call 1 hands 42 to \<open>run\<close>, which has then to submit it to the sink.\<close>

lemma mux_refines_broadcast_witness:
  "promised (Make 0 :: (nat, nat) mux_state) = Map.empty \<and>
   (\<exists>\<sigma> \<tau> :: (nat, nat) mux_state. mux_reachable \<sigma> \<and> mux_step \<sigma> \<tau> \<and> operation_of \<sigma> \<tau> (Publish 42) \<and>
     promised \<sigma> = [7 \<mapsto> []] \<and> promised \<tau> = [7 \<mapsto> [42]])"
proof -
  note a = go_enter [OF steps_refl enter_subscribe [where c = 0 and s = 7 and \<sigma> = "Make 0 :: (nat, nat) mux_state"],
      simplified Make_def, simplified]
  note a = go_run [OF a run_register [where c = 0 and s = 7], simplified]
  note a = go_run [OF a run_reply_subscribe [where c = 0 and s = 7], simplified]
  note a = go_enter [OF a enter_submit [where c = 1 and v = 42], simplified]
  note a = go_submit [OF a submit_rlock [where c = 1 and v = 42], simplified]
  note a = go_submit [OF a submit_select [where c = 1 and v = 42], simplified]
  obtain \<sigma> :: "(nat, nat) mux_state" where run: "mux_steps (Make 0) \<sigma>" and at: "run_at \<sigma> = RunSelect"
    and \<sigma>: "input \<sigma> = []" "calls \<sigma> (Suc 0) = SubmitSelect 42" "outputs \<sigma> = [7 \<mapsto> True]" "inBufSize \<sigma> = 0" "sink_log \<sigma> = []"
    using that [OF a [folded Make_def]] by (simp add: Make_def)
  from run have reach: "mux_reachable \<sigma>" by (auto simp: mux_reachable_def)
  let ?\<tau> = "set_call (Suc 0) (SubmitReturned 42 None)
      (\<sigma>\<lparr>accepted := accepted \<sigma> @ [42], taken := taken \<sigma> @ [42], run_at := RunFanOut 42 [7]\<rparr>)"
  have step: "mux_step \<sigma> ?\<tau>"
    by (intro step_internal internal_run run_receive_direct) (simp_all add: at \<sigma>)
  have op: "operation_of \<sigma> ?\<tau> (Publish 42)" by (rule op_publish [of _ "Suc 0"]) (simp_all add: \<sigma>)
  have "promised \<sigma> = [7 \<mapsto> []]" by (auto simp: promised_def \<sigma> at)
  moreover have "promised ?\<tau> = publish 42 (promised \<sigma>)"
    using mux_refines_broadcast [OF reach \<sigma>(4) step] op by auto
  ultimately have "promised \<sigma> = [7 \<mapsto> []]" "promised ?\<tau> = [7 \<mapsto> [42]]" by (auto simp: fun_eq_iff)
  moreover have "promised (Make 0 :: (nat, nat) mux_state) = Map.empty" by (auto simp: promised_def Make_def)
  ultimately show ?thesis using reach step op by blast
qed

end
