(* ===== verification/Go_Text.thy ===== *)
theory Go_Text
  imports Prelude "HOL-Library.Sublist" "HOL-Library.Signed_Division" "HOL-Library.Word"
begin

text \<open>
  The parts of the Go standard library that the repository computes with: \<open>strings\<close>
  (\<open>TrimSpace\<close>, \<open>HasPrefix\<close>, \<open>TrimPrefix\<close>, \<open>Join\<close>, the replacer and \<open>ToUpper\<close> of
  \<open>sanitizeEnv\<close>), \<open>strconv.Atoi\<close>, the verb \<open>%d\<close>, and \<open>path.Clean\<close> and \<open>path.Join\<close>. A Go string is
  a list of bytes (\<open>char\<close>). \<open>int\<close> is 64 bits wide.
\<close>

section \<open>Prefixes, joins and replacements\<close>

definition has_prefix :: "string \<Rightarrow> string \<Rightarrow> bool" where
  "has_prefix s p \<longleftrightarrow> prefix p s"

definition trim_prefix :: "string \<Rightarrow> string \<Rightarrow> string" where
  "trim_prefix s p = (if has_prefix s p then drop (length p) s else s)"

lemma has_prefix_append [simp]: "has_prefix (p @ s) p"
  by (simp add: has_prefix_def)

lemma trim_prefix_append [simp]: "trim_prefix (p @ s) p = s"
  by (simp add: trim_prefix_def)

fun join :: "string list \<Rightarrow> string \<Rightarrow> string" where
  "join [] sep = []"
| "join [s] sep = s"
| "join (s # t # ss) sep = s @ sep @ join (t # ss) sep"

text \<open>\<open>strings.ToUpper\<close> on ASCII text: the letters a to z.\<close>

definition ascii :: "string \<Rightarrow> bool" where
  "ascii s \<longleftrightarrow> (\<forall>c \<in> set s. of_char c < (128::nat))"

definition upper_char :: "char \<Rightarrow> char" where
  "upper_char c = (if (97::nat) \<le> of_char c \<and> of_char c \<le> (122::nat) then char_of (of_char c - (32::nat)) else c)"

definition to_upper :: "string \<Rightarrow> string" where
  "to_upper s = map upper_char s"

section \<open>Trimming white space\<close>

text \<open>
  The code points of \<open>unicode.IsSpace\<close> as UTF-8: the six ASCII ones, U+0085, U+00A0, U+1680,
  U+2000 to U+200A, U+2028, U+2029, U+202F, U+205F and U+3000.
\<close>

definition bytes :: "nat list \<Rightarrow> string" where
  "bytes ns = map char_of ns"

definition space_runes :: "string list" where
  "space_runes = map bytes
     ([[9], [10], [11], [12], [13], [32], [0xC2, 0x85], [0xC2, 0xA0], [0xE1, 0x9A, 0x80]] @
      map (\<lambda>n. [0xE2, 0x80, n]) [0x80, 0x81, 0x82, 0x83, 0x84, 0x85, 0x86, 0x87, 0x88, 0x89, 0x8A,
        0xA8, 0xA9, 0xAF] @
      [[0xE2, 0x81, 0x9F], [0xE3, 0x80, 0x80]])"

text \<open>Removes encodings of the list from the front while one is there.\<close>

function trim_with :: "string list \<Rightarrow> string \<Rightarrow> string" where
  "trim_with runes s =
     (case find (\<lambda>r. r \<noteq> [] \<and> prefix r s) runes of
        None \<Rightarrow> s
      | Some r \<Rightarrow> trim_with runes (drop (length r) s))"
  by pat_completeness auto
termination
  by (relation "measure (\<lambda>(runes, s). length s)")
    (auto simp: find_Some_iff prefix_def intro!: diff_less)

declare trim_with.simps [simp del]

definition trim_space :: "string \<Rightarrow> string" where
  "trim_space s = rev (trim_with (map rev space_runes) (rev (trim_with space_runes s)))"

text \<open>No encoding of the list is at the front.\<close>

definition starts_clean :: "string list \<Rightarrow> string \<Rightarrow> bool" where
  "starts_clean runes s \<longleftrightarrow> (\<forall>r \<in> set runes. r \<noteq> [] \<longrightarrow> \<not> prefix r s)"

lemma trim_with_clean: "starts_clean runes s \<Longrightarrow> trim_with runes s = s"
  by (subst trim_with.simps) (auto simp: starts_clean_def find_None_iff split: option.split dest: find_Some_iff [THEN iffD1])

lemma starts_clean_trim_with: "starts_clean runes (trim_with runes s)"
proof (induction runes s rule: trim_with.induct)
  case (1 runes s)
  show ?case
  proof (cases "find (\<lambda>r. r \<noteq> [] \<and> prefix r s) runes")
    case None
    then have "starts_clean runes s" by (auto simp: starts_clean_def find_None_iff)
    then show ?thesis by (simp add: trim_with_clean)
  next
    case (Some r)
    with 1 have "starts_clean runes (trim_with runes (drop (length r) s))" by simp
    with Some show ?thesis by (subst trim_with.simps) simp
  qed
qed

lemma trim_with_suffix: "suffix (trim_with runes s) s"
proof (induction runes s rule: trim_with.induct)
  case (1 runes s)
  show ?case
  proof (cases "find (\<lambda>r. r \<noteq> [] \<and> prefix r s) runes")
    case None
    then show ?thesis by (subst trim_with.simps) simp
  next
    case (Some r)
    with 1 have "suffix (trim_with runes (drop (length r) s)) (drop (length r) s)" by simp
    with Some show ?thesis
      by (subst trim_with.simps) (auto intro: suffix_order.trans suffix_drop)
  qed
qed

lemma trim_with_Nil [simp]: "trim_with runes [] = []"
  using trim_with_suffix [of runes "[]"] by simp

lemma starts_clean_prefix: "starts_clean runes s \<Longrightarrow> prefix t s \<Longrightarrow> starts_clean runes t"
  by (auto simp: starts_clean_def intro: prefix_order.trans)

text \<open>A text without white space at its ends, as far as ASCII goes.\<close>

definition visible :: "char \<Rightarrow> bool" where
  "visible c \<longleftrightarrow> (33::nat) \<le> of_char c \<and> of_char c < (128::nat)"

lemma starts_clean_visible:
  assumes "visible c"
  shows "starts_clean space_runes (c # s)" and "starts_clean (map rev space_runes) (c # s)"
  using assms by (auto simp: starts_clean_def space_runes_def bytes_def visible_def)

lemma trim_space_visible:
  assumes "s \<noteq> []" and "visible (hd s)" and "visible (last s)"
  shows "trim_space s = s"
proof -
  have "starts_clean space_runes s" using starts_clean_visible(1) [OF assms(2), of "tl s"] assms(1) by simp
  moreover have rev: "rev s = last s # rev (butlast s)"
    using assms(1) by (metis append_butlast_last_id rev.simps(2) rev_rev_ident)
  have "starts_clean (map rev space_runes) (rev s)" unfolding rev by (rule starts_clean_visible(2) [OF assms(3)])
  ultimately show ?thesis by (simp add: trim_space_def trim_with_clean)
qed

lemma trim_space_Nil [simp]: "trim_space [] = []"
  by (simp add: trim_space_def)

lemma trim_space_clean:
  "starts_clean space_runes (trim_space s)" "starts_clean (map rev space_runes) (rev (trim_space s))"
proof -
  let ?l = "trim_with space_runes s"
  have "suffix (trim_with (map rev space_runes) (rev ?l)) (rev ?l)" by (rule trim_with_suffix)
  then have "prefix (trim_space s) ?l"
    by (simp add: trim_space_def suffix_to_prefix)
  then show "starts_clean space_runes (trim_space s)"
    using starts_clean_trim_with starts_clean_prefix by blast
  show "starts_clean (map rev space_runes) (rev (trim_space s))"
    by (simp add: trim_space_def starts_clean_trim_with)
qed

lemma trim_space_idem [simp]: "trim_space (trim_space s) = trim_space s"
  by (subst trim_space_def) (simp add: trim_with_clean trim_space_clean)

section \<open>Decimal numbers\<close>

definition int_min :: int where "int_min = - (2 ^ 63)"
definition int_max :: int where "int_max = 2 ^ 63 - 1"

text \<open>The value of an \<open>int\<close> with these bits, and Go's division, which truncates towards zero.\<close>

definition wrap_int :: "int \<Rightarrow> int" where
  "wrap_int i = sint (word_of_int i :: 64 word)"

definition go_div :: "int \<Rightarrow> int \<Rightarrow> int outcome" where
  "go_div a b = (if b = 0 then Panic IntegerDivideByZero else Return (wrap_int (a sdiv b)))"

lemma wrap_int_id: "int_min \<le> i \<Longrightarrow> i \<le> int_max \<Longrightarrow> wrap_int i = i"
  by (simp add: wrap_int_def int_min_def int_max_def sint_sbintrunc' signed_take_bit_int_eq_self)

definition digit_char :: "nat \<Rightarrow> char" where
  "digit_char d = char_of (48 + d)"

definition digit_value :: "char \<Rightarrow> nat option" where
  "digit_value c = (let n = of_char c in if 48 \<le> n \<and> n \<le> (57::nat) then Some (n - 48) else None)"

lemma digit_value_char [simp]: "d < 10 \<Longrightarrow> digit_value (digit_char d) = Some d"
  by (simp add: digit_value_def digit_char_def)

fun show_nat :: "nat \<Rightarrow> string" where
  "show_nat n = (if n < 10 then [digit_char n] else show_nat (n div 10) @ [digit_char (n mod 10)])"

declare show_nat.simps [simp del]

definition show_int :: "int \<Rightarrow> string" where
  "show_int i = (if i < 0 then CHR ''-'' # show_nat (nat (- i)) else show_nat (nat i))"

lemma show_int_0: "show_int 0 = ''0''"
  by code_simp

text \<open>The digits read from the left, with the value so far.\<close>

fun read_digits :: "string \<Rightarrow> nat \<Rightarrow> nat option" where
  "read_digits [] acc = Some acc"
| "read_digits (c # cs) acc =
     (case digit_value c of None \<Rightarrow> None | Some d \<Rightarrow> read_digits cs (10 * acc + d))"

text \<open>
  \<open>strconv.Atoi\<close>: an optional sign, at least one digit, and nothing else; \<open>None\<close> is any error, a
  value out of the range of \<open>int\<close> included.
\<close>

definition atoi :: "string \<Rightarrow> int option" where
  "atoi s =
     (let (neg, ds) = (case s of
          [] \<Rightarrow> (False, [])
        | c # cs \<Rightarrow> if c = CHR ''-'' then (True, cs) else if c = CHR ''+'' then (False, cs) else (False, s))
      in if ds = [] then None
         else case read_digits ds 0 of
             None \<Rightarrow> None
           | Some n \<Rightarrow> (let i = (if neg then - int n else int n)
                        in if int_min \<le> i \<and> i \<le> int_max then Some i else None))"

lemma read_digits_append:
  "read_digits (xs @ ys) acc = Option.bind (read_digits xs acc) (read_digits ys)"
  by (induction xs arbitrary: acc) (auto split: option.split)

lemma show_nat_nonempty: "show_nat n \<noteq> []"
  by (subst show_nat.simps) simp

lemma read_show_nat: "read_digits (show_nat n) 0 = Some n"
proof (induction n rule: show_nat.induct)
  case (1 n)
  show ?case
  proof (cases "n < 10")
    case True
    then show ?thesis by (subst show_nat.simps) simp
  next
    case False
    with 1 have "read_digits (show_nat (n div 10)) 0 = Some (n div 10)" by simp
    with False show ?thesis by (subst show_nat.simps) (simp add: read_digits_append)
  qed
qed

lemma show_nat_inject [simp]: "show_nat m = show_nat n \<longleftrightarrow> m = n"
  by (metis option.inject read_show_nat)

lemma set_show_nat: "set (show_nat n) \<subseteq> digit_char ` {..<10}"
proof (induction n rule: show_nat.induct)
  case (1 n)
  then show ?case by (subst show_nat.simps) auto
qed

lemma show_nat_digits: "c \<in> set (show_nat n) \<Longrightarrow> digit_value c \<noteq> None"
  using set_show_nat [of n] by auto

lemma hd_show_nat: "hd (show_nat n) \<noteq> CHR ''-''" "hd (show_nat n) \<noteq> CHR ''+''"
  using show_nat_digits [of "hd (show_nat n)" n] hd_in_set [OF show_nat_nonempty [of n]]
  by (auto simp: digit_value_def)

lemma atoi_show_int:
  assumes "int_min \<le> i" and "i \<le> int_max"
  shows "atoi (show_int i) = Some i"
proof (cases "i < 0")
  case True
  with assms show ?thesis by (simp add: atoi_def show_int_def show_nat_nonempty read_show_nat)
next
  case False
  obtain c cs where s: "show_nat (nat i) = c # cs" "c \<noteq> CHR ''-''" "c \<noteq> CHR ''+''"
    using show_nat_nonempty [of "nat i"] hd_show_nat [of "nat i"]
    by (cases "show_nat (nat i)") auto
  with False assms read_show_nat [of "nat i"] show ?thesis by (simp add: atoi_def show_int_def)
qed

lemma atoi_range: "atoi s = Some i \<Longrightarrow> int_min \<le> i \<and> i \<le> int_max"
  by (auto simp: atoi_def Let_def split: option.splits if_splits prod.splits)

end
