(* ===== verification/Udev_Device.thy ===== *)
theory Udev_Device
  imports Go_Text
begin

text \<open>
  Devices: the interface \<open>Device\<close> of \<open>internal/udev/discovery.go\<close> with its two implementations,
  \<open>generic\<close> of \<open>udev.go\<close>, which wraps a device of the C library libudev, and \<open>FakeDevice\<close> of
  \<open>fake.go\<close>. A device is a value: the answers of libudev for one device are fixed.
\<close>

section \<open>Well-known names\<close>

definition BlockSubsystem :: string where "BlockSubsystem = ''block''"
definition NetSubsystem :: string where "NetSubsystem = ''net''"
definition DeviceTypePart :: string where "DeviceTypePart = ''partition''"
definition PropertyPartName :: string where "PropertyPartName = ''PARTNAME''"
definition PropertyShortSerial :: string where "PropertyShortSerial = ''ID_SERIAL_SHORT''"
definition PropertyInterface :: string where "PropertyInterface = ''INTERFACE''"
definition SysAttrWWID :: string where "SysAttrWWID = ''wwid''"
definition SysAttrModel :: string where "SysAttrModel = ''model''"
definition SysAttrSerial :: string where "SysAttrSerial = ''serial''"
definition SysAttrSpeed :: string where "SysAttrSpeed = ''speed''"
definition SysAttrOperstate :: string where "SysAttrOperstate = ''operstate''"

lemmas udev_names = BlockSubsystem_def NetSubsystem_def DeviceTypePart_def PropertyPartName_def
  PropertyShortSerial_def PropertyInterface_def SysAttrWWID_def SysAttrModel_def SysAttrSerial_def
  SysAttrSpeed_def SysAttrOperstate_def

section \<open>Devices\<close>

text \<open>
  What libudev answers for a device; it is outside the repository, so the record only names the
  calls that \<open>udev.go\<close> makes. Sets are the key sets of Go maps.
\<close>

record libudev_values =
  Syspath :: string
  lu_Subsystem :: string
  Devtype :: string
  Devnode :: string
  Devlinks :: "string set"
  PropertyValue :: "string \<Rightarrow> string"
  lu_Properties :: "string \<rightharpoonup> string"
  SysattrValue :: "string \<Rightarrow> string"
  Sysattrs :: "string set"
  lu_Tags :: "string set"

datatype libudev_device = LibudevDevice libudev_values "libudev_device option"

record fake_device =
  fd_id :: string
  fd_subsystem :: string
  fd_devType :: string
  fd_devNode :: string
  fd_devLinks :: "string list"
  fd_properties :: "string \<rightharpoonup> string"
  fd_sysattrs :: "string \<rightharpoonup> string"
  fd_tags :: "string list"
  fd_numaNode :: int

text \<open>A device with its parent; the parent of a \<open>generic\<close> device is wrapped on demand.\<close>

datatype device = Generic libudev_device | FakeDevice fake_device "device option"

fun lu_values :: "libudev_device \<Rightarrow> libudev_values" where
  "lu_values (LibudevDevice v p) = v"

fun lu_Parent :: "libudev_device \<Rightarrow> libudev_device option" where
  "lu_Parent (LibudevDevice v p) = p"

definition NewFakeDevice :: "string \<Rightarrow> device" where
  "NewFakeDevice i = FakeDevice \<lparr>fd_id = i, fd_subsystem = [], fd_devType = [], fd_devNode = [],
     fd_devLinks = [], fd_properties = Map.empty, fd_sysattrs = Map.empty, fd_tags = [],
     fd_numaNode = -1\<rparr> None"

text \<open>The builder methods of \<open>FakeDevice\<close>.\<close>

fun update_fake :: "(fake_device \<Rightarrow> fake_device) \<Rightarrow> device \<Rightarrow> device" where
  "update_fake f (FakeDevice d p) = FakeDevice (f d) p"
| "update_fake f (Generic g) = Generic g"

fun WithParent :: "device \<Rightarrow> device \<Rightarrow> device" where
  "WithParent q (FakeDevice d p) = FakeDevice d (Some q)"
| "WithParent q (Generic g) = Generic g"

definition WithSubsystem :: "string \<Rightarrow> device \<Rightarrow> device" where
  "WithSubsystem s = update_fake (\<lambda>d. d\<lparr>fd_subsystem := s\<rparr>)"

definition WithDevType :: "string \<Rightarrow> device \<Rightarrow> device" where
  "WithDevType t = update_fake (\<lambda>d. d\<lparr>fd_devType := t\<rparr>)"

definition WithDevNode :: "string \<Rightarrow> device \<Rightarrow> device" where
  "WithDevNode n = update_fake (\<lambda>d. d\<lparr>fd_devNode := n\<rparr>)"

definition WithNumaNode :: "int \<Rightarrow> device \<Rightarrow> device" where
  "WithNumaNode n = update_fake (\<lambda>d. d\<lparr>fd_numaNode := n\<rparr>)"

definition WithTags :: "string list \<Rightarrow> device \<Rightarrow> device" where
  "WithTags ts = update_fake (\<lambda>d. d\<lparr>fd_tags := fd_tags d @ ts\<rparr>)"

definition WithProperty :: "string \<Rightarrow> string \<Rightarrow> device \<Rightarrow> device" where
  "WithProperty k v = update_fake (\<lambda>d. d\<lparr>fd_properties := (fd_properties d)(k \<mapsto> v)\<rparr>)"

definition WithSysAttr :: "string \<Rightarrow> string \<Rightarrow> device \<Rightarrow> device" where
  "WithSysAttr k v = update_fake (\<lambda>d. d\<lparr>fd_sysattrs := (fd_sysattrs d)(k \<mapsto> v)\<rparr>)"

definition WithDevLinks :: "string list \<Rightarrow> device \<Rightarrow> device" where
  "WithDevLinks ls = update_fake (\<lambda>d. d\<lparr>fd_devLinks := fd_devLinks d @ ls\<rparr>)"

lemmas fake_builders = NewFakeDevice_def WithSubsystem_def WithDevType_def WithDevNode_def
  WithNumaNode_def WithTags_def WithProperty_def WithSysAttr_def WithDevLinks_def

section \<open>The interface\<close>

text \<open>Indexing a Go map of strings: the empty string for a missing key.\<close>

definition map_index :: "(string \<rightharpoonup> string) \<Rightarrow> string \<Rightarrow> string" where
  "map_index m k = (case m k of None \<Rightarrow> [] | Some v \<Rightarrow> v)"

text \<open>The methods of \<open>FakeDevice\<close> that read a field, written as they are; they are unfolded at once.\<close>

definition fake_Id :: "fake_device \<Rightarrow> string" where [simp]: "fake_Id d = fd_id d"

definition fake_Subsystem :: "fake_device \<Rightarrow> string" where [simp]: "fake_Subsystem d = fd_subsystem d"

definition fake_DevType :: "fake_device \<Rightarrow> string" where [simp]: "fake_DevType d = fd_devType d"

definition fake_DevNode :: "fake_device \<Rightarrow> string" where [simp]: "fake_DevNode d = fd_devNode d"

definition fake_DevLinks :: "fake_device \<Rightarrow> string list" where [simp]: "fake_DevLinks d = fd_devLinks d"

definition fake_Properties :: "fake_device \<Rightarrow> (string \<rightharpoonup> string)" where [simp]: "fake_Properties d = fd_properties d"

definition fake_Property :: "fake_device \<Rightarrow> string \<Rightarrow> string" where
  [simp]: "fake_Property d k = map_index (fd_properties d) k"

definition fake_SystemAttributes :: "fake_device \<Rightarrow> (string \<rightharpoonup> string)" where
  [simp]: "fake_SystemAttributes d = fd_sysattrs d"

definition fake_SystemAttribute :: "fake_device \<Rightarrow> string \<Rightarrow> string" where
  [simp]: "fake_SystemAttribute d k = map_index (fd_sysattrs d) k"

definition fake_SystemAttributeKeys :: "string list \<Rightarrow> fake_device \<Rightarrow> string list" where
  [simp]: "fake_SystemAttributeKeys order d = filter (\<lambda>k. k \<in> dom (fd_sysattrs d)) order"

definition fake_Tags :: "fake_device \<Rightarrow> string list" where [simp]: "fake_Tags d = fd_tags d"

definition fake_NumaNode :: "fake_device \<Rightarrow> int" where [simp]: "fake_NumaNode d = fd_numaNode d"

definition fake_Debug :: "fake_device \<Rightarrow> string" where
  "fake_Debug d = ''FakeDevice['' @ fd_id d @ '']''"

fun dev_Id :: "device \<Rightarrow> string" where
  "dev_Id (Generic g) = Syspath (lu_values g)"
| "dev_Id (FakeDevice d p) = fake_Id d"

fun Parent :: "device \<Rightarrow> device option" where
  "Parent (Generic g) = map_option Generic (lu_Parent g)"
| "Parent (FakeDevice d p) = p"

fun Subsystem :: "device \<Rightarrow> string" where
  "Subsystem (Generic g) = lu_Subsystem (lu_values g)"
| "Subsystem (FakeDevice d p) = fake_Subsystem d"

fun DevType :: "device \<Rightarrow> string" where
  "DevType (Generic g) = Devtype (lu_values g)"
| "DevType (FakeDevice d p) = fake_DevType d"

fun DevNode :: "device \<Rightarrow> string" where
  "DevNode (Generic g) = Devnode (lu_values g)"
| "DevNode (FakeDevice d p) = fake_DevNode d"

fun Properties :: "device \<Rightarrow> (string \<rightharpoonup> string)" where
  "Properties (Generic g) = lu_Properties (lu_values g)"
| "Properties (FakeDevice d p) = fake_Properties d"

fun Property :: "device \<Rightarrow> string \<Rightarrow> string" where
  "Property (Generic g) k = trim_space (PropertyValue (lu_values g) k)"
| "Property (FakeDevice d p) k = fake_Property d k"

fun SystemAttribute :: "device \<Rightarrow> string \<Rightarrow> string" where
  "SystemAttribute (Generic g) k = trim_space (SysattrValue (lu_values g) k)"
| "SystemAttribute (FakeDevice d p) k = fake_SystemAttribute d k"

text \<open>The keys of a set in the order the run time ranges over it.\<close>

fun DevLinks :: "string list \<Rightarrow> device \<Rightarrow> string list" where
  "DevLinks order (Generic g) = filter (\<lambda>l. l \<in> Devlinks (lu_values g)) order"
| "DevLinks order (FakeDevice d p) = fake_DevLinks d"

fun SystemAttributeKeys :: "string list \<Rightarrow> device \<Rightarrow> string list" where
  "SystemAttributeKeys order (Generic g) = filter (\<lambda>k. k \<in> Sysattrs (lu_values g)) order"
| "SystemAttributeKeys order (FakeDevice d p) = fake_SystemAttributeKeys order d"

fun Tags :: "string list \<Rightarrow> device \<Rightarrow> string list" where
  "Tags order (Generic g) = filter (\<lambda>t. t \<in> lu_Tags (lu_values g)) order"
| "Tags order (FakeDevice d p) = fake_Tags d"

fun SystemAttributes :: "device \<Rightarrow> (string \<rightharpoonup> string)" where
  "SystemAttributes (Generic g) =
     (\<lambda>k. if k \<in> Sysattrs (lu_values g) then Some (SystemAttribute (Generic g) k) else None)"
| "SystemAttributes (FakeDevice d p) = fake_SystemAttributes d"

text \<open>
  The two recursive lookups. The parent of a wrapped device is wrapped, so the recursion of
  \<open>generic\<close> runs along the chain of libudev devices.
\<close>

fun generic_PropertyLookup :: "libudev_device \<Rightarrow> string \<Rightarrow> string" where
  "generic_PropertyLookup (LibudevDevice v p) k =
     (let value = Property (Generic (LibudevDevice v p)) k
      in if value = [] then (case p of Some q \<Rightarrow> generic_PropertyLookup q k | None \<Rightarrow> value) else value)"

fun PropertyLookup :: "device \<Rightarrow> string \<Rightarrow> string" where
  "PropertyLookup (Generic g) k = generic_PropertyLookup g k"
| "PropertyLookup (FakeDevice d p) k =
     (let v = Property (FakeDevice d p) k
      in if v \<noteq> [] then v else case p of Some q \<Rightarrow> PropertyLookup q k | None \<Rightarrow> [])"

fun generic_SystemAttributeLookup :: "libudev_device \<Rightarrow> string \<Rightarrow> string" where
  "generic_SystemAttributeLookup (LibudevDevice v p) k =
     (let value = SystemAttribute (Generic (LibudevDevice v p)) k
      in if value = [] then (case p of Some q \<Rightarrow> generic_SystemAttributeLookup q k | None \<Rightarrow> value)
         else value)"

fun SystemAttributeLookup :: "device \<Rightarrow> string \<Rightarrow> string" where
  "SystemAttributeLookup (Generic g) k = generic_SystemAttributeLookup g k"
| "SystemAttributeLookup (FakeDevice d p) k =
     (let v = SystemAttribute (FakeDevice d p) k
      in if v \<noteq> [] then v else case p of Some q \<Rightarrow> SystemAttributeLookup q k | None \<Rightarrow> [])"

fun NumaNode :: "device \<Rightarrow> int" where
  "NumaNode (Generic g) =
     (case atoi (SystemAttributeLookup (Generic g) ''numa_node'') of Some n \<Rightarrow> n | None \<Rightarrow> -1)"
| "NumaNode (FakeDevice d p) = fake_NumaNode d"

lemma dev_Id_NewFakeDevice [simp]: "dev_Id (NewFakeDevice i) = i"
  by (simp add: NewFakeDevice_def)

lemma dev_Id_update_fake [simp]: "(\<And>d. fd_id (f d) = fd_id d) \<Longrightarrow> dev_Id (update_fake f d) = dev_Id d"
  by (cases d) simp_all

section \<open>The chain of ancestors\<close>

fun lu_ancestry :: "libudev_device \<Rightarrow> libudev_device list" where
  "lu_ancestry (LibudevDevice v p) =
     LibudevDevice v p # (case p of Some q \<Rightarrow> lu_ancestry q | None \<Rightarrow> [])"

text \<open>The device itself, its parent, the parent of that, and so on.\<close>

fun ancestry :: "device \<Rightarrow> device list" where
  "ancestry (Generic g) = map Generic (lu_ancestry g)"
| "ancestry (FakeDevice d p) = FakeDevice d p # (case p of Some q \<Rightarrow> ancestry q | None \<Rightarrow> [])"

lemma ancestry_Parent:
  "ancestry d = d # (case Parent d of Some p \<Rightarrow> ancestry p | None \<Rightarrow> [])"
proof (cases d)
  case (Generic g)
  then show ?thesis by (cases g) (simp split: option.split)
qed (simp split: option.split)

lemma ancestry_nonempty [simp]: "ancestry d \<noteq> []"
  by (subst ancestry_Parent) simp

text \<open>
  A lookup that inherits: the own value of the device if there is one, else the lookup of the
  parent. Both lookups of both implementations are one.
\<close>

locale inherited_lookup =
  fixes own :: "device \<Rightarrow> string \<Rightarrow> string"
    and lookup :: "device \<Rightarrow> string \<Rightarrow> string"
  assumes lookup_unfold: "lookup d k =
    (if own d k \<noteq> [] then own d k else case Parent d of Some p \<Rightarrow> lookup p k | None \<Rightarrow> [])"
begin

text \<open>The nearest ancestor with a value decides.\<close>

lemma lookup_nearest:
  "lookup d k = (case find (\<lambda>a. own a k \<noteq> []) (ancestry d) of None \<Rightarrow> [] | Some a \<Rightarrow> own a k)"
proof (induction "ancestry d" arbitrary: d)
  case Nil
  then show ?case by (metis ancestry_nonempty)
next
  case (Cons a as)
  from Cons.hyps(2) have as: "a = d" "as = (case Parent d of Some p \<Rightarrow> ancestry p | None \<Rightarrow> [])"
    using ancestry_Parent [of d] by simp_all
  show ?case
  proof (cases "Parent d")
    case None
    then show ?thesis using as by (subst lookup_unfold) (simp add: ancestry_Parent [of d])
  next
    case (Some p)
    with as Cons.hyps(1) [of p] show ?thesis
      by (subst lookup_unfold) (simp add: ancestry_Parent [of d])
  qed
qed

lemma lookup_empty_iff: "lookup d k = [] \<longleftrightarrow> (\<forall>a \<in> set (ancestry d). own a k = [])"
proof (cases "find (\<lambda>a. own a k \<noteq> []) (ancestry d)")
  case None
  then have "\<forall>a \<in> set (ancestry d). own a k = []" by (auto simp: find_None_iff)
  with None show ?thesis by (simp add: lookup_nearest)
next
  case (Some a)
  then have "own a k \<noteq> []" "a \<in> set (ancestry d)" by (auto simp: find_Some_iff)
  with Some show ?thesis by (auto simp: lookup_nearest)
qed

lemma lookup_own: "own d k \<noteq> [] \<Longrightarrow> lookup d k = own d k"
  by (subst lookup_unfold) simp

end

interpretation property: inherited_lookup Property PropertyLookup
proof unfold_locales
  fix d k
  show "PropertyLookup d k = (if Property d k \<noteq> [] then Property d k
    else case Parent d of Some p \<Rightarrow> PropertyLookup p k | None \<Rightarrow> [])"
  proof (cases d)
    case (Generic g)
    then show ?thesis by (cases g) (simp split: option.split)
  qed (simp split: option.split)
qed

interpretation sysattr: inherited_lookup SystemAttribute SystemAttributeLookup
proof unfold_locales
  fix d k
  show "SystemAttributeLookup d k = (if SystemAttribute d k \<noteq> [] then SystemAttribute d k
    else case Parent d of Some p \<Rightarrow> SystemAttributeLookup p k | None \<Rightarrow> [])"
  proof (cases d)
    case (Generic g)
    then show ?thesis by (cases g) (simp split: option.split)
  qed (simp split: option.split)
qed

section \<open>Properties\<close>

text \<open>
  C33: Inherited attributes. Both implementations look a system attribute up in the same way: the
  result is the value at the nearest device of the parent chain that has a non-empty one, and it
  is empty only if no device of the chain has one.
\<close>
theorem system_attribute_lookup_nearest:
  "SystemAttributeLookup d k =
     (case find (\<lambda>a. SystemAttribute a k \<noteq> []) (ancestry d) of
        None \<Rightarrow> [] | Some a \<Rightarrow> SystemAttribute a k)"
  by (rule sysattr.lookup_nearest)

text \<open>
  The NUMA node of a system device. It is the number at the nearest device of the parent chain
  with a \<open>numa_node\<close> attribute when that text is a number, and -1 (no affinity) otherwise; a nearer
  text that is not a number hides a number further up.
\<close>
theorem generic_numa_node:
  "NumaNode (Generic g) =
     (case find (\<lambda>a. SystemAttribute a ''numa_node'' \<noteq> []) (ancestry (Generic g)) of
        None \<Rightarrow> -1
      | Some a \<Rightarrow> (case atoi (SystemAttribute a ''numa_node'') of None \<Rightarrow> -1 | Some n \<Rightarrow> n))"
proof -
  have "atoi [] = None" by (simp add: atoi_def)
  then show ?thesis
    unfolding NumaNode.simps sysattr.lookup_nearest by (simp split: option.split)
qed

lemma numa_node_range: "int_min \<le> NumaNode (Generic g) \<and> NumaNode (Generic g) \<le> int_max"
  using atoi_range by (auto split: option.split simp: int_min_def int_max_def)

lemma Property_trimmed: "trim_space (Property (Generic g) k) = Property (Generic g) k"
  by simp

end
