(* ===== verification/Udev_Source.thy ===== *)
theory Udev_Source
  imports Udev_Device Mux_Filter Mux_Broadcast
begin

text \<open>
  The interface \<open>mux.Source[Event]\<close> of \<open>internal/udev/discovery.go\<close>: the events, what they do to
  a view of the device set, and what a subscriber may rely on. Its providers are the discovery of
  \<open>Udev_Discovery\<close> and the fake one of \<open>Udev_Fake\<close>; its clients are the slices and the scatters.
\<close>

section \<open>Events\<close>

text \<open>The sealed interface \<open>Event\<close>.\<close>

datatype event = Init "device list" | Added device | Removed device

type_synonym device_map = "string \<rightharpoonup> device"

text \<open>
  The device set a subscriber knows after an event: \<open>Init\<close> stores its devices, \<open>Added\<close> stores one
  and \<open>Removed\<close> deletes one.
\<close>

fun apply_event :: "event \<Rightarrow> device_map \<Rightarrow> device_map" where
  "apply_event (Init ds) m = store_all dev_Id (\<lambda>d. d) ds m"
| "apply_event (Added d) m = m(dev_Id d \<mapsto> d)"
| "apply_event (Removed d) m = m(dev_Id d := None)"

definition replay :: "event list \<Rightarrow> device_map \<Rightarrow> device_map" where
  "replay evs m = fold apply_event evs m"

lemma replay_Nil [simp]: "replay [] m = m"
  by (simp add: replay_def)

lemma replay_Cons [simp]: "replay (e # es) m = replay es (apply_event e m)"
  by (simp add: replay_def)

lemma replay_append [simp]: "replay (xs @ ys) m = replay ys (replay xs m)"
  by (simp add: replay_def)

text \<open>A removal is announced with the device as it was added.\<close>

fun removals_known :: "event list \<Rightarrow> device_map \<Rightarrow> bool" where
  "removals_known [] m = True"
| "removals_known (e # es) m =
     ((case e of Removed d \<Rightarrow> m (dev_Id d) = Some d | _ \<Rightarrow> True) \<and> removals_known es (apply_event e m))"

lemma removals_known_append:
  "removals_known (xs @ ys) m \<longleftrightarrow> removals_known xs m \<and> removals_known ys (replay xs m)"
  by (induction xs arbitrary: m) (auto split: event.split)

text \<open>The devices an event mentions.\<close>

fun event_devices :: "event \<Rightarrow> device list" where
  "event_devices (Init ds) = ds"
| "event_devices (Added d) = [d]"
| "event_devices (Removed d) = [d]"

text \<open>The devices a replay stores come from its events.\<close>

lemma replay_from_events:
  "replay evs Map.empty i = Some d \<Longrightarrow> d \<in> set (concat (map event_devices evs)) \<and> dev_Id d = i"
proof (induction evs rule: rev_induct)
  case (snoc e evs)
  show ?case
  proof (cases e)
    case (Init ds)
    with snoc.prems have "store_all dev_Id (\<lambda>d. d) ds (replay evs Map.empty) i = Some d" by simp
    from store_all_SomeD [OF this] show ?thesis
    proof (elim disjE conjE bexE)
      fix x assume "x \<in> set ds" "dev_Id x = i" "x = d"
      with Init show ?thesis by simp
    next
      assume "replay evs Map.empty i = Some d"
      from snoc.IH [OF this] show ?thesis by simp
    qed
  qed (use snoc in \<open>auto split: if_splits\<close>)
qed simp

section \<open>Device maps\<close>

text \<open>Every device is stored under its own id.\<close>

definition keyed :: "device_map \<Rightarrow> bool" where
  "keyed m \<longleftrightarrow> (\<forall>i d. m i = Some d \<longrightarrow> dev_Id d = i)"

lemma keyed_empty [simp]: "keyed Map.empty"
  by (simp add: keyed_def)

lemma keyed_upd [simp]: "keyed m \<Longrightarrow> keyed (m(dev_Id d \<mapsto> d))"
  by (simp add: keyed_def)

lemma keyed_del [simp]: "keyed m \<Longrightarrow> keyed (m(i := None))"
  by (simp add: keyed_def)

lemma keyedD: "keyed m \<Longrightarrow> m i = Some d \<Longrightarrow> dev_Id d = i"
  by (simp add: keyed_def)

lemma keyed_store_all: "keyed m \<Longrightarrow> keyed (store_all dev_Id (\<lambda>d. d) ds m)"
  by (induction ds arbitrary: m) simp_all

lemma keyed_apply_event: "keyed m \<Longrightarrow> keyed (apply_event e m)"
  by (cases e) (simp_all add: keyed_store_all)

text \<open>The devices of a keyed map, in any order, build the map again.\<close>

lemma keyed_range_values:
  assumes "keyed m" and "range_order m ks"
  shows "map dev_Id (range_values m ks) = ks"
proof -
  have "map dev_Id (map (\<lambda>k. the (m k)) ks) = ks"
    using assms by (auto simp: keyed_def range_order_def intro!: map_idI)
  with assms(2) show ?thesis by (simp add: range_values_map range_order_set)
qed

lemma store_all_range_values:
  assumes "keyed m" and "range_order m ks" and "dom m' \<subseteq> dom m"
  shows "store_all dev_Id (\<lambda>d. d) (range_values m ks) m' = m"
proof
  fix i
  have ids: "map dev_Id (range_values m ks) = ks" by (rule keyed_range_values [OF assms(1,2)])
  show "store_all dev_Id (\<lambda>d. d) (range_values m ks) m' i = m i"
  proof (cases "m i")
    case None
    then have "i \<notin> dev_Id ` set (range_values m ks)"
      using ids assms(2) by (metis domIff image_set range_order_set)
    with None assms(3) show ?thesis by (auto simp: store_all_other)
  next
    case (Some d)
    then have "d \<in> set (range_values m ks)"
      using assms(2) by (auto simp: range_order_values ran_def)
    with store_all_distinct [of dev_Id "range_values m ks" d "\<lambda>d. d" m'] ids assms(1,2) Some
    show ?thesis by (simp add: keyed_def range_order_def)
  qed
qed

text \<open>The devices a filter keeps.\<close>

definition filter_map :: "device filter_func \<Rightarrow> device_map \<Rightarrow> device_map" where
  "filter_map f m = (\<lambda>k. case m k of None \<Rightarrow> None | Some v \<Rightarrow> if f v then Some v else None)"

lemma filter_map_Some_iff: "filter_map f m k = Some v \<longleftrightarrow> m k = Some v \<and> f v"
  by (auto simp: filter_map_def split: option.split)

lemma filter_map_Any [simp]: "filter_map Any m = m"
  by (auto simp: filter_map_def split: option.split)

lemma filter_map_empty [simp]: "filter_map f Map.empty = Map.empty"
  by (simp add: filter_map_def)

lemma filter_map_upd:
  "filter_map f (m(k \<mapsto> v)) = (filter_map f m)(k := if f v then Some v else None)"
  by (auto simp: filter_map_def)

lemma filter_map_del [simp]: "filter_map f (m(k := None)) = (filter_map f m)(k := None)"
  by (auto simp: filter_map_def)

lemma keyed_filter_map: "keyed m \<Longrightarrow> keyed (filter_map f m)"
  by (simp add: keyed_def filter_map_Some_iff)

section \<open>Runs of an operation\<close>

fun run_inputs :: "('i \<Rightarrow> 'd \<Rightarrow> 'd) \<Rightarrow> 'i list \<Rightarrow> 'd \<Rightarrow> 'd" where
  "run_inputs step [] d = d"
| "run_inputs step (i # is) d = run_inputs step is (step i d)"

fun inputs_ok :: "('i \<Rightarrow> 'd \<Rightarrow> 'd) \<Rightarrow> ('i \<Rightarrow> 'd \<Rightarrow> bool) \<Rightarrow> 'i list \<Rightarrow> 'd \<Rightarrow> bool" where
  "inputs_ok step ok [] d = True"
| "inputs_ok step ok (i # is) d = (ok i d \<and> inputs_ok step ok is (step i d))"

lemma inputs_ok_append:
  "inputs_ok step ok (is @ js) d \<longleftrightarrow> inputs_ok step ok is d \<and> inputs_ok step ok js (run_inputs step is d)"
  by (induction "is" arbitrary: d) simp_all

lemma run_inputs_invariant:
  assumes "inputs_ok step ok is d" and "P d" and "\<And>i d. ok i d \<Longrightarrow> P d \<Longrightarrow> P (step i d)"
  shows "P (run_inputs step is d)"
  using assms(1,2) by (induction "is" arbitrary: d) (auto intro: assms(3))

section \<open>What a subscriber of an event source relies on\<close>

text \<open>
  \<open>devices\<close> is the device set of the source and \<open>heard\<close> what each subscriber got. An input that
  is not \<open>ok\<close> is one the source makes no promise for. A first subscription brings an \<open>Init\<close> that
  covers the device set; later the subscriber hears one event for a change, or nothing.
\<close>

locale event_source =
  fixes devices :: "'d \<Rightarrow> device_map"
    and heard :: "'d \<Rightarrow> ('s, event) broadcast"
    and step :: "'i \<Rightarrow> 'd \<Rightarrow> 'd"
    and ok :: "'i \<Rightarrow> 'd \<Rightarrow> bool"
  assumes keyed_step: "ok i d \<Longrightarrow> keyed (devices d) \<Longrightarrow> keyed (devices (step i d))"
    and heard_first: "ok i d \<Longrightarrow> keyed (devices d) \<Longrightarrow> heard d s = None \<Longrightarrow>
      heard (step i d) s = Some evs \<Longrightarrow>
      \<exists>ds. evs = [Init ds] \<and> apply_event (Init ds) Map.empty = devices (step i d)"
    and heard_next: "ok i d \<Longrightarrow> keyed (devices d) \<Longrightarrow> heard d s = Some evs \<Longrightarrow>
      heard (step i d) s = Some evs' \<Longrightarrow>
      (evs' = evs \<and> devices (step i d) = devices d) \<or>
      (\<exists>e. evs' = evs @ [e] \<and> devices (step i d) = apply_event e (devices d))"
begin

text \<open>Every subscriber can rebuild the device set from what it heard.\<close>

definition in_sync :: "'d \<Rightarrow> bool" where
  "in_sync d \<longleftrightarrow> keyed (devices d) \<and> (\<forall>s evs. heard d s = Some evs \<longrightarrow>
     (\<exists>ds es. evs = Init ds # es) \<and> replay evs Map.empty = devices d)"

lemma in_sync_step:
  assumes "ok i d" and "in_sync d"
  shows "in_sync (step i d)"
  unfolding in_sync_def
proof (intro conjI allI impI)
  have keyed: "keyed (devices d)" using assms(2) by (simp add: in_sync_def)
  then show "keyed (devices (step i d))" by (rule keyed_step [OF assms(1)])
  fix s evs'
  assume now: "heard (step i d) s = Some evs'"
  have "(\<exists>ds es. evs' = Init ds # es) \<and> replay evs' Map.empty = devices (step i d)"
  proof (cases "heard d s")
    case None
    from heard_first [OF assms(1) keyed None now] show ?thesis by auto
  next
    case (Some evs)
    then have "\<exists>ds es. evs = Init ds # es" "replay evs Map.empty = devices d"
      using assms(2) by (simp_all add: in_sync_def)
    with heard_next [OF assms(1) keyed Some now] show ?thesis by auto
  qed
  then show "\<exists>ds es. evs' = Init ds # es" "replay evs' Map.empty = devices (step i d)" by blast+
qed

lemma in_sync_run:
  "inputs_ok step ok is d \<Longrightarrow> in_sync d \<Longrightarrow> in_sync (run_inputs step is d)"
  by (rule run_inputs_invariant [where ok = ok]) (auto intro: in_sync_step)

end

end
