(* ===== verification/Udev_Discovery.thy ===== *)
theory Udev_Discovery
  imports Udev_Source
begin

text \<open>
  The discovery of \<open>internal/udev/udev.go\<close>: the goroutine \<open>monitor\<close>, which owns the device map and
  handles one kernel event or one request at a time, and the public methods, which send requests
  to it. The multiplexer of the discovery is the broadcaster of \<open>Mux_Broadcast\<close>.
\<close>

section \<open>State\<close>

text \<open>
  The fields of \<open>udevDiscovery\<close>. The broadcaster keeps, per subscriber, all that its sink got from
  the monitor and from the multiplexer. \<open>disc_done\<close> says that \<open>done\<close> is closed, \<open>disc_retrying\<close> that
  the monitor is in the loop that reconnects to the kernel.
\<close>

record 's discovery =
  disc_state :: device_map
  disc_mux :: "('s, event) broadcast"
  disc_done :: bool
  disc_retrying :: bool

text \<open>The body of \<open>NewDiscovery\<close> before it starts the monitor.\<close>

definition NewDiscovery :: "'s discovery" where
  "NewDiscovery = \<lparr>disc_state = Map.empty, disc_mux = Map.empty, disc_done = False, disc_retrying = False\<rparr>"

text \<open>The deferred calls of \<open>monitor\<close>: \<open>done\<close> is closed and the multiplexer closes all sinks.\<close>

definition monitor_exit :: "'s discovery \<Rightarrow> 's discovery" where
  "monitor_exit d = d\<lparr>disc_done := True, disc_mux := Map.empty\<rparr>"

text \<open>
  The start of \<open>monitor\<close>: opening the netlink socket may fail, the enumeration may fail (\<open>None\<close>) and
  may have nil entries, which are skipped.
\<close>

fun enumerate_devices :: "libudev_device option list \<Rightarrow> device_map \<Rightarrow> device_map" where
  "enumerate_devices [] m = m"
| "enumerate_devices (None # ds) m = enumerate_devices ds m"
| "enumerate_devices (Some g # ds) m = enumerate_devices ds (m(Syspath (lu_values g) \<mapsto> Generic g))"

definition monitor_start ::
    "bool \<Rightarrow> libudev_device option list option \<Rightarrow> 's discovery \<Rightarrow> 's discovery" where
  "monitor_start opened enum d =
     (if \<not> opened then monitor_exit d
      else case enum of
          None \<Rightarrow> monitor_exit d
        | Some devs \<Rightarrow> d\<lparr>disc_state := enumerate_devices devs (disc_state d)\<rparr>)"

section \<open>The monitor\<close>

text \<open>
  What the \<open>select\<close> of the monitor receives: a device event with its action, a request, or an error
  of the netlink socket, after which the monitor tries to reconnect, once a second until it succeeds,
  and keeps its state. The flag of a \<open>Retry\<close> says whether it does. The flag of a
  device event says whether the multiplexer accepts the event before the timeout of its \<open>Submit\<close>;
  the list of a subscription is the order in which \<open>Init\<close> ranges over the device map.
\<close>

datatype 's monitor_input =
    DeviceEvent string libudev_device bool
  | StateRequest "device filter_func"
  | NewSub 's "string list"
  | StopRequest
  | MonitorError
  | Retry bool

datatype 's monitor_reply = NoReply | StateReply device_map | CancelReply 's | StopReply

fun submit_event :: "bool \<Rightarrow> event \<Rightarrow> 's discovery \<Rightarrow> 's discovery" where
  "submit_event accepted e d = (if accepted then d\<lparr>disc_mux := publish e (disc_mux d)\<rparr> else d)"

definition heard_before :: "('s, event) broadcast \<Rightarrow> 's \<Rightarrow> event list" where
  "heard_before b s = (case b s of None \<Rightarrow> [] | Some evs \<Rightarrow> evs)"

fun monitor_device :: "string \<Rightarrow> libudev_device \<Rightarrow> bool \<Rightarrow> 's discovery \<Rightarrow> 's discovery" where
  "monitor_device action g accepted d =
     (let i = Syspath (lu_values g)
      in if action = ''add'' \<or> action = ''online'' then
           submit_event accepted (Added (Generic g)) (d\<lparr>disc_state := (disc_state d)(i \<mapsto> Generic g)\<rparr>)
         else if action = ''remove'' \<or> action = ''offline'' then
           (case disc_state d i of
              None \<Rightarrow> d
            | Some dev \<Rightarrow>
                submit_event accepted (Removed dev) (d\<lparr>disc_state := (disc_state d)(i := None)\<rparr>))
         else d)"

fun monitor_step :: "'s monitor_input \<Rightarrow> 's discovery \<Rightarrow> 's discovery \<times> 's monitor_reply" where
  "monitor_step (DeviceEvent action g accepted) d = (monitor_device action g accepted d, NoReply)"
| "monitor_step (StateRequest f) d = (d, StateReply (filter_map f (disc_state d)))"
| "monitor_step (NewSub s order) d =
     (d\<lparr>disc_mux := join_member s
          (heard_before (disc_mux d) s @ [Init (range_values (disc_state d) order)]) (disc_mux d)\<rparr>,
      CancelReply s)"
| "monitor_step StopRequest d = (monitor_exit d, StopReply)"
| "monitor_step MonitorError d = (d\<lparr>disc_retrying := True\<rparr>, NoReply)"
| "monitor_step (Retry connected) d = (d\<lparr>disc_retrying := disc_retrying d \<and> \<not> connected\<rparr>, NoReply)"

text \<open>
  After \<open>done\<close> is closed the monitor is gone and handles nothing, and while it tries to reconnect it
  handles no event and no request.
\<close>

fun monitor_busy :: "'s monitor_input \<Rightarrow> 's discovery \<Rightarrow> bool" where
  "monitor_busy (Retry connected) d \<longleftrightarrow> disc_done d"
| "monitor_busy i d \<longleftrightarrow> disc_done d \<or> disc_retrying d"

definition discovery_step :: "'s monitor_input \<Rightarrow> 's discovery \<Rightarrow> 's discovery" where
  "discovery_step i d = (if monitor_busy i d then d else fst (monitor_step i d))"

section \<open>The public methods\<close>

text \<open>
  Each method sends a request, or leaves through \<open>done\<close>. While the monitor tries to reconnect, a method
  that sends a request waits; what is given here is its effect and its answer once the monitor takes
  the request (the device map does not change before).
\<close>

definition disc_State :: "device filter_func \<Rightarrow> 's discovery \<Rightarrow> device_map" where
  "disc_State f d =
     (if disc_done d then Map.empty
      else case snd (monitor_step (StateRequest f) d) of StateReply m \<Rightarrow> m | _ \<Rightarrow> Map.empty)"

definition disc_DeviceById :: "string \<Rightarrow> 's discovery \<Rightarrow> device option" where
  "disc_DeviceById i d = disc_state d i"

definition disc_Subscribe :: "'s \<Rightarrow> string list \<Rightarrow> 's discovery \<Rightarrow> 's discovery \<times> 's option" where
  "disc_Subscribe s order d =
     (if disc_done d then (d, None)
      else case monitor_step (NewSub s order) d of
          (d', CancelReply c) \<Rightarrow> (d', Some c)
        | (d', _) \<Rightarrow> (d', None))"

text \<open>The cancel function that a live \<open>Subscribe\<close> returned: the multiplexer drops and closes the sink.\<close>

definition disc_cancel :: "'s \<Rightarrow> 's discovery \<Rightarrow> 's discovery" where
  "disc_cancel s d = d\<lparr>disc_mux := leave_member s (disc_mux d)\<rparr>"

definition disc_Close :: "'s discovery \<Rightarrow> 's discovery" where
  "disc_Close d = (if disc_done d then d else fst (monitor_step StopRequest d))"

lemma disc_State_open: "\<not> disc_done d \<Longrightarrow> disc_State f d = filter_map f (disc_state d)"
  by (simp add: disc_State_def)

lemma disc_Subscribe_step: "\<not> disc_retrying d \<Longrightarrow> fst (disc_Subscribe s order d) = discovery_step (NewSub s order) d"
  by (simp add: disc_Subscribe_def discovery_step_def)

lemma disc_Close_step: "\<not> disc_retrying d \<Longrightarrow> disc_Close d = discovery_step StopRequest d"
  by (simp add: disc_Close_def discovery_step_def)

lemma disc_Close_idem: "disc_Close (disc_Close d) = disc_Close d"
  by (simp add: disc_Close_def monitor_exit_def)

section \<open>The discovery is an event source\<close>

text \<open>
  Inputs with a promise: an event that somebody waits for is accepted by the multiplexer, and
  the order of an \<open>Init\<close> is one of the device map.
\<close>

fun monitor_ok :: "'s monitor_input \<Rightarrow> 's discovery \<Rightarrow> bool" where
  "monitor_ok (DeviceEvent action g accepted) d = (accepted \<or> disc_mux d = Map.empty)"
| "monitor_ok (NewSub s order) d = range_order (disc_state d) order"
| "monitor_ok _ d = True"

lemma monitor_device_cases:
  obtains (added) "monitor_device action g acc d =
      submit_event acc (Added (Generic g)) (d\<lparr>disc_state := (disc_state d)(Syspath (lu_values g) \<mapsto> Generic g)\<rparr>)"
  | (removed) dev where "disc_state d (Syspath (lu_values g)) = Some dev" and
      "monitor_device action g acc d =
      submit_event acc (Removed dev) (d\<lparr>disc_state := (disc_state d)(Syspath (lu_values g) := None)\<rparr>)"
  | (ignored) "monitor_device action g acc d = d"
proof -
  consider "action = ''add'' \<or> action = ''online''"
    | "\<not> (action = ''add'' \<or> action = ''online'')" "action = ''remove'' \<or> action = ''offline''"
    | "\<not> (action = ''add'' \<or> action = ''online'')" "\<not> (action = ''remove'' \<or> action = ''offline'')"
    by blast
  then show thesis
  proof cases
    case 1
    show thesis by (rule added) (simp only: monitor_device.simps Let_def 1 if_True simp_thms)
  next
    case 2
    show thesis
    proof (cases "disc_state d (Syspath (lu_values g))")
      case None
      show thesis by (rule ignored) (simp only: monitor_device.simps Let_def 2 None if_True if_False
          simp_thms option.case)
    next
      case (Some dev)
      show thesis by (rule removed [OF Some]) (simp only: monitor_device.simps Let_def 2 Some if_True
          if_False simp_thms option.case)
    qed
  next
    case 3
    show thesis by (rule ignored) (simp only: monitor_device.simps Let_def 3 if_False simp_thms)
  qed
qed

interpretation udev: event_source disc_state disc_mux discovery_step monitor_ok
proof unfold_locales
  fix i :: "'a monitor_input" and d :: "'a discovery"
  assume "keyed (disc_state d)"
  then show "keyed (disc_state (discovery_step i d))"
  proof (cases i)
    case (DeviceEvent action g acc)
    with \<open>keyed (disc_state d)\<close> keyed_upd [of "disc_state d" "Generic g"] show ?thesis
      by (cases rule: monitor_device_cases [of action g acc d]) (simp_all add: discovery_step_def)
  qed (simp_all add: discovery_step_def monitor_exit_def)
next
  fix i :: "'a monitor_input" and d :: "'a discovery" and s evs
  assume ok: "monitor_ok i d" and keyed: "keyed (disc_state d)" and none: "disc_mux d s = None"
    and some: "disc_mux (discovery_step i d) s = Some evs"
  show "\<exists>ds. evs = [Init ds] \<and> apply_event (Init ds) Map.empty = disc_state (discovery_step i d)"
  proof (cases i)
    case (DeviceEvent action g acc)
    with none some show ?thesis
      by (cases rule: monitor_device_cases [of action g acc d])
        (simp_all add: discovery_step_def split: if_splits)
  next
    case (NewSub s' order)
    have "store_all dev_Id (\<lambda>d. d) (range_values (disc_state d) order) Map.empty = disc_state d"
      using NewSub ok keyed by (intro store_all_range_values) simp_all
    with NewSub none some show ?thesis
      by (auto simp: discovery_step_def heard_before_def split: if_splits)
  qed (use none some in \<open>simp_all add: discovery_step_def monitor_exit_def split: if_splits\<close>)
next
  fix i :: "'a monitor_input" and d :: "'a discovery" and s evs evs'
  assume ok: "monitor_ok i d" and keyed: "keyed (disc_state d)" and old: "disc_mux d s = Some evs"
    and new: "disc_mux (discovery_step i d) s = Some evs'"
  show "(evs' = evs \<and> disc_state (discovery_step i d) = disc_state d) \<or>
    (\<exists>e. evs' = evs @ [e] \<and> disc_state (discovery_step i d) = apply_event e (disc_state d))"
  proof (cases "monitor_busy i d")
    case True
    with old new show ?thesis by (simp add: discovery_step_def)
  next
    case False
    show ?thesis
    proof (cases i)
      case (DeviceEvent action g acc)
      with ok old have acc: "acc" by auto
      show ?thesis
      proof (cases rule: monitor_device_cases [of action g acc d])
        case added
        with DeviceEvent acc False old new show ?thesis
          by (intro disjI2 exI [of _ "Added (Generic g)"]) (simp add: discovery_step_def)
      next
        case (removed dev)
        with DeviceEvent acc False old new keyedD [OF keyed removed(1)] show ?thesis
          by (intro disjI2 exI [of _ "Removed dev"]) (simp add: discovery_step_def)
      next
        case ignored
        with DeviceEvent False old new show ?thesis by (simp add: discovery_step_def)
      qed
    next
      case (NewSub s' order)
      have "store_all dev_Id (\<lambda>d. d) (range_values (disc_state d) order) (disc_state d) = disc_state d"
        using NewSub ok keyed by (intro store_all_range_values) simp_all
      with NewSub False old new show ?thesis
        by (auto simp: discovery_step_def heard_before_def split: if_splits)
    qed (use False old new in \<open>simp_all add: discovery_step_def monitor_exit_def\<close>)
  qed
qed

lemma keyed_enumerate: "keyed m \<Longrightarrow> keyed (enumerate_devices devs m)"
proof (induction devs m rule: enumerate_devices.induct)
  case (3 g ds m)
  have "keyed (m(Syspath (lu_values g) \<mapsto> Generic g))"
    using keyed_upd [OF "3.prems", of "Generic g"] by simp
  from "3.IH" [OF this] show ?case by (simp add: fun_upd_def)
qed simp_all

definition discovery_run :: "libudev_device option list \<Rightarrow> 's monitor_input list \<Rightarrow> 's discovery" where
  "discovery_run devs is = run_inputs discovery_step is (monitor_start True (Some devs) NewDiscovery)"

definition discovery_inputs_ok :: "libudev_device option list \<Rightarrow> 's monitor_input list \<Rightarrow> bool" where
  "discovery_inputs_ok devs is =
     inputs_ok discovery_step monitor_ok is (monitor_start True (Some devs) NewDiscovery)"

lemma discovery_run_in_sync: "discovery_inputs_ok devs is \<Longrightarrow> udev.in_sync (discovery_run devs is)"
  unfolding discovery_inputs_ok_def discovery_run_def
  by (rule udev.in_sync_run)
    (simp_all add: udev.in_sync_def monitor_start_def NewDiscovery_def keyed_enumerate)

text \<open>Subscribers are in sync, and removals are announced with the stored device.\<close>

definition removals_ok :: "'s discovery \<Rightarrow> bool" where
  "removals_ok d \<longleftrightarrow> udev.in_sync d \<and>
     (\<forall>s evs. disc_mux d s = Some evs \<longrightarrow> removals_known evs Map.empty)"

lemma removals_ok_step:
  assumes "monitor_ok i d" and "removals_ok d"
  shows "removals_ok (discovery_step i d)"
proof -
  have sync: "udev.in_sync d" and keyed: "keyed (disc_state d)"
    and known: "\<And>s evs. disc_mux d s = Some evs \<Longrightarrow>
        removals_known evs Map.empty \<and> replay evs Map.empty = disc_state d"
    using assms(2) by (simp_all add: removals_ok_def udev.in_sync_def)
  have "removals_known evs' Map.empty" if new: "disc_mux (discovery_step i d) s = Some evs'" for s evs'
  proof (cases "monitor_busy i d")
    case True
    with known new show ?thesis by (simp add: discovery_step_def)
  next
    case False
    show ?thesis
    proof (cases i)
      case (DeviceEvent action g acc)
      show ?thesis
      proof (cases rule: monitor_device_cases [of action g acc d])
        case (removed dev)
        with DeviceEvent False new known keyedD [OF keyed removed(1)] show ?thesis
          by (auto simp: discovery_step_def removals_known_append split: if_splits)
      qed (use DeviceEvent False new known in
          \<open>auto simp: discovery_step_def removals_known_append split: if_splits\<close>)
    next
      case (NewSub s' order)
      with False new known show ?thesis
        by (auto simp: discovery_step_def heard_before_def removals_known_append
            split: if_splits option.splits)
    qed (use False new known in \<open>auto simp: discovery_step_def monitor_exit_def\<close>)
  qed
  with udev.in_sync_step [OF assms(1) sync] show ?thesis by (simp add: removals_ok_def)
qed

lemma discovery_run_removals_ok:
  assumes "discovery_inputs_ok devs is"
  shows "removals_ok (discovery_run devs is)"
  using assms unfolding discovery_inputs_ok_def discovery_run_def
proof (rule run_inputs_invariant [where ok = monitor_ok])
  show "removals_ok (monitor_start True (Some devs) NewDiscovery)"
    by (simp add: removals_ok_def udev.in_sync_def monitor_start_def NewDiscovery_def keyed_enumerate)
qed (rule removals_ok_step)

lemma removals_ok_log:
  assumes "removals_ok d" and "disc_mux d s = Some evs"
  shows "removals_known evs Map.empty" and "replay evs Map.empty = disc_state d"
  using assms by (auto simp: removals_ok_def udev.in_sync_def)

lemma discovery_log:
  assumes "discovery_inputs_ok devs is" and "disc_mux (discovery_run devs is) s = Some evs"
  shows "\<exists>ds es. evs = Init ds # es" and "removals_known evs Map.empty"
    and "replay evs Map.empty = disc_state (discovery_run devs is)"
  using discovery_run_removals_ok [OF assms(1)] assms(2) by (auto simp: removals_ok_def udev.in_sync_def)

section \<open>Properties\<close>

definition demo_disk :: libudev_device where
  "demo_disk = LibudevDevice \<lparr>Syspath = ''sda'', lu_Subsystem = ''block'', Devtype = ''disk'',
     Devnode = ''sda'', Devlinks = {}, PropertyValue = (\<lambda>_. []), lu_Properties = Map.empty,
     SysattrValue = (\<lambda>_. []), Sysattrs = {}, lu_Tags = {}\<rparr> None"

lemma demo_disk_path: "Syspath (lu_values demo_disk) = ''sda''"
  by (simp add: demo_disk_def)

text \<open>
  C3: A subscriber has the whole picture. Whatever events and requests the monitor handles, as long
  as the multiplexer accepts the events, each subscriber's first event is an \<open>Init\<close>, and its events
  replayed give exactly the device map that \<open>State\<close> reports: nothing is missed and nothing is
  stale between the enumeration, the \<open>Init\<close> and the later events. Every \<open>Removed\<close> carries the
  device that was stored, not the one of the kernel event.
\<close>
theorem discovery_subscriber_in_sync:
  assumes "discovery_inputs_ok devs is" and "disc_mux (discovery_run devs is) s = Some evs"
  shows "(\<exists>ds es. evs = Init ds # es) \<and> removals_known evs Map.empty \<and>
    (\<not> disc_done (discovery_run devs is) \<longrightarrow>
      replay evs Map.empty = disc_State Any (discovery_run devs is))"
  using discovery_log [OF assms] by (simp add: disc_State_open)

lemma discovery_subscriber_in_sync_witness:
  "replay [Init [Generic demo_disk], Removed (Generic demo_disk)] Map.empty =
     disc_State Any (discovery_run [None, Some demo_disk]
       [NewSub (7::nat) [''sda''], DeviceEvent ''remove'' demo_disk True])"
proof -
  let ?is = "[NewSub (7::nat) [''sda''], DeviceEvent ''remove'' demo_disk True]"
  have ok: "discovery_inputs_ok [None, Some demo_disk] ?is"
    by (simp add: discovery_inputs_ok_def monitor_start_def NewDiscovery_def range_order_def
        discovery_step_def demo_disk_path)
  have heard: "disc_mux (discovery_run [None, Some demo_disk] ?is) 7 =
      Some [Init [Generic demo_disk], Removed (Generic demo_disk)]"
    by (simp add: discovery_run_def monitor_start_def NewDiscovery_def discovery_step_def
        demo_disk_path heard_before_def)
  have "\<not> disc_done (discovery_run [None, Some demo_disk] ?is)"
    by (simp add: discovery_run_def monitor_start_def NewDiscovery_def discovery_step_def
        demo_disk_path)
  with discovery_subscriber_in_sync [OF ok heard] show ?thesis by blast
qed

text \<open>
  A lost event is not made up for. When the multiplexer does not take an \<open>Added\<close> event within its
  timeout, the monitor only logs the error: the device is in the state of the discovery, and the
  subscribers that were registered do not hear of it.
\<close>
lemma discovery_dropped_event:
  assumes "\<not> disc_done d" and "\<not> disc_retrying d" and "disc_mux d s = Some evs"
    and "replay evs Map.empty = disc_state d"
    and "disc_state d (Syspath (lu_values g)) = None"
  shows "let d' = discovery_step (DeviceEvent ''add'' g False) d in
    disc_DeviceById (Syspath (lu_values g)) d' = Some (Generic g) \<and> disc_mux d' s = Some evs \<and>
    replay evs Map.empty (Syspath (lu_values g)) = None"
  using assms by (simp add: discovery_step_def disc_DeviceById_def)

lemma discovery_dropped_event_witness:
  "disc_mux (discovery_step (DeviceEvent ''add'' demo_disk False)
     (discovery_run [] [NewSub (7::nat) []])) 7 = Some [Init []]"
  using discovery_dropped_event [of "discovery_run [] [NewSub (7::nat) []]" 7 "[Init []]" demo_disk]
  by (simp add: discovery_run_def monitor_start_def NewDiscovery_def discovery_step_def heard_before_def
      Let_def)

end
