(* ===== verification/Udev_Slice.thy ===== *)
theory Udev_Slice
  imports Udev_Discovery
begin

text \<open>
  Slices, \<open>makeSlice\<close> of \<open>internal/udev/udev.go\<close>: the goroutine that keeps the devices of an event
  source that match a filter and publishes the matching set whenever it changes, and the methods
  \<open>Subscribe\<close> and \<open>Close\<close>.
\<close>

section \<open>State and steps\<close>

text \<open>
  The fields of \<open>udevSlice\<close>; the broadcaster keeps per subscriber the snapshots its sink got.
\<close>

record 's udev_slice =
  sl_state :: device_map
  sl_filter :: "device filter_func"
  sl_mux :: "('s, device list) broadcast"
  sl_done :: bool

definition makeSlice :: "device filter_func \<Rightarrow> 's udev_slice" where
  "makeSlice f = \<lparr>sl_state = Map.empty, sl_filter = f, sl_mux = Map.empty, sl_done = False\<rparr>"

definition sliceSnapshot :: "string list \<Rightarrow> device_map \<Rightarrow> device list" where
  "sliceSnapshot order m = range_values m order"

text \<open>The loop over the devices of an \<open>Init\<close>.\<close>

fun init_devices :: "device filter_func \<Rightarrow> device list \<Rightarrow> device_map \<Rightarrow> device_map" where
  "init_devices f [] m = m"
| "init_devices f (d # ds) m = init_devices f ds (if f d then m(dev_Id d \<mapsto> d) else m)"

text \<open>
  \<open>Submit\<close> of a snapshot; the flag says whether the multiplexer accepts it before the timeout.
\<close>

definition submit_snapshot :: "bool \<Rightarrow> string list \<Rightarrow> 's udev_slice \<Rightarrow> 's udev_slice" where
  "submit_snapshot accepted order sl =
     (if accepted then sl\<lparr>sl_mux := publish (sliceSnapshot order (sl_state sl)) (sl_mux sl)\<rparr> else sl)"

fun slice_event :: "event \<Rightarrow> bool \<Rightarrow> string list \<Rightarrow> 's udev_slice \<Rightarrow> 's udev_slice" where
  "slice_event (Init ds) accepted order sl =
     submit_snapshot accepted order (sl\<lparr>sl_state := init_devices (sl_filter sl) ds (sl_state sl)\<rparr>)"
| "slice_event (Added d) accepted order sl =
     (if sl_filter sl d
      then submit_snapshot accepted order (sl\<lparr>sl_state := (sl_state sl)(dev_Id d \<mapsto> d)\<rparr>)
      else sl)"
| "slice_event (Removed d) accepted order sl =
     (case sl_state sl (dev_Id d) of
        None \<Rightarrow> sl
      | Some _ \<Rightarrow> submit_snapshot accepted order (sl\<lparr>sl_state := (sl_state sl)(dev_Id d := None)\<rparr>))"

text \<open>
  A subscription: the sink is registered, then gets the current snapshot, and no event is handled
  in between. When the event channel is closed the goroutine ends, the multiplexer closes all sinks
  and a later \<open>Subscribe\<close> closes its sink.
\<close>

datatype 's slice_input =
    SliceEvent event bool "string list"
  | SliceSubscribe 's "string list"
  | SliceCancel 's
  | SliceEventsClosed

definition snapshots_before :: "('s, device list) broadcast \<Rightarrow> 's \<Rightarrow> device list list" where
  "snapshots_before b s = (case b s of None \<Rightarrow> [] | Some xs \<Rightarrow> xs)"

definition slice_request :: "'s \<Rightarrow> string list \<Rightarrow> 's udev_slice \<Rightarrow> 's udev_slice" where
  "slice_request s order sl = sl\<lparr>sl_mux := join_member s
     (snapshots_before (sl_mux sl) s @ [sliceSnapshot order (sl_state sl)]) (sl_mux sl)\<rparr>"

definition slice_Subscribe :: "'s \<Rightarrow> string list \<Rightarrow> 's udev_slice \<Rightarrow> 's udev_slice" where
  "slice_Subscribe s order sl = (if sl_done sl then sl else slice_request s order sl)"

definition slice_exit :: "'s udev_slice \<Rightarrow> 's udev_slice" where
  "slice_exit sl = sl\<lparr>sl_mux := Map.empty, sl_done := True\<rparr>"

fun slice_step :: "'s slice_input \<Rightarrow> 's udev_slice \<Rightarrow> 's udev_slice" where
  "slice_step (SliceEvent ev accepted order) sl =
     (if sl_done sl then sl else slice_event ev accepted order sl)"
| "slice_step (SliceSubscribe s order) sl = slice_Subscribe s order sl"
| "slice_step (SliceCancel s) sl = sl\<lparr>sl_mux := leave_member s (sl_mux sl)\<rparr>"
| "slice_step SliceEventsClosed sl = slice_exit sl"

section \<open>What a slice holds\<close>

lemma sl_state_submit [simp]: "sl_state (submit_snapshot a order sl) = sl_state sl"
  by (simp add: submit_snapshot_def)

lemma sl_filter_submit [simp]: "sl_filter (submit_snapshot a order sl) = sl_filter sl"
  by (simp add: submit_snapshot_def)

lemma init_devices_store_all: "init_devices f ds m = store_all dev_Id (\<lambda>d. d) (filter f ds) m"
  by (induction ds arbitrary: m) simp_all

text \<open>The state of a slice after an event does not depend on what its multiplexer accepts.\<close>

fun slice_view :: "device filter_func \<Rightarrow> event \<Rightarrow> device_map \<Rightarrow> device_map" where
  "slice_view f (Init ds) m = init_devices f ds m"
| "slice_view f (Added d) m = (if f d then m(dev_Id d \<mapsto> d) else m)"
| "slice_view f (Removed d) m = m(dev_Id d := None)"

lemma sl_state_event [simp]:
  "sl_state (slice_event ev a order sl) = slice_view (sl_filter sl) ev (sl_state sl)"
  by (cases ev) (auto split: option.split)

lemma sl_filter_event [simp]: "sl_filter (slice_event ev a order sl) = sl_filter sl"
  by (cases ev) (auto split: option.split)

text \<open>The filter does not change its mind about an id while these events go by.\<close>

definition filter_stable :: "device filter_func \<Rightarrow> event list \<Rightarrow> bool" where
  "filter_stable f evs \<longleftrightarrow>
     (\<forall>d \<in> set (concat (map event_devices evs)). \<forall>d' \<in> set (concat (map event_devices evs)).
        dev_Id d = dev_Id d' \<longrightarrow> f d = f d')"

text \<open>An id in a map has a verdict; events of that id agree with it.\<close>

definition agrees :: "device filter_func \<Rightarrow> device_map \<Rightarrow> event \<Rightarrow> bool" where
  "agrees f m e \<longleftrightarrow> (\<forall>d \<in> set (event_devices e). \<forall>d'. m (dev_Id d) = Some d' \<longrightarrow> f d' = f d)"

lemma filter_map_store_all:
  assumes "\<And>d d'. d \<in> set ds \<Longrightarrow> m (dev_Id d) = Some d' \<Longrightarrow> f d' = f d"
    and "\<And>d d'. d \<in> set ds \<Longrightarrow> d' \<in> set ds \<Longrightarrow> dev_Id d = dev_Id d' \<Longrightarrow> f d = f d'"
  shows "filter_map f (store_all dev_Id (\<lambda>d. d) ds m) =
    store_all dev_Id (\<lambda>d. d) (filter f ds) (filter_map f m)"
  using assms
proof (induction ds arbitrary: m)
  case Nil
  show ?case by simp
next
  case (Cons d ds)
  have IH: "filter_map f (store_all dev_Id (\<lambda>d. d) ds (m(dev_Id d \<mapsto> d))) =
      store_all dev_Id (\<lambda>d. d) (filter f ds) (filter_map f (m(dev_Id d \<mapsto> d)))"
  proof (rule Cons.IH)
    fix x x' assume x: "x \<in> set ds" and "(m(dev_Id d \<mapsto> d)) (dev_Id x) = Some x'"
    then consider "dev_Id d = dev_Id x" "x' = d" | "m (dev_Id x) = Some x'"
      by (cases "dev_Id x = dev_Id d") simp_all
    then show "f x' = f x" using Cons.prems x by cases (metis list.set_intros)+
  next
    fix x y assume "x \<in> set ds" and "y \<in> set ds" and "dev_Id x = dev_Id y"
    with Cons.prems(2) [of x y] show "f x = f y" by simp
  qed
  have "(filter_map f m)(dev_Id d := None) = filter_map f m" if "\<not> f d"
    using that Cons.prems(1) [of d] by (auto simp: filter_map_def fun_eq_iff split: option.splits)
  with IH show ?case by (simp add: filter_map_upd)
qed

lemma slice_view_filter_map:
  assumes "agrees f m e" and "filter_stable f [e]"
  shows "slice_view f e (filter_map f m) = filter_map f (apply_event e m)"
proof (cases e)
  case (Init ds)
  have "filter_map f (store_all dev_Id (\<lambda>d. d) ds m) =
      store_all dev_Id (\<lambda>d. d) (filter f ds) (filter_map f m)"
  proof (rule filter_map_store_all)
    fix d d' assume "d \<in> set ds" and "m (dev_Id d) = Some d'"
    with assms(1) Init show "f d' = f d" by (metis agrees_def event_devices.simps(1))
  next
    fix d d' assume "d \<in> set ds" and "d' \<in> set ds" and "dev_Id d = dev_Id d'"
    moreover have "set (concat (map event_devices [e])) = set ds" using Init by simp
    ultimately show "f d = f d'" using assms(2) unfolding filter_stable_def by blast
  qed
  with Init show ?thesis by (simp add: init_devices_store_all)
next
  case (Added d)
  with assms(1) show ?thesis
    by (auto simp: filter_map_upd agrees_def filter_map_def fun_eq_iff split: option.split)
next
  case (Removed d)
  then show ?thesis by simp
qed

definition slice_states :: "device filter_func \<Rightarrow> event list \<Rightarrow> device_map" where
  "slice_states f evs = fold (slice_view f) evs Map.empty"

lemma slice_states_replay:
  "filter_stable f evs \<Longrightarrow> slice_states f evs = filter_map f (replay evs Map.empty)"
proof (induction evs rule: rev_induct)
  case Nil
  then show ?case by (simp add: slice_states_def)
next
  case (snoc e evs)
  have stable: "filter_stable f evs" "filter_stable f [e]"
    using snoc.prems by (auto simp: filter_stable_def)
  have "agrees f (replay evs Map.empty) e"
    unfolding agrees_def
  proof (intro ballI allI impI)
    fix d d' assume d: "d \<in> set (event_devices e)" and "replay evs Map.empty (dev_Id d) = Some d'"
    from replay_from_events [OF this(2)] d
    have "d' \<in> set (concat (map event_devices (evs @ [e])))"
      and "d \<in> set (concat (map event_devices (evs @ [e])))" and "dev_Id d' = dev_Id d" by simp_all
    with snoc.prems show "f d' = f d" unfolding filter_stable_def by blast
  qed
  with slice_view_filter_map [OF _ stable(2)] snoc.IH [OF stable(1)] show ?case
    by (simp add: slice_states_def)
qed

section \<open>Runs of a slice\<close>

text \<open>The events among the inputs that the slice handled.\<close>

fun handled :: "'s slice_input list \<Rightarrow> event list" where
  "handled [] = []"
| "handled (SliceEvent ev a order # is) = ev # handled is"
| "handled (SliceEventsClosed # is) = []"
| "handled (_ # is) = handled is"

lemma slice_run_done: "sl_done sl \<Longrightarrow> sl_state (run_inputs slice_step is sl) = sl_state sl"
proof (induction "is" arbitrary: sl)
  case (Cons i "is")
  then have "sl_done (slice_step i sl)" "sl_state (slice_step i sl) = sl_state sl"
    by (cases i; simp add: slice_Subscribe_def slice_request_def slice_exit_def)+
  with Cons.IH [of "slice_step i sl"] show ?case by simp
qed simp

lemma sl_done_event [simp]: "sl_done (slice_event ev a order sl) = sl_done sl"
  by (cases ev) (auto simp: submit_snapshot_def split: option.split)

lemma slice_run_state:
  "\<not> sl_done sl \<Longrightarrow> sl_state (run_inputs slice_step is sl) = fold (slice_view (sl_filter sl)) (handled is) (sl_state sl)"
proof (induction "is" arbitrary: sl rule: handled.induct)
  case (3 "is")
  then show ?case by (simp add: slice_run_done slice_exit_def)
qed (simp_all add: slice_Subscribe_def slice_request_def)

text \<open>A list of devices that is a snapshot of the map.\<close>

definition snapshot_of :: "device_map \<Rightarrow> device list \<Rightarrow> bool" where
  "snapshot_of m ds \<longleftrightarrow> (\<exists>order. range_order m order \<and> ds = range_values m order)"

text \<open>Inputs whose snapshots are accepted and range over the state the slice has then.\<close>

fun slice_ok :: "'s slice_input \<Rightarrow> 's udev_slice \<Rightarrow> bool" where
  "slice_ok (SliceEvent ev accepted order) sl =
     (accepted \<and> range_order (slice_view (sl_filter sl) ev (sl_state sl)) order)"
| "slice_ok (SliceSubscribe s order) sl = range_order (sl_state sl) order"
| "slice_ok _ sl = True"

definition subscribers_current :: "'s udev_slice \<Rightarrow> bool" where
  "subscribers_current sl \<longleftrightarrow>
     (\<forall>s snaps. sl_mux sl s = Some snaps \<longrightarrow> snaps \<noteq> [] \<and> snapshot_of (sl_state sl) (last snaps))"

lemma submit_snapshot_current:
  "range_order (sl_state sl) order \<Longrightarrow> subscribers_current (submit_snapshot True order sl)"
  by (auto simp: subscribers_current_def submit_snapshot_def sliceSnapshot_def snapshot_of_def)

lemma subscribers_current_step:
  assumes "slice_ok i sl" and "subscribers_current sl"
  shows "subscribers_current (slice_step i sl)"
proof (cases i)
  case (SliceEvent ev acc order)
  with assms show ?thesis
    by (cases ev) (auto intro!: submit_snapshot_current split: option.split)
next
  case (SliceSubscribe s order)
  with assms have "snapshot_of (sl_state sl) (sliceSnapshot order (sl_state sl))"
    by (auto simp: snapshot_of_def sliceSnapshot_def)
  with SliceSubscribe assms(2) show ?thesis
    by (auto simp: subscribers_current_def slice_Subscribe_def slice_request_def)
qed (use assms(2) in \<open>auto simp: subscribers_current_def slice_exit_def\<close>)

section \<open>Properties\<close>

text \<open>
  A slice is the filtered device set. When a slice has handled the events that its subscription
  to the discovery brought, and the filter did not change its verdict on an id, the slice holds
  exactly what \<open>State\<close> of the discovery reports for that filter.
\<close>
theorem slice_is_filtered_state:
  assumes "discovery_inputs_ok devs is" and "disc_mux (discovery_run devs is) s = Some evs"
    and "\<not> disc_done (discovery_run devs is)" and "handled js = evs" and "filter_stable f evs"
  shows "sl_state (run_inputs slice_step js (makeSlice f)) = disc_State f (discovery_run devs is)"
proof -
  have "sl_state (run_inputs slice_step js (makeSlice f)) = slice_states f evs"
    using slice_run_state [of "makeSlice f" js] assms(4) by (simp add: makeSlice_def slice_states_def)
  also have "\<dots> = filter_map f (replay evs Map.empty)" by (rule slice_states_replay [OF assms(5)])
  also have "replay evs Map.empty = disc_state (discovery_run devs is)"
    by (rule discovery_log(3) [OF assms(1,2)])
  finally show ?thesis using assms(3) by (simp add: disc_State_open)
qed

lemma slice_is_filtered_state_witness:
  "sl_state (run_inputs slice_step [SliceEvent (Init [Generic demo_disk]) True [''sda'']]
       (makeSlice (\<lambda>d. Subsystem d = ''net'') :: nat udev_slice)) =
     disc_State (\<lambda>d. Subsystem d = ''net'')
       (discovery_run [Some demo_disk] [NewSub (7::nat) [''sda'']])"
proof (rule slice_is_filtered_state [where s = 7 and evs = "[Init [Generic demo_disk]]"])
  show "discovery_inputs_ok [Some demo_disk] [NewSub (7::nat) [''sda'']]"
    by (simp add: discovery_inputs_ok_def monitor_start_def NewDiscovery_def range_order_def
        demo_disk_path)
qed (simp_all add: discovery_run_def monitor_start_def NewDiscovery_def discovery_step_def
      demo_disk_path heard_before_def filter_stable_def)

text \<open>
  C30: Subscribers of a slice are current. However events, subscriptions and cancellations interleave,
  as long as the multiplexer of the slice accepts the snapshots, the last snapshot that each
  subscriber got lists exactly the devices the slice holds now; a subscriber has one from the start.
\<close>
theorem slice_subscribers_current:
  assumes "inputs_ok slice_step slice_ok js (makeSlice f)"
    and "sl_mux (run_inputs slice_step js (makeSlice f)) s = Some snaps"
  shows "snaps \<noteq> [] \<and> snapshot_of (sl_state (run_inputs slice_step js (makeSlice f))) (last snaps)"
proof -
  have "subscribers_current (makeSlice f)" by (simp add: subscribers_current_def makeSlice_def)
  with assms(1) have "subscribers_current (run_inputs slice_step js (makeSlice f))"
    by (rule run_inputs_invariant) (rule subscribers_current_step)
  with assms(2) show ?thesis by (simp add: subscribers_current_def)
qed

lemma slice_subscribers_current_witness:
  "snapshot_of (sl_state (run_inputs slice_step
       [SliceSubscribe (3::nat) [], SliceEvent (Added (NewFakeDevice ''a'')) True [''a'']] (makeSlice Any)))
     [NewFakeDevice ''a'']"
proof -
  let ?js = "[SliceSubscribe (3::nat) [], SliceEvent (Added (NewFakeDevice ''a'')) True [''a'']]"
  have ok: "inputs_ok slice_step slice_ok ?js (makeSlice Any)"
    by (simp add: makeSlice_def slice_Subscribe_def slice_request_def range_order_def)
  have log: "sl_mux (run_inputs slice_step ?js (makeSlice Any)) 3 = Some [[], [NewFakeDevice ''a'']]"
    by (simp add: makeSlice_def slice_Subscribe_def slice_request_def snapshots_before_def sliceSnapshot_def
        submit_snapshot_def)
  from slice_subscribers_current [OF ok log] show ?thesis by simp
qed

text \<open>
  A device that stops matching stays in the slice. When a device that the slice holds is added
  again under its id and no longer passes the filter, the slice keeps the old device and publishes
  nothing, although the discovery holds the new one and its filtered state has none.
\<close>
lemma slice_keeps_unmatched:
  assumes "f old" and "\<not> f new" and "dev_Id new = dev_Id old"
  shows "slice_states f [Init [old], Added new] (dev_Id old) = Some old \<and>
    filter_map f (replay [Init [old], Added new] Map.empty) (dev_Id old) = None \<and>
    sl_mux (slice_event (Added new) True order (makeSlice f)) = sl_mux (makeSlice f)"
  using assms by (simp add: slice_states_def filter_map_def makeSlice_def)

lemma slice_keeps_unmatched_witness:
  "slice_states (\<lambda>d. Subsystem d = ''net'')
     [Init [WithSubsystem ''net'' (NewFakeDevice ''a'')], Added (NewFakeDevice ''a'')] ''a'' =
     Some (WithSubsystem ''net'' (NewFakeDevice ''a''))"
proof -
  let ?old = "WithSubsystem ''net'' (NewFakeDevice ''a'')"
  have "slice_states (\<lambda>d. Subsystem d = ''net'') [Init [?old], Added (NewFakeDevice ''a'')] (dev_Id ?old)
      = Some ?old"
    by (rule slice_keeps_unmatched [THEN conjunct1]) (simp_all add: fake_builders)
  then show ?thesis by (simp add: WithSubsystem_def)
qed

end
