(* ===== verification/Udev_Fake.thy ===== *)
theory Udev_Fake
  imports Udev_Source
begin

text \<open>
  \<open>FakeDiscovery\<close> of \<open>internal/udev/fake.go\<close>, the in-memory discovery that test code drives. Every
  method runs under the lock of the discovery, so a method is one step.
\<close>

section \<open>State and methods\<close>

record 's fake_discovery =
  fake_state :: device_map
  fake_mux :: "('s, event) broadcast"
  fake_closed :: bool

definition NewFakeDiscovery :: "'s fake_discovery" where
  "NewFakeDiscovery = \<lparr>fake_state = Map.empty, fake_mux = Map.empty, fake_closed = False\<rparr>"

definition fake_AddDevice :: "device \<Rightarrow> 's fake_discovery \<Rightarrow> 's fake_discovery" where
  "fake_AddDevice dev f = f\<lparr>fake_state := (fake_state f)(dev_Id dev \<mapsto> dev)\<rparr>"

text \<open>
  \<open>Emit\<close> updates the state and submits; its result is dropped. The flag says whether the
  multiplexer accepts the event; a closed one never does.
\<close>

definition fake_Emit :: "event \<Rightarrow> bool \<Rightarrow> 's fake_discovery \<Rightarrow> 's fake_discovery" where
  "fake_Emit ev taken f =
     (let f' = (case ev of
          Added dev \<Rightarrow> f\<lparr>fake_state := (fake_state f)(dev_Id dev \<mapsto> dev)\<rparr>
        | Removed dev \<Rightarrow> f\<lparr>fake_state := (fake_state f)(dev_Id dev := None)\<rparr>
        | Init ds \<Rightarrow> f)
      in if taken \<and> \<not> fake_closed f' then f'\<lparr>fake_mux := publish ev (fake_mux f')\<rparr> else f')"

text \<open>
  The sink gets its \<open>Init\<close>, then the multiplexer registers it. After \<open>Close\<close> nobody is registered: the
  \<open>Init\<close> of such a call is all its sink ever gets, and the broadcaster, which keeps what registered
  sinks get, stays as it is.
\<close>

definition fake_Subscribe :: "'s \<Rightarrow> string list \<Rightarrow> 's fake_discovery \<Rightarrow> 's fake_discovery" where
  "fake_Subscribe s order f =
     (let init = Init (range_values (fake_state f) order);
          before = (case fake_mux f s of None \<Rightarrow> [] | Some evs \<Rightarrow> evs)
      in if fake_closed f then f
         else f\<lparr>fake_mux := join_member s (before @ [init]) (fake_mux f)\<rparr>)"

definition fake_cancel :: "'s \<Rightarrow> 's fake_discovery \<Rightarrow> 's fake_discovery" where
  "fake_cancel s f = f\<lparr>fake_mux := leave_member s (fake_mux f)\<rparr>"

definition fake_State :: "device filter_func \<Rightarrow> 's fake_discovery \<Rightarrow> device_map" where
  "fake_State filt f = filter_map filt (fake_state f)"

definition fake_DeviceById :: "string \<Rightarrow> 's fake_discovery \<Rightarrow> device option" where
  "fake_DeviceById i f = fake_state f i"

definition fake_Close :: "'s fake_discovery \<Rightarrow> 's fake_discovery" where
  "fake_Close f = f\<lparr>fake_mux := Map.empty, fake_closed := True\<rparr>"

section \<open>The fake discovery is an event source\<close>

datatype 's fake_input =
    FakeAddDevice device
  | FakeEmit event bool
  | FakeSubscribe 's "string list"
  | FakeCancel 's
  | FakeClose

fun fake_step :: "'s fake_input \<Rightarrow> 's fake_discovery \<Rightarrow> 's fake_discovery" where
  "fake_step (FakeAddDevice dev) f = fake_AddDevice dev f"
| "fake_step (FakeEmit ev taken) f = fake_Emit ev taken f"
| "fake_step (FakeSubscribe s order) f = fake_Subscribe s order f"
| "fake_step (FakeCancel s) f = fake_cancel s f"
| "fake_step FakeClose f = fake_Close f"

text \<open>
  The use its comments ask for: devices are added before anybody subscribes, changes are emitted as
  \<open>Added\<close> and \<open>Removed\<close>, and the multiplexer accepts what somebody waits for.
\<close>

fun fake_ok :: "'s fake_input \<Rightarrow> 's fake_discovery \<Rightarrow> bool" where
  "fake_ok (FakeAddDevice dev) f = (fake_mux f = Map.empty)"
| "fake_ok (FakeEmit (Init ds) taken) f = False"
| "fake_ok (FakeEmit ev taken) f = ((taken \<and> \<not> fake_closed f) \<or> fake_mux f = Map.empty)"
| "fake_ok (FakeSubscribe s order) f = range_order (fake_state f) order"
| "fake_ok _ f = True"

lemmas fake_ops = fake_AddDevice_def fake_Emit_def fake_Subscribe_def fake_cancel_def fake_Close_def
  Let_def

interpretation fake: event_source fake_state fake_mux fake_step fake_ok
proof unfold_locales
  fix i :: "'a fake_input" and d :: "'a fake_discovery"
  assume "keyed (fake_state d)"
  then show "keyed (fake_state (fake_step i d))"
    by (cases i) (simp_all add: fake_ops split: event.split)
next
  fix i :: "'a fake_input" and d :: "'a fake_discovery" and s evs
  assume ok: "fake_ok i d" and keyed: "keyed (fake_state d)" and none: "fake_mux d s = None"
    and some: "fake_mux (fake_step i d) s = Some evs"
  show "\<exists>ds. evs = [Init ds] \<and> apply_event (Init ds) Map.empty = fake_state (fake_step i d)"
  proof (cases i)
    case (FakeSubscribe s' order)
    have "store_all dev_Id (\<lambda>d. d) (range_values (fake_state d) order) Map.empty = fake_state d"
      using FakeSubscribe ok keyed by (intro store_all_range_values) simp_all
    with FakeSubscribe none some show ?thesis by (auto simp: fake_ops split: if_splits)
  qed (use none some in \<open>auto simp: fake_ops split: if_splits event.splits\<close>)
next
  fix i :: "'a fake_input" and d :: "'a fake_discovery" and s evs evs'
  assume ok: "fake_ok i d" and keyed: "keyed (fake_state d)" and old: "fake_mux d s = Some evs"
    and new: "fake_mux (fake_step i d) s = Some evs'"
  show "(evs' = evs \<and> fake_state (fake_step i d) = fake_state d) \<or>
    (\<exists>e. evs' = evs @ [e] \<and> fake_state (fake_step i d) = apply_event e (fake_state d))"
  proof (cases i)
    case (FakeEmit ev tk)
    with ok old have "tk" "\<not> fake_closed d" by (cases ev; auto)+
    with FakeEmit ok old new show ?thesis
      by (intro disjI2 exI [of _ ev]) (cases ev; simp add: fake_ops)
  next
    case (FakeSubscribe s' order)
    have "store_all dev_Id (\<lambda>d. d) (range_values (fake_state d) order) (fake_state d) = fake_state d"
      using FakeSubscribe ok keyed by (intro store_all_range_values) simp_all
    with FakeSubscribe old new show ?thesis by (auto simp: fake_ops split: if_splits)
  qed (use ok old new in \<open>auto simp: fake_ops split: if_splits\<close>)
qed

section \<open>Removed devices\<close>

text \<open>
  The real discovery looks a removed device up: its \<open>Removed\<close> carries the value it has stored, and a
  removal of an unknown device is no event. \<open>Emit\<close> passes on what the caller gives it, so that a
  subscriber can rely on the same only if every \<open>Removed\<close> is emitted with the stored device.
\<close>

fun fake_exact :: "'s fake_input \<Rightarrow> 's fake_discovery \<Rightarrow> bool" where
  "fake_exact (FakeEmit (Removed dev) taken) f = (fake_ok (FakeEmit (Removed dev) taken) f \<and>
     fake_state f (dev_Id dev) = Some dev)"
| "fake_exact i f = fake_ok i f"

lemma fake_exact_ok: "fake_exact i f \<Longrightarrow> fake_ok i f"
  by (cases "(i, f)" rule: fake_exact.cases) simp_all

definition fake_removals_ok :: "'s fake_discovery \<Rightarrow> bool" where
  "fake_removals_ok f \<longleftrightarrow> fake.in_sync f \<and> (\<forall>s evs. fake_mux f s = Some evs \<longrightarrow> removals_known evs Map.empty)"

lemma fake_removals_step:
  assumes exact: "fake_exact i f" and ok: "fake_removals_ok f"
  shows "fake_removals_ok (fake_step i f)"
proof -
  have known: "removals_known evs Map.empty \<and> replay evs Map.empty = fake_state f" if "fake_mux f s = Some evs" for s evs
    using ok that by (auto simp: fake_removals_ok_def fake.in_sync_def)
  have "removals_known evs' Map.empty" if new: "fake_mux (fake_step i f) s = Some evs'" for s evs'
  proof (cases i)
    case (FakeEmit ev taken)
    show ?thesis
    proof (cases ev)
      case (Removed dev)
      with exact FakeEmit have "fake_state f (dev_Id dev) = Some dev" by simp
      with FakeEmit Removed new known show ?thesis
        by (auto simp: fake_ops removals_known_append split: if_splits)
    qed (use FakeEmit exact new known in \<open>auto simp: fake_ops removals_known_append split: if_splits\<close>)
  next
    case (FakeSubscribe s' order)
    with new known show ?thesis
      by (auto simp: fake_ops removals_known_append split: if_splits option.splits)
  qed (use new known in \<open>auto simp: fake_ops split: if_splits\<close>)
  with fake.in_sync_step [OF fake_exact_ok [OF exact]] ok show ?thesis by (simp add: fake_removals_ok_def)
qed

lemma fake_exact_removals:
  assumes "inputs_ok fake_step fake_exact is NewFakeDiscovery"
    and "fake_mux (run_inputs fake_step is NewFakeDiscovery) s = Some evs"
  shows "removals_known evs Map.empty"
proof -
  have "fake_removals_ok (run_inputs fake_step is NewFakeDiscovery)"
  proof (rule run_inputs_invariant [OF assms(1)])
    show "fake_removals_ok (NewFakeDiscovery :: 'a fake_discovery)"
      by (simp add: fake_removals_ok_def fake.in_sync_def NewFakeDiscovery_def)
  qed (rule fake_removals_step)
  with assms(2) show ?thesis by (simp add: fake_removals_ok_def)
qed

text \<open>A removal that nobody announced reaches the subscribers.\<close>

lemma fake_unknown_removal:
  "let is = [FakeSubscribe (1::nat) [], FakeEmit (Removed (NewFakeDevice ''a'')) True];
       evs = [Init [], Removed (NewFakeDevice ''a'')]
   in inputs_ok fake_step fake_ok is NewFakeDiscovery \<and>
     fake_mux (run_inputs fake_step is NewFakeDiscovery) 1 = Some evs \<and> \<not> removals_known evs Map.empty"
  by (simp add: NewFakeDiscovery_def fake_ops range_order_def)

section \<open>Properties\<close>

text \<open>
  C34: What the fake discovery gives of the contract of the real one. Used as its comments ask
  (devices are added before anybody subscribes, events are accepted), the first event of a subscriber
  is an \<open>Init\<close>, and its events replayed give the state it reports, as with the real discovery. That a
  \<open>Removed\<close> carries the stored device holds only when every emitted \<open>Removed\<close> does: \<open>Emit\<close> does not look
  the device up, and passes an unknown one on (\<open>fake_unknown_removal\<close>).
\<close>
theorem fake_subscriber_in_sync:
  assumes "inputs_ok fake_step fake_ok is NewFakeDiscovery"
    and "fake_mux (run_inputs fake_step is NewFakeDiscovery) s = Some evs"
  shows "(\<exists>ds es. evs = Init ds # es) \<and>
    replay evs Map.empty = fake_State Any (run_inputs fake_step is NewFakeDiscovery) \<and>
    (inputs_ok fake_step fake_exact is NewFakeDiscovery \<longrightarrow> removals_known evs Map.empty)"
proof -
  have "fake.in_sync (run_inputs fake_step is NewFakeDiscovery)"
    by (rule fake.in_sync_run [OF assms(1)]) (simp add: fake.in_sync_def NewFakeDiscovery_def)
  with assms(2) fake_exact_removals [OF _ assms(2)] show ?thesis by (simp add: fake.in_sync_def fake_State_def)
qed

lemma fake_subscriber_in_sync_witness:
  "let is = [FakeAddDevice (NewFakeDevice ''a''), FakeSubscribe (1::nat) [''a''],
        FakeEmit (Removed (NewFakeDevice ''a'')) True];
       evs = [Init [NewFakeDevice ''a''], Removed (NewFakeDevice ''a'')]
   in replay evs Map.empty = fake_State Any (run_inputs fake_step is NewFakeDiscovery) \<and> removals_known evs Map.empty"
proof -
  let ?is = "[FakeAddDevice (NewFakeDevice ''a''), FakeSubscribe (1::nat) [''a''],
        FakeEmit (Removed (NewFakeDevice ''a'')) True]"
  have exact: "inputs_ok fake_step fake_exact ?is NewFakeDiscovery"
    by (simp add: NewFakeDiscovery_def fake_ops range_order_def)
  have ok: "inputs_ok fake_step fake_ok ?is NewFakeDiscovery"
    by (simp add: NewFakeDiscovery_def fake_ops range_order_def)
  have heard: "fake_mux (run_inputs fake_step ?is NewFakeDiscovery) 1 =
      Some [Init [NewFakeDevice ''a''], Removed (NewFakeDevice ''a'')]"
    by (simp add: NewFakeDiscovery_def fake_ops)
  from fake_subscriber_in_sync [OF ok heard] exact show ?thesis unfolding Let_def by blast
qed

end
