(* ===== verification/Udev_Attach.thy ===== *)
theory Udev_Attach
  imports Udev_Slice Udev_Fake
begin

text \<open>
  A slice on its event source: \<open>makeSlice\<close> of \<open>internal/udev/udev.go\<close> subscribes the slice to any
  \<open>mux.Source[Event]\<close>, the discovery and the fake one alike, and from then on the source, the
  goroutine of the slice and its subscribers take steps in any order.
\<close>

section \<open>A slice with its source\<close>

text \<open>
  The source, the events that the sink of the slice was given, how many of them the goroutine has
  received from the channel, and the slice.
\<close>

record ('d, 't) attached =
  at_source :: 'd
  at_got :: "event list"
  at_handled :: nat
  at_slice :: "'t udev_slice"

text \<open>\<open>sub\<close> is the request that subscribes the sink \<open>n\<close> to the source.\<close>

definition slice_on :: "('i \<Rightarrow> 'd \<Rightarrow> 'd) \<Rightarrow> ('d \<Rightarrow> ('s, event) broadcast) \<Rightarrow> 'i \<Rightarrow> 's \<Rightarrow> device filter_func \<Rightarrow> 'd \<Rightarrow>
    ('d, 't) attached" where
  "slice_on step heard sub n f d =
     \<lparr>at_source = step sub d, at_got = heard_before (heard (step sub d)) n, at_handled = 0, at_slice = makeSlice f\<rparr>"

definition disc_Slice :: "'s \<Rightarrow> string list \<Rightarrow> device filter_func \<Rightarrow> 's discovery \<Rightarrow> ('s discovery, 't) attached" where
  "disc_Slice n order f d = slice_on discovery_step disc_mux (NewSub n order) n f d"

definition fake_Slice :: "'s \<Rightarrow> string list \<Rightarrow> device filter_func \<Rightarrow> 's fake_discovery \<Rightarrow> ('s fake_discovery, 't) attached" where
  "fake_Slice n order f d = slice_on fake_step fake_mux (FakeSubscribe n order) n f d"

text \<open>\<open>Close\<close> of the slice runs the cancel function of its subscription.\<close>

definition slice_Close :: "('s \<Rightarrow> 'd \<Rightarrow> 'd) \<Rightarrow> 's \<Rightarrow> ('d, 't) attached \<Rightarrow> ('d, 't) attached" where
  "slice_Close leave n x = x\<lparr>at_source := leave n (at_source x)\<rparr>"

text \<open>
  The source handles an input; the goroutine receives an event, a request, or the end of the channel,
  which the sink closes when the source has dropped it; a subscriber leaves; the slice is closed.
\<close>

datatype ('i, 't) attached_input =
    SourceStep 'i
  | ReceiveEvent bool "string list"
  | ReceiveSubscribe 't "string list"
  | SubscriberLeaves 't
  | CloseSlice
  | ReceiveEnd

fun attached_step :: "('i \<Rightarrow> 'd \<Rightarrow> 'd) \<Rightarrow> ('d \<Rightarrow> ('s, event) broadcast) \<Rightarrow> ('s \<Rightarrow> 'd \<Rightarrow> 'd) \<Rightarrow> 's \<Rightarrow>
    ('i, 't) attached_input \<Rightarrow> ('d, 't) attached \<Rightarrow> ('d, 't) attached" where
  "attached_step step heard leave n (SourceStep i) x =
     (let d = step i (at_source x)
      in x\<lparr>at_source := d, at_got := (case heard d n of Some evs \<Rightarrow> evs | None \<Rightarrow> at_got x)\<rparr>)"
| "attached_step step heard leave n (ReceiveEvent accepted order) x =
     (if at_handled x < length (at_got x)
      then x\<lparr>at_handled := Suc (at_handled x),
             at_slice := slice_step (SliceEvent (at_got x ! at_handled x) accepted order) (at_slice x)\<rparr>
      else x)"
| "attached_step step heard leave n (ReceiveSubscribe s order) x =
     x\<lparr>at_slice := slice_step (SliceSubscribe s order) (at_slice x)\<rparr>"
| "attached_step step heard leave n (SubscriberLeaves s) x =
     x\<lparr>at_slice := slice_step (SliceCancel s) (at_slice x)\<rparr>"
| "attached_step step heard leave n CloseSlice x = slice_Close leave n x"
| "attached_step step heard leave n ReceiveEnd x =
     (if heard (at_source x) n = None \<and> at_handled x = length (at_got x)
      then x\<lparr>at_slice := slice_step SliceEventsClosed (at_slice x)\<rparr> else x)"

text \<open>
  What the source promises for, nobody else subscribes the sink of the slice, and the multiplexer of
  the slice accepts the snapshots.
\<close>

fun attached_ok :: "('i \<Rightarrow> 'd \<Rightarrow> 'd) \<Rightarrow> ('d \<Rightarrow> ('s, event) broadcast) \<Rightarrow> ('i \<Rightarrow> 'd \<Rightarrow> bool) \<Rightarrow> 's \<Rightarrow>
    ('i, 't) attached_input \<Rightarrow> ('d, 't) attached \<Rightarrow> bool" where
  "attached_ok step heard ok n (SourceStep i) x \<longleftrightarrow>
     ok i (at_source x) \<and> (heard (at_source x) n = None \<longrightarrow> heard (step i (at_source x)) n = None)"
| "attached_ok step heard ok n (ReceiveEvent accepted order) x \<longleftrightarrow>
     (at_handled x < length (at_got x) \<longrightarrow>
        slice_ok (SliceEvent (at_got x ! at_handled x) accepted order) (at_slice x))"
| "attached_ok step heard ok n (ReceiveSubscribe s order) x \<longleftrightarrow> slice_ok (SliceSubscribe s order) (at_slice x)"
| "attached_ok step heard ok n i x \<longleftrightarrow> True"

section \<open>What a slice relies on\<close>

text \<open>An event source whose subscribers can leave.\<close>

locale slice_source = event_source devices heard step ok
  for devices :: "'d \<Rightarrow> device_map" and heard :: "'d \<Rightarrow> ('s, event) broadcast"
    and step :: "'i \<Rightarrow> 'd \<Rightarrow> 'd" and ok :: "'i \<Rightarrow> 'd \<Rightarrow> bool" +
  fixes leave :: "'s \<Rightarrow> 'd \<Rightarrow> 'd"
  assumes leave_devices: "devices (leave n d) = devices d"
    and leave_heard: "heard (leave n d) = leave_member n (heard d)"
begin

definition attached_inv :: "'s \<Rightarrow> device filter_func \<Rightarrow> ('d, 't) attached \<Rightarrow> bool" where
  "attached_inv n f x \<longleftrightarrow> in_sync (at_source x) \<and> (\<forall>evs. heard (at_source x) n = Some evs \<longrightarrow> at_got x = evs) \<and>
     at_handled x \<le> length (at_got x) \<and> (heard (at_source x) n \<noteq> None \<longrightarrow> \<not> sl_done (at_slice x)) \<and>
     sl_filter (at_slice x) = f \<and> (\<not> sl_done (at_slice x) \<longrightarrow> sl_state (at_slice x) = slice_states f (take (at_handled x) (at_got x))) \<and>
     subscribers_current (at_slice x)"

lemma in_sync_leave: "in_sync d \<Longrightarrow> in_sync (leave n d)"
  by (auto simp: in_sync_def leave_devices leave_heard split: if_splits)

lemma attached_inv_slice_on:
  assumes "ok sub d" and "in_sync d"
  shows "attached_inv n f (slice_on step heard sub n f d)"
  using in_sync_step [OF assms]
  by (simp add: attached_inv_def slice_on_def makeSlice_def heard_before_def slice_states_def subscribers_current_def)

lemma attached_inv_step:
  assumes "attached_ok step heard ok n i x" and inv: "attached_inv n f x"
  shows "attached_inv n f (attached_step step heard leave n i x)"
proof (cases i)
  case (SourceStep j)
  let ?d = "step j (at_source x)"
  have ok: "ok j (at_source x)" "heard (at_source x) n = None \<Longrightarrow> heard ?d n = None" using assms(1) SourceStep by auto
  have sync: "in_sync (at_source x)" using inv by (simp add: attached_inv_def)
  have grows: "\<exists>more. evs = at_got x @ more" if "heard ?d n = Some evs" for evs
  proof -
    from that ok(2) obtain old where old: "heard (at_source x) n = Some old" by fastforce
    then have "at_got x = old" using inv by (simp add: attached_inv_def)
    with heard_next [OF ok(1) _ old that] sync show ?thesis by (auto simp: in_sync_def)
  qed
  show ?thesis
  proof (cases "heard ?d n")
    case None
    with SourceStep inv in_sync_step [OF ok(1) sync] show ?thesis by (simp add: attached_inv_def)
  next
    case (Some evs)
    with grows obtain more where "evs = at_got x @ more" by blast
    with Some SourceStep inv in_sync_step [OF ok(1) sync] ok(2) show ?thesis by (auto simp: attached_inv_def)
  qed
next
  case (ReceiveEvent acc order)
  show ?thesis
  proof (cases "at_handled x < length (at_got x)")
    case True
    then have "slice_states f (take (Suc (at_handled x)) (at_got x)) =
        slice_view f (at_got x ! at_handled x) (slice_states f (take (at_handled x) (at_got x)))"
      by (simp add: slice_states_def take_Suc_conv_app_nth)
    moreover have "subscribers_current (slice_step (SliceEvent (at_got x ! at_handled x) acc order) (at_slice x))"
      using assms True ReceiveEvent by (intro subscribers_current_step) (auto simp: attached_inv_def)
    ultimately show ?thesis using True ReceiveEvent inv by (auto simp: attached_inv_def)
  qed (use ReceiveEvent inv in simp)
next
  case (ReceiveSubscribe s order)
  have "subscribers_current (slice_step (SliceSubscribe s order) (at_slice x))"
    using assms ReceiveSubscribe by (intro subscribers_current_step) (auto simp: attached_inv_def)
  with ReceiveSubscribe inv show ?thesis by (auto simp: attached_inv_def slice_Subscribe_def slice_request_def)
next
  case (SubscriberLeaves s)
  have "subscribers_current (slice_step (SliceCancel s) (at_slice x))"
    using inv by (intro subscribers_current_step) (auto simp: attached_inv_def)
  with SubscriberLeaves inv show ?thesis by (auto simp: attached_inv_def)
next
  case CloseSlice
  with inv show ?thesis by (auto simp: attached_inv_def slice_Close_def leave_heard in_sync_leave)
next
  case ReceiveEnd
  have "subscribers_current (slice_step SliceEventsClosed (at_slice x))"
    using inv by (intro subscribers_current_step) (auto simp: attached_inv_def)
  with ReceiveEnd inv show ?thesis by (auto simp: attached_inv_def slice_exit_def)
qed

lemma attached_inv_run:
  "inputs_ok (attached_step step heard leave n) (attached_ok step heard ok n) js x \<Longrightarrow> attached_inv n f x \<Longrightarrow>
   attached_inv n f (run_inputs (attached_step step heard leave n) js x)"
  by (rule run_inputs_invariant [where ok = "attached_ok step heard ok n"]) (auto intro: attached_inv_step)

text \<open>A slice that has received everything holds the matching devices of its source, and its subscribers know.\<close>

lemma attached_current:
  assumes inv: "attached_inv n f x" and member: "heard (at_source x) n \<noteq> None"
    and current: "at_handled x = length (at_got x)" and stable: "filter_stable f (at_got x)"
  shows "sl_state (at_slice x) = filter_map f (devices (at_source x))"
    and "sl_mux (at_slice x) s = Some snaps \<Longrightarrow> snaps \<noteq> [] \<and> snapshot_of (filter_map f (devices (at_source x))) (last snaps)"
proof -
  from member obtain evs where "heard (at_source x) n = Some evs" by blast
  with inv have "at_got x = evs" "replay evs Map.empty = devices (at_source x)"
    by (auto simp: attached_inv_def in_sync_def)
  with inv member current show state: "sl_state (at_slice x) = filter_map f (devices (at_source x))"
    using slice_states_replay [OF stable] by (simp add: attached_inv_def)
  show "sl_mux (at_slice x) s = Some snaps \<Longrightarrow> snaps \<noteq> [] \<and> snapshot_of (filter_map f (devices (at_source x))) (last snaps)"
    using inv state by (simp add: attached_inv_def subscribers_current_def)
qed

end

section \<open>Both discoveries\<close>

interpretation disc_slices: slice_source disc_state disc_mux discovery_step monitor_ok disc_cancel
  by unfold_locales (simp_all add: disc_cancel_def)

interpretation fake_slices: slice_source fake_state fake_mux fake_step fake_ok fake_cancel
  by unfold_locales (simp_all add: fake_cancel_def)

abbreviation disc_slice_run :: "nat \<Rightarrow> (nat monitor_input, 't) attached_input list \<Rightarrow>
    (nat discovery, 't) attached \<Rightarrow> (nat discovery, 't) attached" where
  "disc_slice_run n \<equiv> run_inputs (attached_step discovery_step disc_mux disc_cancel n)"

text \<open>A slice that is closed ends once it has received what its channel held, and so do its subscribers.\<close>

lemma slice_Close_ends:
  assumes "at_handled x = length (at_got x)"
  shows "let y = disc_slice_run n [CloseSlice, ReceiveEnd] x
    in sl_done (at_slice y) \<and> sl_mux (at_slice y) = Map.empty \<and>
      slice_Subscribe s order (at_slice y) = at_slice y"
  using assms by (simp add: slice_Close_def disc_cancel_def slice_exit_def slice_Subscribe_def)

text \<open>A slice of the fake discovery does the same as one of the real discovery.\<close>

lemma fake_slice_current:
  fixes n f order "is" js
  defines "x \<equiv> run_inputs (attached_step fake_step fake_mux fake_cancel n) js
    (fake_Slice n order f (run_inputs fake_step is NewFakeDiscovery))"
  assumes "inputs_ok fake_step fake_ok (is @ [FakeSubscribe n order]) NewFakeDiscovery"
    and js: "inputs_ok (attached_step fake_step fake_mux fake_cancel n) (attached_ok fake_step fake_mux fake_ok n) js
      (fake_Slice n order f (run_inputs fake_step is NewFakeDiscovery))"
    and "fake_mux (at_source x) n \<noteq> None" and "at_handled x = length (at_got x)" and "filter_stable f (at_got x)"
  shows "sl_state (at_slice x) = fake_State f (at_source x)"
proof -
  have ok: "inputs_ok fake_step fake_ok is NewFakeDiscovery" "fake_ok (FakeSubscribe n order) (run_inputs fake_step is NewFakeDiscovery)"
    using assms(2) by (simp_all add: inputs_ok_append)
  have "fake.in_sync (run_inputs fake_step is NewFakeDiscovery)"
    by (rule fake.in_sync_run [OF ok(1)]) (simp add: fake.in_sync_def NewFakeDiscovery_def)
  then have "fake_slices.attached_inv n f x"
    unfolding x_def using js unfolding fake_Slice_def
    by (intro fake_slices.attached_inv_run fake_slices.attached_inv_slice_on ok(2))
  from fake_slices.attached_current(1) [OF this assms(4-6)] show ?thesis by (simp add: fake_State_def)
qed

section \<open>Properties\<close>

text \<open>
  C13: A slice is the filtered machine, for its subscribers too. Let a slice be made on a discovery, and
  let kernel events, requests, other subscriptions, the goroutine of the slice and its subscribers
  come in any order, with nothing lost. Whenever the slice is still subscribed and has received what it
  was sent, and the filter did not change its verdict on an id, the slice holds exactly what \<open>State\<close> of
  the discovery reports for the filter, and the last snapshot that every subscriber of the slice got
  lists exactly these devices; a subscriber has one from the start.
\<close>

theorem slice_follows_machine:
  fixes n f order devs "is" js
  defines "x0 \<equiv> disc_Slice n order f (discovery_run devs is)"
  defines "x \<equiv> disc_slice_run n js x0"
  assumes "discovery_inputs_ok devs is" and "range_order (disc_state (discovery_run devs is)) order"
    and js: "inputs_ok (attached_step discovery_step disc_mux disc_cancel n)
      (attached_ok discovery_step disc_mux monitor_ok n) js x0"
    and open': "\<not> disc_done (at_source x)" and "disc_mux (at_source x) n \<noteq> None"
    and "at_handled x = length (at_got x)" and "filter_stable f (at_got x)"
  shows "sl_state (at_slice x) = disc_State f (at_source x) \<and>
    (\<forall>s snaps. sl_mux (at_slice x) s = Some snaps \<longrightarrow>
       snaps \<noteq> [] \<and> snapshot_of (disc_State f (at_source x)) (last snaps))"
proof -
  have "monitor_ok (NewSub n order) (discovery_run devs is)" using assms(4) by simp
  then have "disc_slices.attached_inv n f x"
    using js unfolding x_def x0_def disc_Slice_def
    by (intro disc_slices.attached_inv_run disc_slices.attached_inv_slice_on discovery_run_in_sync assms(3))
  from disc_slices.attached_current [OF this assms(7-9)] show ?thesis by (simp add: disc_State_open [OF open'])
qed

text \<open>A slice for block devices on a machine with one disk.\<close>

definition block_filter :: "device filter_func" where
  "block_filter d \<longleftrightarrow> Subsystem d = ''block''"

definition disk_machine :: "nat discovery" where
  "disk_machine = discovery_run [Some demo_disk] []"

lemma disk_machine_eq:
  "disk_machine = \<lparr>disc_state = [''sda'' \<mapsto> Generic demo_disk], disc_mux = Map.empty, disc_done = False, disc_retrying = False\<rparr>"
  by (simp add: disk_machine_def discovery_run_def monitor_start_def NewDiscovery_def demo_disk_path)

lemma block_filter_demo: "block_filter (Generic demo_disk)"
  by (simp add: block_filter_def demo_disk_def)

definition disk_slice :: "(nat discovery, nat) attached" where
  "disk_slice = disc_Slice 7 [''sda''] block_filter disk_machine"

lemma disk_slice_eq:
  "disk_slice = \<lparr>at_source = \<lparr>disc_state = [''sda'' \<mapsto> Generic demo_disk],
      disc_mux = [7 \<mapsto> [Init [Generic demo_disk]]], disc_done = False, disc_retrying = False\<rparr>,
    at_got = [Init [Generic demo_disk]], at_handled = 0, at_slice = makeSlice block_filter\<rparr>"
  by (simp add: disk_slice_def disk_machine_eq disc_Slice_def slice_on_def discovery_step_def heard_before_def join_member_def)

lemma slice_follows_machine_witness:
  "disc_State block_filter (at_source disk_slice) = [''sda'' \<mapsto> Generic demo_disk] \<and>
   snapshot_of [''sda'' \<mapsto> Generic demo_disk] [Generic demo_disk] \<and>
   sl_state (at_slice (disc_slice_run 7 [ReceiveSubscribe 3 [], ReceiveEvent True [''sda'']] disk_slice)) =
     [''sda'' \<mapsto> Generic demo_disk]"
proof -
  let ?js = "[ReceiveSubscribe 3 [], ReceiveEvent True [''sda'']]"
  let ?x = "disc_slice_run 7 ?js disk_slice"
  have ok: "discovery_inputs_ok [Some demo_disk] ([] :: nat monitor_input list)" by (simp add: discovery_inputs_ok_def)
  have order: "range_order (disc_state disk_machine) [''sda'']" by (simp add: disk_machine_eq range_order_def)
  have js: "inputs_ok (attached_step discovery_step disc_mux disc_cancel 7) (attached_ok discovery_step disc_mux monitor_ok 7)
      ?js disk_slice"
    by (simp add: disk_slice_eq makeSlice_def slice_Subscribe_def slice_request_def range_order_def block_filter_demo
        demo_disk_path)
  have x: "at_source ?x = at_source disk_slice" "at_handled ?x = length (at_got ?x)" "at_got ?x = [Init [Generic demo_disk]]"
    "sl_mux (at_slice ?x) 3 = Some [[], [Generic demo_disk]]"
    by (simp_all add: disk_slice_eq makeSlice_def slice_Subscribe_def slice_request_def submit_snapshot_def
        snapshots_before_def sliceSnapshot_def block_filter_demo demo_disk_path)
  have open': "\<not> disc_done (at_source ?x)" "disc_mux (at_source ?x) 7 \<noteq> None" unfolding x(1) by (simp_all add: disk_slice_eq)
  have stable: "filter_stable block_filter (at_got ?x)" unfolding x(3) by (simp add: filter_stable_def)
  note follows = slice_follows_machine [OF ok order [unfolded disk_machine_def] js [unfolded disk_slice_def disk_machine_def]
      open' [unfolded disk_slice_def disk_machine_def] x(2) [unfolded disk_slice_def disk_machine_def]
      stable [unfolded disk_slice_def disk_machine_def], folded disk_machine_def, folded disk_slice_def]
  have state: "disc_State block_filter (at_source ?x) = [''sda'' \<mapsto> Generic demo_disk]"
    unfolding x(1) by (simp add: disk_slice_eq disc_State_open filter_map_def block_filter_demo fun_eq_iff)
  from follows x(4) show ?thesis unfolding state x(1) [symmetric] by fastforce
qed

end
