(* ===== verification/Plugin_Api.thy ===== *)
theory Plugin_Api
  imports Udev_Device
begin

text \<open>
  The data of the kubelet device plugin API that the plugins fill in, and the merging of
  responses, \<open>mergeResponses\<close> of \<open>internal/plugin/plugin.go\<close>; the health states and the shape of a
  mapping from devices of \<open>internal/plugin/resource.go\<close>.
\<close>

section \<open>Health and topology\<close>

datatype health = Healthy | Unhealthy

fun health_String :: "health \<Rightarrow> string" where
  "health_String Healthy = ''Healthy''"
| "health_String Unhealthy = ''Unhealthy''"

text \<open>The NUMA node ids of a \<open>TopologyInfo\<close>; \<open>None\<close> is a nil pointer.\<close>

type_synonym topology_info = "int list option"

section \<open>Responses\<close>

record device_spec =
  HostPath :: string
  ContainerPath :: string
  Permissions :: string

record mount =
  mount_HostPath :: string
  mount_ContainerPath :: string

text \<open>A nil map reads as an empty one.\<close>

record allocate_response =
  Devices :: "device_spec list"
  Mounts :: "mount list"
  Envs :: "string \<rightharpoonup> string"
  Annotations :: "string \<rightharpoonup> string"

definition empty_response :: allocate_response where
  "empty_response = \<lparr>Devices = [], Mounts = [], Envs = Map.empty, Annotations = Map.empty\<rparr>"

text \<open>One round of the loop of \<open>mergeResponses\<close>, for a response that is not nil.\<close>

definition merge_into :: "allocate_response \<Rightarrow> allocate_response \<Rightarrow> allocate_response" where
  "merge_into response r = \<lparr>Devices = Devices response @ Devices r,
     Mounts = Mounts response @ Mounts r,
     Envs = Envs response ++ Envs r,
     Annotations = Annotations response ++ Annotations r\<rparr>"

fun merge_loop :: "allocate_response option list \<Rightarrow> allocate_response \<Rightarrow> allocate_response" where
  "merge_loop [] response = response"
| "merge_loop (None # rs) response = merge_loop rs response"
| "merge_loop (Some r # rs) response = merge_loop rs (merge_into response r)"

definition mergeResponses :: "allocate_response option list \<Rightarrow> allocate_response" where
  "mergeResponses rs = merge_loop rs empty_response"

lemma merge_into_assoc: "merge_into (merge_into a b) c = merge_into a (merge_into b c)"
  by (simp add: merge_into_def)

lemma merge_into_empty_left [simp]: "merge_into empty_response a = a"
  by (simp add: merge_into_def empty_response_def)

lemma merge_into_empty_right [simp]: "merge_into a empty_response = a"
  by (simp add: merge_into_def empty_response_def)

lemma merge_loop_merge_into: "merge_loop rs (merge_into a b) = merge_into a (merge_loop rs b)"
proof (induction rs arbitrary: b)
  case (Cons r rs)
  then show ?case by (cases r) (simp_all add: merge_into_assoc)
qed simp

lemma merge_loop_mergeResponses: "merge_loop rs a = merge_into a (mergeResponses rs)"
  using merge_loop_merge_into [of rs a empty_response] by (simp add: mergeResponses_def)

lemma mergeResponses_Nil [simp]: "mergeResponses [] = empty_response"
  by (simp add: mergeResponses_def)

lemma mergeResponses_Cons [simp]:
  "mergeResponses (r # rs) = merge_into (case r of None \<Rightarrow> empty_response | Some x \<Rightarrow> x) (mergeResponses rs)"
  by (cases r) (simp_all add: mergeResponses_def [of "_ # rs"] merge_loop_mergeResponses [of rs])

lemma mergeResponses_append:
  "mergeResponses (rs @ ss) = merge_into (mergeResponses rs) (mergeResponses ss)"
  by (induction rs) (simp_all add: merge_into_assoc)

lemma Devices_mergeResponses:
  "Devices (mergeResponses (map Some rs)) = concat (map Devices rs)"
  by (induction rs) (simp_all add: merge_into_def empty_response_def)

lemma Mounts_mergeResponses:
  "Mounts (mergeResponses (map Some rs)) = concat (map Mounts rs)"
  by (induction rs) (simp_all add: merge_into_def empty_response_def)

lemma dom_Envs_mergeResponses:
  "dom (Envs (mergeResponses (map Some rs))) = (\<Union>r \<in> set rs. dom (Envs r))"
  by (induction rs) (auto simp: merge_into_def empty_response_def)

text \<open>The last response that sets a variable decides its value.\<close>

lemma Envs_mergeResponses:
  "Envs (mergeResponses (map Some rs)) k =
     (case find (\<lambda>r. Envs r k \<noteq> None) (rev rs) of None \<Rightarrow> None | Some r \<Rightarrow> Envs r k)"
proof (induction rs rule: rev_induct)
  case (snoc r rs)
  then show ?case
    by (auto simp: mergeResponses_append merge_into_def map_add_def empty_response_def
        split: option.splits)
qed (simp add: empty_response_def)

section \<open>Mappings from devices\<close>

text \<open>
  \<open>FromDevice\<close>: a value or an error message, and the mapping itself may panic. A resource template
  may be nil.
\<close>

type_synonym 'a from_device = "device \<Rightarrow> (string + 'a) outcome"

record resource_template =
  Domain :: string
  Prefix :: string

definition template_Name :: "resource_template \<Rightarrow> string" where
  "template_Name t = Domain t @ ''/'' @ Prefix t"

end
