(* ===== verification/Go_Path.thy ===== *)
theory Go_Path
  imports Go_Text
begin

text \<open>
  The package \<open>path\<close> of the Go library as far as the repository uses it: \<open>Clean\<close>, \<open>Join\<close> and
  \<open>Dir\<close> on slash-separated paths.
\<close>

section \<open>Components\<close>

text \<open>
  The pieces between the separators, as \<open>strings.Split\<close> finds them; a string without a separator
  has one piece.
\<close>

fun split_on :: "char \<Rightarrow> string \<Rightarrow> string list" where
  "split_on sep [] = [[]]"
| "split_on sep (c # cs) =
     (if c = sep then [] # split_on sep cs
      else case split_on sep cs of [] \<Rightarrow> [[c]] | p # ps \<Rightarrow> (c # p) # ps)"

abbreviation split_slash :: "string \<Rightarrow> string list" where
  "split_slash \<equiv> split_on CHR ''/''"

text \<open>
  The loop of \<open>Clean\<close> over the pieces, with the output so far in reverse: empty pieces and dots
  are dropped, a double dot removes the last piece that is not itself a kept double dot, and is
  dropped at the root.
\<close>

fun clean_loop :: "bool \<Rightarrow> string list \<Rightarrow> string list \<Rightarrow> string list" where
  "clean_loop rooted [] out = rev out"
| "clean_loop rooted (p # ps) out =
     (if p = [] \<or> p = ''.'' then clean_loop rooted ps out
      else if p = ''..'' then
        (case out of
           [] \<Rightarrow> if rooted then clean_loop rooted ps [] else clean_loop rooted ps [p]
         | q # qs \<Rightarrow> if q = ''..'' then clean_loop rooted ps (p # out) else clean_loop rooted ps qs)
      else clean_loop rooted ps (p # out))"

definition path_Clean :: "string \<Rightarrow> string" where
  "path_Clean s =
     (let rooted = has_prefix s ''/'';
          out = join (clean_loop rooted (split_slash s) []) ''/''
      in if rooted then ''/'' @ out else if out = [] then ''.'' else out)"

text \<open>Leading empty elements are skipped, later ones only add a slash.\<close>

definition path_Join :: "string list \<Rightarrow> string" where
  "path_Join es = (case dropWhile (\<lambda>e. e = []) es of
     [] \<Rightarrow> []
   | fs \<Rightarrow> path_Clean (join fs ''/''))"

definition path_Dir :: "string \<Rightarrow> string" where
  "path_Dir s = path_Clean (rev (dropWhile (\<lambda>c. c \<noteq> CHR ''/'') (rev s)))"

section \<open>Paths of plain components\<close>

text \<open>A piece that \<open>Clean\<close> keeps as it is.\<close>

definition plain :: "string \<Rightarrow> bool" where
  "plain p \<longleftrightarrow> p \<noteq> [] \<and> CHR ''/'' \<notin> set p \<and> p \<noteq> ''.'' \<and> p \<noteq> ''..''"

lemma split_on_nonempty [simp]: "split_on sep s \<noteq> []"
  by (cases s) (auto split: list.splits)

lemma split_on_single: "sep \<notin> set p \<Longrightarrow> split_on sep p = [p]"
  by (induction p) auto

lemma split_on_append: "sep \<notin> set p \<Longrightarrow> split_on sep (p @ sep # s) = p # split_on sep s"
  by (induction p) auto

lemma split_on_join:
  "ps \<noteq> [] \<Longrightarrow> (\<And>p. p \<in> set ps \<Longrightarrow> sep \<notin> set p) \<Longrightarrow> split_on sep (join ps [sep]) = ps"
  by (induction ps "[sep]" rule: join.induct) (auto simp: split_on_single split_on_append)

lemma split_on_pieces: "p \<in> set (split_on sep s) \<Longrightarrow> sep \<notin> set p"
  by (induction s arbitrary: p) (auto split: if_splits list.splits)

lemma join_split_on: "join (split_on sep s) [sep] = s"
proof (induction s)
  case (Cons c cs)
  obtain p ps where "split_on sep cs = p # ps" by (metis neq_Nil_conv split_on_nonempty)
  with Cons show ?case by (cases ps) auto
qed simp

lemma clean_loop_plain: "(\<And>p. p \<in> set ps \<Longrightarrow> plain p) \<Longrightarrow> clean_loop rooted ps out = rev out @ ps"
  by (induction ps arbitrary: out) (auto simp: plain_def)

lemma path_Clean_plain:
  assumes "ps \<noteq> []" and "\<And>p. p \<in> set ps \<Longrightarrow> plain p"
  shows "path_Clean (CHR ''/'' # join ps ''/'') = CHR ''/'' # join ps ''/''"
proof -
  have "split_slash (join ps ''/'') = ps"
    using assms by (intro split_on_join) (auto simp: plain_def)
  then show ?thesis
    using assms clean_loop_plain [of ps True "[]"] by (simp add: path_Clean_def has_prefix_def)
qed

lemma path_Join_plain:
  assumes "\<And>p. p \<in> set (q # ps) \<Longrightarrow> plain p"
  shows "path_Join ((CHR ''/'' # q) # ps) = CHR ''/'' # join (q # ps) ''/''"
proof -
  have "join ((CHR ''/'' # q) # ps) ''/'' = CHR ''/'' # join (q # ps) ''/''"
    by (cases ps) auto
  then show ?thesis using path_Clean_plain [of "q # ps"] assms by (simp add: path_Join_def)
qed

lemma join_plain_inject:
  assumes "\<And>p. p \<in> set ps \<union> set qs \<Longrightarrow> plain p" and "ps \<noteq> []" and "qs \<noteq> []"
    and "join ps ''/'' = join qs ''/''"
  shows "ps = qs"
proof -
  have "split_slash (join ps ''/'') = ps" "split_slash (join qs ''/'') = qs"
    using assms(1-3) by (auto intro!: split_on_join simp: plain_def)
  with assms(4) show ?thesis by metis
qed

text \<open>A rooted path cleans to a path whose components are all plain: no way up is left.\<close>

lemma clean_loop_rooted_plain:
  assumes "\<And>p. p \<in> set ps \<Longrightarrow> CHR ''/'' \<notin> set p" and "\<And>p. p \<in> set out \<Longrightarrow> plain p"
    and "q \<in> set (clean_loop True ps out)"
  shows "plain q"
  using assms
proof (induction ps arbitrary: out)
  case Nil
  then show ?case by simp
next
  case (Cons p ps)
  show ?case
  proof (cases "p = ''..''")
    case True
    have "\<And>x. x \<in> set (tl out) \<Longrightarrow> plain x" using Cons.prems(2) by (cases out) auto
    moreover have "q \<in> set (clean_loop True ps (tl out))"
      using Cons.prems(2,3) True by (auto simp: plain_def split: list.splits)
    ultimately show ?thesis using Cons.IH Cons.prems(1) by (meson list.set_intros(2))
  next
    case False
    show ?thesis
    proof (cases "p = [] \<or> p = ''.''")
      case True
      with False Cons.prems show ?thesis by (intro Cons.IH [of out]) simp_all
    next
      case kept: False
      then have "\<And>x. x \<in> set (p # out) \<Longrightarrow> plain x"
        using False Cons.prems(1,2) by (auto simp: plain_def)
      with Cons.IH [of "p # out"] False kept Cons.prems(1,3) show ?thesis by simp
    qed
  qed
qed

end
