(* ===== verification/Go_Regex.thy ===== *)
theory Go_Regex
  imports Go_Text
begin

text \<open>
  The package \<open>regexp\<close> of the Go library as the repository uses it. A compiled expression is seen
  through \<open>FindStringSubmatch\<close>, \<open>MatchString\<close> and \<open>NumSubexp\<close>; the syntax tree and the
  leftmost-first matcher below compute them for byte expressions with classes, alternatives,
  greedy repetitions, groups and the two text anchors. The parser of \<open>regexp.Compile\<close> is a
  parameter of the theories that compile configuration strings.
\<close>

section \<open>The interface of a compiled expression\<close>

text \<open>\<open>FindStringSubmatch\<close> returns nil, here the empty list, when there is no match.\<close>

record regexp =
  FindStringSubmatch :: "string \<Rightarrow> string list"
  NumSubexp :: nat

definition MatchString :: "regexp \<Rightarrow> string \<Rightarrow> bool" where
  "MatchString m s \<longleftrightarrow> FindStringSubmatch m s \<noteq> []"

text \<open>The documented shape of the result: the match and one entry per group.\<close>

definition regexp_ok :: "regexp \<Rightarrow> bool" where
  "regexp_ok m \<longleftrightarrow> (\<forall>s. FindStringSubmatch m s \<noteq> [] \<longrightarrow>
     length (FindStringSubmatch m s) = Suc (NumSubexp m))"

lemma regexp_ok_length:
  "regexp_ok m \<Longrightarrow> FindStringSubmatch m s \<noteq> [] \<Longrightarrow> length (FindStringSubmatch m s) = Suc (NumSubexp m)"
  by (simp add: regexp_ok_def)

section \<open>Expressions and the matcher\<close>

text \<open>
  \<open>Repeat r lo hi\<close> is \<open>r{lo,hi}\<close>; \<open>Star\<close> is greedy and gives up an iteration that consumes
  nothing. Groups carry their number, from 1.
\<close>

datatype regex =
    Class "char \<Rightarrow> bool"
  | Seq regex regex
  | Alt regex regex
  | Star regex
  | Repeat regex nat nat
  | Group nat regex
  | BeginText
  | EndText
  | Eps

text \<open>What is matched so far, what is left, and the groups.\<close>

type_synonym match_state = "string \<times> string \<times> (nat \<rightharpoonup> string)"

definition rest_length :: "match_state \<Rightarrow> nat" where
  "rest_length st = length (fst (snd st))"

text \<open>The states after an optional greedy repetition, best first; \<open>n\<close> bounds the iterations.\<close>

fun iterate :: "nat \<Rightarrow> (match_state \<Rightarrow> match_state list) \<Rightarrow> match_state \<Rightarrow> match_state list" where
  "iterate 0 f st = [st]"
| "iterate (Suc n) f st =
     concat (map (iterate n f) (filter (\<lambda>st'. rest_length st' < rest_length st) (f st))) @ [st]"

fun exactly :: "nat \<Rightarrow> (match_state \<Rightarrow> match_state list) \<Rightarrow> match_state \<Rightarrow> match_state list" where
  "exactly 0 f st = [st]"
| "exactly (Suc n) f st = concat (map (exactly n f) (f st))"

text \<open>All ways to match at the front, in the order a backtracking matcher finds them.\<close>

fun run_regex :: "regex \<Rightarrow> match_state \<Rightarrow> match_state list" where
  "run_regex (Class p) (pre, [], g) = []"
| "run_regex (Class p) (pre, c # cs, g) = (if p c then [(pre @ [c], cs, g)] else [])"
| "run_regex (Seq a b) st = concat (map (run_regex b) (run_regex a st))"
| "run_regex (Alt a b) st = run_regex a st @ run_regex b st"
| "run_regex (Star a) st = iterate (rest_length st) (run_regex a) st"
| "run_regex (Repeat a lo hi) st =
     concat (map (iterate (hi - lo) (run_regex a)) (exactly lo (run_regex a) st))"
| "run_regex (Group k a) (pre, s, g) =
     map (\<lambda>(pre', s', g'). (pre', s', g'(k \<mapsto> drop (length pre) pre'))) (run_regex a (pre, s, g))"
| "run_regex BeginText (pre, s, g) = (if pre = [] then [(pre, s, g)] else [])"
| "run_regex EndText (pre, s, g) = (if s = [] then [(pre, s, g)] else [])"
| "run_regex Eps st = [st]"

text \<open>The leftmost match: the first start that has one, and there the best one.\<close>

fun search :: "regex \<Rightarrow> string \<Rightarrow> string \<Rightarrow> (string \<times> (nat \<rightharpoonup> string)) option" where
  "search r pre s =
     (case run_regex r (pre, s, Map.empty) of
        (pre', _, g) # _ \<Rightarrow> Some (drop (length pre) pre', g)
      | [] \<Rightarrow> (case s of [] \<Rightarrow> None | c # cs \<Rightarrow> search r (pre @ [c]) cs))"

declare search.simps [simp del]

fun num_groups :: "regex \<Rightarrow> nat" where
  "num_groups (Class p) = 0"
| "num_groups (Seq a b) = num_groups a + num_groups b"
| "num_groups (Alt a b) = num_groups a + num_groups b"
| "num_groups (Star a) = num_groups a"
| "num_groups (Repeat a lo hi) = num_groups a"
| "num_groups (Group k a) = Suc (num_groups a)"
| "num_groups BeginText = 0"
| "num_groups EndText = 0"
| "num_groups Eps = 0"

text \<open>A group without a match is the empty string.\<close>

definition MustCompile :: "regex \<Rightarrow> regexp" where
  "MustCompile r = \<lparr>
     FindStringSubmatch = (\<lambda>s. case search r [] s of
        None \<Rightarrow> []
      | Some (m, g) \<Rightarrow> m # map (\<lambda>k. case g k of None \<Rightarrow> [] | Some t \<Rightarrow> t) [1..<Suc (num_groups r)]),
     NumSubexp = num_groups r\<rparr>"

lemma regexp_ok_MustCompile: "regexp_ok (MustCompile r)"
  by (simp add: regexp_ok_def MustCompile_def split: option.splits prod.splits)

definition literal :: "string \<Rightarrow> regex" where
  "literal s = foldr (\<lambda>c. Seq (Class (\<lambda>d. d = c))) s Eps"

section \<open>The language of an expression\<close>

fun anchor_free :: "regex \<Rightarrow> bool" where
  "anchor_free (Class p) = True"
| "anchor_free (Seq a b) = (anchor_free a \<and> anchor_free b)"
| "anchor_free (Alt a b) = (anchor_free a \<and> anchor_free b)"
| "anchor_free (Star a) = anchor_free a"
| "anchor_free (Repeat a lo hi) = anchor_free a"
| "anchor_free (Group k a) = anchor_free a"
| "anchor_free BeginText = False"
| "anchor_free EndText = False"
| "anchor_free Eps = True"

definition conc :: "string set \<Rightarrow> string set \<Rightarrow> string set" where
  "conc A B = {u @ v | u v. u \<in> A \<and> v \<in> B}"

lemma concI: "u \<in> A \<Longrightarrow> v \<in> B \<Longrightarrow> u @ v \<in> conc A B"
  by (auto simp: conc_def)

lemma concE:
  assumes "w \<in> conc A B"
  obtains u v where "w = u @ v" and "u \<in> A" and "v \<in> B"
  using assms by (auto simp: conc_def)

fun power_set :: "nat \<Rightarrow> string set \<Rightarrow> string set" where
  "power_set 0 A = {[]}"
| "power_set (Suc n) A = conc A (power_set n A)"

fun lang :: "regex \<Rightarrow> string set" where
  "lang (Class p) = {[c] | c. p c}"
| "lang (Seq a b) = conc (lang a) (lang b)"
| "lang (Alt a b) = lang a \<union> lang b"
| "lang (Star a) = (\<Union>n. power_set n (lang a))"
| "lang (Repeat a lo hi) = (\<Union>n \<in> {lo..max lo hi}. power_set n (lang a))"
| "lang (Group k a) = lang a"
| "lang BeginText = {[]}"
| "lang EndText = {[]}"
| "lang Eps = {[]}"

text \<open>
  A matcher \<open>f\<close> reads exactly the words of \<open>A\<close>: from every state it reaches the states behind
  the prefixes of the rest that are in \<open>A\<close>, whatever groups it records.
\<close>

definition reads :: "(match_state \<Rightarrow> match_state list) \<Rightarrow> string set \<Rightarrow> bool" where
  "reads f A \<longleftrightarrow> (\<forall>pre s g.
     (\<lambda>(pre', s', g'). (pre', s')) ` set (f (pre, s, g)) = {(pre @ u, v) | u v. u \<in> A \<and> s = u @ v})"

lemma readsI:
  assumes "\<And>pre s g pre' s' g'. (pre', s', g') \<in> set (f (pre, s, g)) \<Longrightarrow>
      \<exists>u. u \<in> A \<and> pre' = pre @ u \<and> s = u @ s'"
    and "\<And>pre u v g. u \<in> A \<Longrightarrow> \<exists>g'. (pre @ u, v, g') \<in> set (f (pre, u @ v, g))"
  shows "reads f A"
  unfolding reads_def
proof (intro allI equalityI subsetI)
  fix pre s g x
  assume "x \<in> (\<lambda>(pre', s', g'). (pre', s')) ` set (f (pre, s, g))"
  with assms(1) show "x \<in> {(pre @ u, v) | u v. u \<in> A \<and> s = u @ v}" by fastforce
next
  fix pre s g x
  assume "x \<in> {(pre @ u, v) | u v. u \<in> A \<and> s = u @ v}"
  then obtain u v where x: "x = (pre @ u, v)" "u \<in> A" "s = u @ v" by auto
  from assms(2) [OF this(2)] obtain g' where "(pre @ u, v, g') \<in> set (f (pre, u @ v, g))" by blast
  with x show "x \<in> (\<lambda>(pre', s', g'). (pre', s')) ` set (f (pre, s, g))" by force
qed

lemma readsD:
  assumes "reads f A" and "(pre', s', g') \<in> set (f (pre, s, g))"
  shows "\<exists>u. u \<in> A \<and> pre' = pre @ u \<and> s = u @ s'"
proof -
  have "(pre', s') \<in> (\<lambda>(pre', s', g'). (pre', s')) ` set (f (pre, s, g))"
    using assms(2) by force
  with assms(1) show ?thesis by (auto simp: reads_def)
qed

lemma readsE:
  assumes "reads f A" and "u \<in> A"
  shows "\<exists>g'. (pre @ u, v, g') \<in> set (f (pre, u @ v, g))"
proof -
  have "(pre @ u, v) \<in> (\<lambda>(pre', s', g'). (pre', s')) ` set (f (pre, u @ v, g))"
    using assms unfolding reads_def by blast
  then show ?thesis by auto
qed

lemma reads_Seq:
  assumes "reads f A" and "reads h B"
  shows "reads (\<lambda>st. concat (map h (f st))) (conc A B)"
proof (rule readsI)
  fix pre s g pre' s' g'
  assume "(pre', s', g') \<in> set (concat (map h (f (pre, s, g))))"
  then obtain p t k where "(p, t, k) \<in> set (f (pre, s, g))" "(pre', s', g') \<in> set (h (p, t, k))"
    by auto
  with readsD [OF assms(1)] readsD [OF assms(2)]
  obtain u v where "u \<in> A" "p = pre @ u" "s = u @ t" "v \<in> B" "pre' = p @ v" "t = v @ s'" by blast
  then show "\<exists>u. u \<in> conc A B \<and> pre' = pre @ u \<and> s = u @ s'" by (auto simp: conc_def)
next
  fix pre w v g
  assume "w \<in> conc A B"
  then obtain a b where w: "w = a @ b" "a \<in> A" "b \<in> B" by (auto simp: conc_def)
  from readsE [OF assms(1) w(2)] obtain k where "(pre @ a, b @ v, k) \<in> set (f (pre, a @ b @ v, g))"
    by blast
  moreover from readsE [OF assms(2) w(3)] obtain g' where
    "((pre @ a) @ b, v, g') \<in> set (h (pre @ a, b @ v, k))" by blast
  ultimately show "\<exists>g'. (pre @ w, v, g') \<in> set (concat (map h (f (pre, w @ v, g))))"
    using w by force
qed

lemma reads_exactly: "reads f A \<Longrightarrow> reads (exactly n f) (power_set n A)"
proof (induction n)
  case 0
  show ?case by (rule readsI) auto
next
  case (Suc n)
  from reads_Seq [OF Suc.prems Suc.IH [OF Suc.prems]] show ?case
    by (simp add: reads_def)
qed

text \<open>Empty factors of a power can be left out.\<close>

lemma power_set_nonempty_factors:
  "u \<in> power_set n A \<Longrightarrow> \<exists>m \<le> n. u \<in> power_set m (A - {[]})"
proof (induction n arbitrary: u)
  case (Suc n)
  then obtain a b where u: "u = a @ b" "a \<in> A" "b \<in> power_set n A" by (auto simp: conc_def)
  from Suc.IH [OF u(3)] obtain m where m: "m \<le> n" "b \<in> power_set m (A - {[]})" by blast
  show ?case
  proof (cases "a = []")
    case True
    with u m have "u \<in> power_set m (A - {[]})" and "m \<le> Suc n" by auto
    then show ?thesis by blast
  next
    case False
    with u m have "u \<in> power_set (Suc m) (A - {[]})" by (auto simp: conc_def)
    with m show ?thesis by (meson Suc_le_mono)
  qed
qed simp

lemma power_set_nonempty_length: "u \<in> power_set m (A - {[]}) \<Longrightarrow> m \<le> length u"
proof (induction m arbitrary: u)
  case (Suc m)
  then obtain a b where "u = a @ b" "a \<noteq> []" "b \<in> power_set m (A - {[]})" by (auto simp: conc_def)
  with Suc.IH [of b] show ?case by (cases a) auto
qed simp

lemma iterate_sound:
  assumes "reads f A" and "(pre', s', g') \<in> set (iterate n f (pre, s, g))"
  shows "\<exists>u m. m \<le> n \<and> u \<in> power_set m A \<and> pre' = pre @ u \<and> s = u @ s'"
  using assms(2)
proof (induction n arbitrary: pre s g)
  case 0
  then show ?case by auto
next
  case (Suc n)
  show ?case
  proof (cases "(pre', s', g') = (pre, s, g)")
    case True
    then show ?thesis by (auto intro!: exI [of _ "[]"] exI [of _ 0])
  next
    case False
    with Suc.prems obtain p t k where "(p, t, k) \<in> set (f (pre, s, g))"
      "(pre', s', g') \<in> set (iterate n f (p, t, k))" by auto
    with readsD [OF assms(1)] Suc.IH obtain a u m where "a \<in> A" "p = pre @ a" "s = a @ t"
      "m \<le> n" "u \<in> power_set m A" "pre' = p @ u" "t = u @ s'" by blast
    then show ?thesis
      by (intro exI [of _ "a @ u"] exI [of _ "Suc m"]) (auto simp: conc_def)
  qed
qed

lemma iterate_complete:
  assumes "reads f A" and "m \<le> n" and "u \<in> power_set m (A - {[]})"
  shows "\<exists>g'. (pre @ u, v, g') \<in> set (iterate n f (pre, u @ v, g))"
  using assms(2,3)
proof (induction n arbitrary: m u pre g)
  case 0
  then show ?case by auto
next
  case (Suc n)
  show ?case
  proof (cases m)
    case 0
    with Suc.prems show ?thesis by auto
  next
    case (Suc m')
    with Suc.prems obtain a b where u: "u = a @ b" "a \<in> A" "a \<noteq> []" "b \<in> power_set m' (A - {[]})"
      by (auto simp: conc_def)
    from readsE [OF assms(1) u(2)] obtain k where
      one: "(pre @ a, b @ v, k) \<in> set (f (pre, a @ b @ v, g))" by blast
    from Suc.prems \<open>m = Suc m'\<close> have "m' \<le> n" by simp
    from Suc.IH [OF this u(4)] obtain g' where
      "((pre @ a) @ b, v, g') \<in> set (iterate n f (pre @ a, b @ v, k))" by blast
    with one u(1,3) show ?thesis by (force simp: rest_length_def)
  qed
qed

lemma reads_iterate:
  "reads f A \<Longrightarrow> reads (iterate n f) (\<Union>m \<in> {0..n}. power_set m A)"
proof (rule readsI)
  fix pre s g pre' s' g'
  assume "reads f A" and "(pre', s', g') \<in> set (iterate n f (pre, s, g))"
  from iterate_sound [OF this] show "\<exists>u. u \<in> (\<Union>m \<in> {0..n}. power_set m A) \<and> pre' = pre @ u \<and> s = u @ s'"
    by (metis (no_types, lifting) UN_I atLeast0AtMost atMost_iff)
next
  fix pre u v g
  assume f: "reads f A" and "u \<in> (\<Union>m \<in> {0..n}. power_set m A)"
  then obtain m where "m \<le> n" "u \<in> power_set m A" by auto
  with power_set_nonempty_factors obtain m' where "m' \<le> n" "u \<in> power_set m' (A - {[]})"
    using order_trans by blast
  with iterate_complete [OF f] show "\<exists>g'. (pre @ u, v, g') \<in> set (iterate n f (pre, u @ v, g))"
    by blast
qed

lemma power_set_add: "power_set (m + n) A = conc (power_set m A) (power_set n A)"
proof (induction m)
  case 0
  show ?case by (auto simp: conc_def)
next
  case (Suc m)
  then show ?case by (auto simp: conc_def) (metis append.assoc)+
qed

lemma reads_Star:
  assumes "reads f A"
  shows "reads (\<lambda>st. iterate (rest_length st) f st) (\<Union>n. power_set n A)"
proof (rule readsI)
  fix pre s g pre' s' g'
  assume "(pre', s', g') \<in> set (iterate (rest_length (pre, s, g)) f (pre, s, g))"
  from iterate_sound [OF assms this]
  show "\<exists>u. u \<in> (\<Union>n. power_set n A) \<and> pre' = pre @ u \<and> s = u @ s'" by auto
next
  fix pre u v g
  assume "u \<in> (\<Union>n. power_set n A)"
  with power_set_nonempty_factors obtain m where m: "u \<in> power_set m (A - {[]})" by blast
  with power_set_nonempty_length have "m \<le> rest_length (pre, u @ v, g)"
    by (fastforce simp: rest_length_def)
  with iterate_complete [OF assms _ m]
  show "\<exists>g'. (pre @ u, v, g') \<in> set (iterate (rest_length (pre, u @ v, g)) f (pre, u @ v, g))"
    by blast
qed

lemma reads_Repeat:
  assumes "reads f A"
  shows "reads (\<lambda>st. concat (map (iterate (hi - lo) f) (exactly lo f st)))
    (\<Union>n \<in> {lo..max lo hi}. power_set n A)"
proof -
  have "(\<Union>n \<in> {lo..max lo hi}. power_set n A) =
      conc (power_set lo A) (\<Union>m \<in> {0..hi - lo}. power_set m A)" (is "?L = ?R")
  proof (intro equalityI subsetI)
    fix u assume "u \<in> ?L"
    then obtain n where n: "lo \<le> n" "n \<le> max lo hi" "u \<in> power_set n A" by auto
    then have "u \<in> conc (power_set lo A) (power_set (n - lo) A)"
      by (metis le_add_diff_inverse power_set_add)
    with n show "u \<in> ?R" by (force simp: conc_def)
  next
    fix u assume "u \<in> ?R"
    then obtain m where m: "m \<le> hi - lo" "u \<in> conc (power_set lo A) (power_set m A)"
      by (fastforce simp: conc_def)
    then have "u \<in> power_set (lo + m) A" by (simp add: power_set_add)
    with m show "u \<in> ?L" by (intro UN_I [of "lo + m"]) auto
  qed
  with reads_Seq [OF reads_exactly [OF assms] reads_iterate [OF assms]] show ?thesis by simp
qed

theorem run_regex_reads: "anchor_free r \<Longrightarrow> reads (run_regex r) (lang r)"
proof (induction r)
  case (Class p)
  show ?case
  proof (rule readsI)
    fix pre s g pre' s' g'
    assume "(pre', s', g') \<in> set (run_regex (Class p) (pre, s, g))"
    then show "\<exists>u. u \<in> lang (Class p) \<and> pre' = pre @ u \<and> s = u @ s'"
      by (cases s) (auto split: if_splits)
  qed auto
next
  case (Seq a b)
  then show ?case using reads_Seq [of "run_regex a" "lang a" "run_regex b" "lang b"]
    by (simp add: reads_def)
next
  case (Alt a b)
  then have a: "reads (run_regex a) (lang a)" and b: "reads (run_regex b) (lang b)" by auto
  show ?case
    by (rule readsI) (auto dest: readsD [OF a] readsD [OF b] readsE [OF a] readsE [OF b])
next
  case (Star a)
  then show ?case using reads_Star [of "run_regex a" "lang a"] by (simp add: reads_def)
next
  case (Repeat a lo hi)
  then show ?case using reads_Repeat [of "run_regex a" "lang a" hi lo] by (simp add: reads_def)
next
  case (Group k a)
  then have a: "reads (run_regex a) (lang a)" by simp
  show ?case
  proof (rule readsI)
    fix pre u v g
    assume "u \<in> lang (Group k a)"
    then have "u \<in> lang a" by simp
    from readsE [OF a this] obtain g' where "(pre @ u, v, g') \<in> set (run_regex a (pre, u @ v, g))"
      by blast
    then show "\<exists>g'. (pre @ u, v, g') \<in> set (run_regex (Group k a) (pre, u @ v, g))" by force
  qed (auto dest: readsD [OF a])
next
  case Eps
  show ?case by (rule readsI) auto
qed auto

text \<open>An expression with both anchors around it matches exactly the words of its language.\<close>

lemma run_anchored_later: "pre \<noteq> [] \<Longrightarrow> run_regex (Seq BeginText r) (pre, s, g) = []"
  by simp

lemma search_anchored_later: "pre \<noteq> [] \<Longrightarrow> search (Seq BeginText r) pre s = None"
proof (induction s arbitrary: pre)
  case Nil
  then show ?case by (subst search.simps) (simp add: run_anchored_later)
next
  case (Cons c s)
  from Cons.prems Cons.IH [of "pre @ [c]"] show ?case
    by (subst search.simps) (simp add: run_anchored_later)
qed

lemma MatchString_anchored:
  assumes "anchor_free r"
  shows "MatchString (MustCompile (Seq BeginText (Seq r EndText))) s \<longleftrightarrow> s \<in> lang r"
proof -
  let ?r = "Seq BeginText (Seq r EndText)"
  have reads: "reads (run_regex r) (lang r)" by (rule run_regex_reads [OF assms])
  have run: "run_regex ?r ([], s, Map.empty) =
      concat (map (run_regex EndText) (run_regex r ([], s, Map.empty)))" by simp
  have "run_regex ?r ([], s, Map.empty) \<noteq> [] \<longleftrightarrow> s \<in> lang r"
  proof
    assume "run_regex ?r ([], s, Map.empty) \<noteq> []"
    then obtain p t g where "(p, t, g) \<in> set (run_regex r ([], s, Map.empty))" "t = []"
      unfolding run by (auto split: if_splits)
    with readsD [OF reads] show "s \<in> lang r" by fastforce
  next
    assume "s \<in> lang r"
    with readsE [OF reads, of s "[]" "[]" Map.empty] obtain g' where
      "(s, [], g') \<in> set (run_regex r ([], s, Map.empty))" by auto
    then have "(s, [], g') \<in> set (run_regex ?r ([], s, Map.empty))" unfolding run by force
    then show "run_regex ?r ([], s, Map.empty) \<noteq> []" by (metis empty_iff list.set(1))
  qed
  moreover have "search ?r [] s = None \<longleftrightarrow> run_regex ?r ([], s, Map.empty) = []"
    by (subst search.simps)
      (cases "run_regex ?r ([], s, Map.empty)"; cases s;
        simp add: search_anchored_later split: prod.split del: run_regex.simps)
  ultimately show ?thesis
    by (auto simp: MatchString_def MustCompile_def simp del: run_regex.simps
        split: option.splits)
qed

end
