(* ===== verification/Plugin_Partition.thy ===== *)
theory Plugin_Partition
  imports Plugin_Api Go_Path Go_Regex
begin

text \<open>
  Partition resources, \<open>internal/plugin/partition.go\<close>: the instance of one partition, what an
  allocation of it returns, and the mappings from devices to templates and instances. Texts are
  bytes; \<open>sanitizeEnv\<close> is modelled on ASCII.
\<close>

section \<open>The instance\<close>

record partition =
  part_domain :: string
  part_label :: string
  part_dev :: device
  part_disableTopologyHints :: bool

definition partition_Id :: "partition \<Rightarrow> string" where
  "partition_Id p = part_label p"

definition partition_Health :: "partition \<Rightarrow> health" where
  "partition_Health p = Healthy"

definition partition_TopologyHints :: "partition \<Rightarrow> topology_info" where
  "partition_TopologyHints p =
     (if part_disableTopologyHints p then None
      else let numaNode = NumaNode (part_dev p)
           in if numaNode < 0 then None else Some [numaNode])"

text \<open>The replacer of dots and dashes, then upper case.\<close>

definition replace_env_char :: "char \<Rightarrow> char" where
  "replace_env_char c = (if c = CHR ''.'' \<or> c = CHR ''-'' then CHR ''_'' else c)"

definition sanitizeEnv :: "string \<Rightarrow> string" where
  "sanitizeEnv s = to_upper (map replace_env_char s)"

definition container_path :: "string \<Rightarrow> string \<Rightarrow> string" where
  "container_path domain label = path_Join [''/dev'', ''allocated'', domain, ''part'', label]"

definition env_name :: "string \<Rightarrow> string \<Rightarrow> string \<Rightarrow> string" where
  "env_name domain label env =
     sanitizeEnv domain @ ''_PART_'' @ sanitizeEnv label @ ''_'' @ sanitizeEnv env"

definition allocatePartitionDevice :: "device \<Rightarrow> string \<Rightarrow> string \<Rightarrow> allocate_response" where
  "allocatePartitionDevice dev domain label =
     (let containerPath = container_path domain label;
          envName = env_name domain label;
          envs = Map.empty
            (envName ''PATH'' \<mapsto> containerPath,
             envName ''DISK_ID'' \<mapsto> SystemAttributeLookup dev SysAttrWWID,
             envName ''DISK_MODEL'' \<mapsto> SystemAttributeLookup dev SysAttrModel);
          serial0 = SystemAttributeLookup dev SysAttrSerial;
          serial = (if serial0 = [] then PropertyLookup dev PropertyShortSerial else serial0)
      in \<lparr>Devices = [\<lparr>HostPath = DevNode dev, ContainerPath = containerPath, Permissions = ''rw''\<rparr>],
          Mounts = [],
          Envs = (if serial \<noteq> [] then envs(envName ''DISK_SERIAL'' \<mapsto> serial) else envs),
          Annotations = Map.empty\<rparr>)"

definition partition_Allocate :: "partition \<Rightarrow> allocate_response" where
  "partition_Allocate p = allocatePartitionDevice (part_dev p) (part_domain p) (part_label p)"

section \<open>Matching devices\<close>

text \<open>
  The checks that the two mappings of partitions and the batch matcher share: a block device, a
  partition, with a \<open>PARTNAME\<close> that the expression matches. The result is the name and the matches.
\<close>

definition partition_matches :: "regexp \<Rightarrow> device \<Rightarrow> (string \<times> string list) option" where
  "partition_matches matcher dev =
     (if Subsystem dev \<noteq> BlockSubsystem then None
      else if DevType dev \<noteq> DeviceTypePart then None
      else case Properties dev PropertyPartName of
          None \<Rightarrow> None
        | Some partlabel \<Rightarrow>
            (let matches = FindStringSubmatch matcher partlabel
             in if matches = [] then None else Some (partlabel, matches)))"

definition PartitionLabelMatcherTemplater ::
    "string \<Rightarrow> regexp \<Rightarrow> resource_template option from_device" where
  "PartitionLabelMatcherTemplater domain matcher dev =
     (case partition_matches matcher dev of
        None \<Rightarrow> Return (Inr None)
      | Some (partlabel, matches) \<Rightarrow>
          Return (Inr (Some \<lparr>Domain = domain, Prefix = ''part-'' @ join (tl matches) ''_''\<rparr>)))"

definition PartitionLabelMatcherInstances ::
    "string \<Rightarrow> regexp \<Rightarrow> bool \<Rightarrow> partition list from_device" where
  "PartitionLabelMatcherInstances domain matcher disableTopologyHints dev =
     (case partition_matches matcher dev of
        None \<Rightarrow> Return (Inr [])
      | Some (partlabel, matches) \<Rightarrow>
          Return (Inr [\<lparr>part_domain = domain,
            part_label = (if length matches > 1 then matches ! 1 else partlabel),
            part_dev = dev, part_disableTopologyHints = disableTopologyHints\<rparr>]))"

lemmas partition_mappings =
  PartitionLabelMatcherTemplater_def PartitionLabelMatcherInstances_def

section \<open>Container paths and variables\<close>

lemma path_pieces_plain: "plain ''dev''" "plain ''allocated''" "plain ''part''"
  by (simp_all add: plain_def)

lemma container_path_plain:
  assumes "plain domain" and "plain label"
  shows "container_path domain label = ''/dev/allocated/'' @ domain @ ''/part/'' @ label"
proof -
  have "container_path domain label =
      CHR ''/'' # join [''dev'', ''allocated'', domain, ''part'', label] ''/''"
    unfolding container_path_def using assms path_pieces_plain by (intro path_Join_plain) auto
  then show ?thesis by simp
qed

lemma container_path_inject:
  assumes "plain domain" "plain label" "plain domain'" "plain label'"
    and "container_path domain label = container_path domain' label'"
  shows "domain = domain' \<and> label = label'"
proof -
  have "join [domain, ''part'', label] ''/'' = join [domain', ''part'', label'] ''/''"
    using assms(5) by (simp add: container_path_plain assms(1-4))
  from join_plain_inject [OF _ _ _ this] assms(1-4) path_pieces_plain show ?thesis by auto
qed

lemma env_name_inject:
  "env_name domain label env = env_name domain label env' \<longleftrightarrow> sanitizeEnv env = sanitizeEnv env'"
  by (simp add: env_name_def)

lemma sanitized_names:
  "sanitizeEnv ''PATH'' = ''PATH''" "sanitizeEnv ''DISK_ID'' = ''DISK_ID''"
  "sanitizeEnv ''DISK_MODEL'' = ''DISK_MODEL''" "sanitizeEnv ''DISK_SERIAL'' = ''DISK_SERIAL''"
  by (simp_all add: sanitizeEnv_def to_upper_def upper_char_def replace_env_char_def)

lemmas env_name_simps = env_name_inject sanitized_names

section \<open>Properties\<close>

text \<open>
  C23: An allocated partition. A container gets the device node of the partition under
  \<open>/dev/allocated/<domain>/part/<label>\<close> with read and write permission and nothing else; the
  variables name that path, the disk id and the disk model, each looked up along the parents; the
  serial is the system attribute, or failing that the udev property, and has no variable when both
  are empty. Domain and label are path components of their own.
\<close>
theorem partition_allocate_response:
  assumes "plain domain" and "plain label"
  shows "let r = allocatePartitionDevice dev domain label;
      serial = (if SystemAttributeLookup dev SysAttrSerial \<noteq> [] then SystemAttributeLookup dev SysAttrSerial
        else PropertyLookup dev PropertyShortSerial)
    in Devices r = [\<lparr>HostPath = DevNode dev,
         ContainerPath = ''/dev/allocated/'' @ domain @ ''/part/'' @ label, Permissions = ''rw''\<rparr>] \<and>
      Mounts r = [] \<and> Annotations r = Map.empty \<and>
      Envs r (env_name domain label ''PATH'') = Some (''/dev/allocated/'' @ domain @ ''/part/'' @ label) \<and>
      Envs r (env_name domain label ''DISK_ID'') = Some (SystemAttributeLookup dev SysAttrWWID) \<and>
      Envs r (env_name domain label ''DISK_MODEL'') = Some (SystemAttributeLookup dev SysAttrModel) \<and>
      Envs r (env_name domain label ''DISK_SERIAL'') = (if serial = [] then None else Some serial) \<and>
      dom (Envs r) \<subseteq> env_name domain label ` {''PATH'', ''DISK_ID'', ''DISK_MODEL'', ''DISK_SERIAL''}"
  unfolding allocatePartitionDevice_def Let_def container_path_plain [OF assms]
  by (auto simp: env_name_simps split: if_splits)

definition demo_partition :: device where
  "demo_partition = WithDevNode ''/dev/sda1'' (WithSysAttr ''wwid'' ''w1''
     (WithProperty ''PARTNAME'' ''ydb_disk1''
       (WithDevType ''partition'' (WithSubsystem ''block'' (NewFakeDevice ''p1'')))))"

lemma partition_allocate_response_witness:
  "Envs (allocatePartitionDevice demo_partition ''ydb.tech'' ''disk1'')
     (env_name ''ydb.tech'' ''disk1'' ''DISK_ID'') = Some ''w1''"
proof -
  have "plain ''ydb.tech''" and "plain ''disk1''" by (simp_all add: plain_def)
  from partition_allocate_response [OF this, of demo_partition] show ?thesis
    by (simp add: Let_def demo_partition_def fake_builders SysAttrWWID_def map_index_def)
qed

text \<open>
  Different partitions never share a container path, as long as domains and labels are path
  components.
\<close>
theorem partition_paths_disjoint:
  assumes "plain domain" "plain label" "plain domain'" "plain label'"
    and "(domain, label) \<noteq> (domain', label')"
  shows "map ContainerPath (Devices (allocatePartitionDevice dev domain label)) \<noteq>
    map ContainerPath (Devices (allocatePartitionDevice dev' domain' label'))"
  using container_path_inject [OF assms(1-4)] assms(5)
  by (auto simp: allocatePartitionDevice_def Let_def)

lemma partition_paths_disjoint_witness:
  "map ContainerPath (Devices (allocatePartitionDevice demo_partition ''d'' ''a'')) \<noteq>
    map ContainerPath (Devices (allocatePartitionDevice demo_partition ''d'' ''b''))"
  by (rule partition_paths_disjoint) (simp_all add: plain_def)

text \<open>
  A label decides where its device appears. The label is the text of the partition table, and the
  path is cleaned after joining: a label with enough double dots leaves the directory
  \<open>/dev/allocated\<close> and names any path of the container.
\<close>
lemma partition_label_escapes:
  "map ContainerPath (Devices (allocatePartitionDevice dev ''ydb.tech'' ''../../../../etc/passwd'')) =
     [''/etc/passwd'']"
  by (simp add: allocatePartitionDevice_def Let_def container_path_def path_Join_def path_Clean_def
      has_prefix_def)

text \<open>
  Templates and instances fit together. For a matcher with the documented shape of results, a
  device has a template exactly when it has an instance, and then one; the instance belongs to the
  device, and for a matcher with one group its id is the suffix of the resource name.
\<close>
theorem partition_template_fits_instances:
  assumes "regexp_ok matcher"
    and "PartitionLabelMatcherTemplater domain matcher dev = Return (Inr t)"
    and "PartitionLabelMatcherInstances domain matcher disable dev = Return (Inr ps)"
  shows "case t of
      None \<Rightarrow> ps = []
    | Some tmpl \<Rightarrow> (\<exists>p. ps = [p] \<and> part_dev p = dev \<and> part_domain p = Domain tmpl \<and> Domain tmpl = domain \<and>
        (NumSubexp matcher = 1 \<longrightarrow> Prefix tmpl = ''part-'' @ partition_Id p) \<and>
        (NumSubexp matcher = 0 \<longrightarrow> Prefix tmpl = ''part-'' \<and> Properties dev PropertyPartName = Some (partition_Id p)))"
proof (cases "partition_matches matcher dev")
  case None
  with assms(2,3) show ?thesis by (auto simp: partition_mappings)
next
  case (Some pm)
  obtain partlabel matches where pm: "pm = (partlabel, matches)" by (cases pm)
  with Some have m: "matches = FindStringSubmatch matcher partlabel" "matches \<noteq> []"
      "Properties dev PropertyPartName = Some partlabel"
    by (auto simp: partition_matches_def Let_def split: if_splits option.splits)
  with assms(1) have len: "length matches = Suc (NumSubexp matcher)" by (simp add: regexp_ok_def)
  have one: "\<exists>a b. matches = [a, b]" if "NumSubexp matcher = 1"
    using len that by (auto simp: length_Suc_conv)
  have zero: "\<exists>a. matches = [a]" if "NumSubexp matcher = 0"
    using len that by (auto simp: length_Suc_conv)
  from assms(2,3) Some pm m one zero show ?thesis
    by (auto simp: partition_mappings partition_Id_def)
qed

text \<open>The expression \<open>ydb_(.*)\<close>, anchored nowhere.\<close>

definition demo_matcher :: regexp where
  "demo_matcher = MustCompile (Seq (literal ''ydb_'') (Group 1 (Star (Class (\<lambda>_. True)))))"

lemma demo_matcher_match: "FindStringSubmatch demo_matcher ''ydb_disk1'' = [''ydb_disk1'', ''disk1'']"
  by (simp add: demo_matcher_def MustCompile_def literal_def search.simps rest_length_def
      eval_nat_numeral)

lemma demo_partition_simps:
  "Subsystem demo_partition = BlockSubsystem" "DevType demo_partition = DeviceTypePart"
  "Properties demo_partition PropertyPartName = Some ''ydb_disk1''" "dev_Id demo_partition = ''p1''"
  by (simp_all add: demo_partition_def fake_builders udev_names)

lemma demo_partition_match:
  "partition_matches demo_matcher demo_partition = Some (''ydb_disk1'', [''ydb_disk1'', ''disk1''])"
  by (simp add: partition_matches_def demo_partition_simps demo_matcher_match)

lemma partition_template_fits_instances_witness:
  "\<exists>p. PartitionLabelMatcherInstances ''d'' demo_matcher False demo_partition = Return (Inr [p]) \<and>
     part_dev p = demo_partition \<and> ''part-disk1'' = ''part-'' @ partition_Id p"
proof -
  have t: "PartitionLabelMatcherTemplater ''d'' demo_matcher demo_partition =
      Return (Inr (Some \<lparr>Domain = ''d'', Prefix = ''part-disk1''\<rparr>))"
    by (simp add: PartitionLabelMatcherTemplater_def demo_partition_match)
  obtain ps where i: "PartitionLabelMatcherInstances ''d'' demo_matcher False demo_partition = Return (Inr ps)"
    by (simp add: PartitionLabelMatcherInstances_def demo_partition_match)
  have "regexp_ok demo_matcher" "NumSubexp demo_matcher = 1"
    by (simp_all add: demo_matcher_def regexp_ok_MustCompile)
      (simp add: MustCompile_def literal_def)
  from partition_template_fits_instances [OF this(1) t i] this(2) i show ?thesis by auto
qed

end
