(* ===== verification/Plugin_Pool.thy ===== *)
theory Plugin_Pool
  imports Plugin_Partition
begin

text \<open>
  The pool of partitions behind a batch resource and its matcher, from
  \<open>internal/plugin/batch_partition.go\<close>. The pool is shared by all seats and by the goroutine of the
  resource; every method runs under its lock, so a method is one step.
\<close>

section \<open>The pool\<close>

record pool =
  pool_parts :: "string \<rightharpoonup> device"
  pool_labels :: "string \<rightharpoonup> string"
  pool_domain :: string

definition new_pool :: "string \<Rightarrow> pool" where
  "new_pool domain = \<lparr>pool_parts = Map.empty, pool_labels = Map.empty, pool_domain = domain\<rparr>"

text \<open>\<open>len(p.parts) == 0\<close>.\<close>

definition pool_empty :: "pool \<Rightarrow> bool" where
  "pool_empty p \<longleftrightarrow> card (dom (pool_parts p)) = 0"

definition pool_health :: "pool \<Rightarrow> health" where
  "pool_health p = (if card (dom (pool_parts p)) = 0 then Unhealthy else Healthy)"

definition pool_add :: "device \<Rightarrow> string \<Rightarrow> pool \<Rightarrow> pool" where
  "pool_add dev label p = p\<lparr>pool_parts := (pool_parts p)(dev_Id dev \<mapsto> dev),
     pool_labels := (pool_labels p)(dev_Id dev \<mapsto> label)\<rparr>"

definition pool_remove :: "string \<Rightarrow> pool \<Rightarrow> pool" where
  "pool_remove i p = p\<lparr>pool_parts := (pool_parts p)(i := None),
     pool_labels := (pool_labels p)(i := None)\<rparr>"

text \<open>
  The snapshot of \<open>allocate\<close> in the order in which it ranges over the parts, and the merged response.
\<close>

definition pool_snapshot :: "string list \<Rightarrow> pool \<Rightarrow> (device \<times> string) list" where
  "pool_snapshot order p =
     List.map_filter (\<lambda>i. map_option (\<lambda>dev. (dev, map_index (pool_labels p) i)) (pool_parts p i)) order"

definition pool_allocate :: "string list \<Rightarrow> pool \<Rightarrow> allocate_response" where
  "pool_allocate order p = mergeResponses
     (map (\<lambda>(dev, label). Some (allocatePartitionDevice dev (pool_domain p) label)) (pool_snapshot order p))"

text \<open>The matcher: id and label of a matching partition. A nil device does not match.\<close>

definition matchBatchPartitionDevice :: "device option \<Rightarrow> regexp \<Rightarrow> (string \<times> string) option" where
  "matchBatchPartitionDevice dev matcher =
     (case dev of
        None \<Rightarrow> None
      | Some d \<Rightarrow>
          (case partition_matches matcher d of
             None \<Rightarrow> None
           | Some (partlabel, matches) \<Rightarrow>
               Some (dev_Id d, if length matches > 1 then matches ! 1 else matches ! 0)))"

section \<open>Facts on pools\<close>

definition pool_finite :: "pool \<Rightarrow> bool" where
  "pool_finite p \<longleftrightarrow> finite (dom (pool_parts p)) \<and> dom (pool_labels p) = dom (pool_parts p)"

lemma pool_finite_new [simp]: "pool_finite (new_pool domain)"
  by (simp add: pool_finite_def new_pool_def)

lemma pool_finite_add [simp]: "pool_finite p \<Longrightarrow> pool_finite (pool_add dev label p)"
  by (simp add: pool_finite_def pool_add_def)

lemma pool_finite_remove [simp]: "pool_finite p \<Longrightarrow> pool_finite (pool_remove i p)"
  by (simp add: pool_finite_def pool_remove_def)

lemma pool_empty_iff: "pool_finite p \<Longrightarrow> pool_empty p \<longleftrightarrow> pool_parts p = Map.empty"
  by (simp add: pool_empty_def pool_finite_def)

lemma pool_health_eq: "pool_health p = (if pool_empty p then Unhealthy else Healthy)"
  by (simp add: pool_health_def pool_empty_def)

lemma pool_add_nonempty [simp]: "pool_finite p \<Longrightarrow> \<not> pool_empty (pool_add dev label p)"
  by (simp add: pool_empty_iff) (simp add: pool_add_def)

lemma fst_pool_snapshot: "map fst (pool_snapshot order p) = range_values (pool_parts p) order"
  unfolding pool_snapshot_def range_values_def
  by (induction order) (auto simp: List.map_filter_def split: option.splits)

lemma Devices_pool_allocate:
  "Devices (pool_allocate order p) =
     concat (map (\<lambda>(dev, label). Devices (allocatePartitionDevice dev (pool_domain p) label)) (pool_snapshot order p))"
proof -
  have "map (\<lambda>(dev, label). Some (allocatePartitionDevice dev (pool_domain p) label)) (pool_snapshot order p) =
      map Some (map (\<lambda>(dev, label). allocatePartitionDevice dev (pool_domain p) label) (pool_snapshot order p))"
    by (simp add: case_prod_unfold comp_def)
  then show ?thesis
    unfolding pool_allocate_def
    by (simp only: Devices_mergeResponses) (simp add: case_prod_unfold comp_def)
qed

lemma Devices_allocatePartitionDevice:
  "Devices (allocatePartitionDevice dev domain label) =
     [\<lparr>HostPath = DevNode dev, ContainerPath = container_path domain label, Permissions = ''rw''\<rparr>]"
  by (simp add: allocatePartitionDevice_def Let_def)

section \<open>Properties\<close>

text \<open>
  C32: An allocated batch. Whatever order the run time ranges in, an allocation of a seat hands out
  every partition of the pool, each once: the host paths are those of the devices of the pool in
  that order, and their number is the size of the pool.
\<close>
theorem batch_allocates_whole_pool:
  assumes "range_order (pool_parts p) order"
  shows "map HostPath (Devices (pool_allocate order p)) = map DevNode (range_values (pool_parts p) order) \<and>
    length (Devices (pool_allocate order p)) = card (dom (pool_parts p)) \<and>
    (\<forall>dev \<in> ran (pool_parts p). DevNode dev \<in> HostPath ` set (Devices (pool_allocate order p)))"
proof -
  have eq: "map HostPath (Devices (pool_allocate order p)) = map DevNode (range_values (pool_parts p) order)"
    unfolding Devices_pool_allocate fst_pool_snapshot [symmetric]
    by (induction "pool_snapshot order p") (auto simp: Devices_allocatePartitionDevice map_concat
      comp_def case_prod_unfold concat_map_singleton)
  have "length (Devices (pool_allocate order p)) = length (map HostPath (Devices (pool_allocate order p)))"
    by simp
  also have "\<dots> = card (dom (pool_parts p))"
    unfolding eq using assms by (simp add: range_simps)
  finally have len: "length (Devices (pool_allocate order p)) = card (dom (pool_parts p))" .
  have "HostPath ` set (Devices (pool_allocate order p)) = DevNode ` ran (pool_parts p)"
    using arg_cong [OF eq, of set] assms by (simp add: range_simps)
  with eq len show ?thesis by blast
qed

lemma batch_allocates_whole_pool_witness:
  "map HostPath (Devices (pool_allocate [''p1''] (pool_add demo_partition ''disk1'' (new_pool ''d'')))) =
     [''/dev/sda1'']"
proof -
  let ?p = "pool_add demo_partition ''disk1'' (new_pool ''d'')"
  have "range_order (pool_parts ?p) [''p1'']"
    by (simp add: pool_add_def new_pool_def range_order_def demo_partition_simps)
  from batch_allocates_whole_pool [OF this] show ?thesis
    by (simp add: pool_add_def new_pool_def demo_partition_simps)
      (simp add: demo_partition_def fake_builders)
qed

text \<open>
  Partitions of a batch with one label. Two partitions whose labels agree are both handed out, but
  at one container path, and only one of them has its variables: the last in the iteration order,
  which the language leaves open.
\<close>
lemma batch_label_collision:
  assumes "pool_parts p = [a \<mapsto> d1, b \<mapsto> d2]" and "pool_labels p = [a \<mapsto> l, b \<mapsto> l]" and "a \<noteq> b"
  shows "map ContainerPath (Devices (pool_allocate [a, b] p)) =
      [container_path (pool_domain p) l, container_path (pool_domain p) l] \<and>
    Envs (pool_allocate [a, b] p) (env_name (pool_domain p) l ''DISK_ID'') =
      Some (SystemAttributeLookup d2 SysAttrWWID) \<and>
    Envs (pool_allocate [b, a] p) (env_name (pool_domain p) l ''DISK_ID'') =
      Some (SystemAttributeLookup d1 SysAttrWWID)"
proof -
  have snap: "pool_snapshot [a, b] p = [(d1, l), (d2, l)]" "pool_snapshot [b, a] p = [(d2, l), (d1, l)]"
    using assms by (simp_all add: pool_snapshot_def List.map_filter_def map_index_def)
  have "Envs (allocatePartitionDevice d (pool_domain p) l) (env_name (pool_domain p) l ''DISK_ID'') =
      Some (SystemAttributeLookup d SysAttrWWID)" for d
    by (auto simp: allocatePartitionDevice_def Let_def env_name_simps)
  then show ?thesis
    by (simp add: pool_allocate_def snap merge_into_def empty_response_def map_add_def
        Devices_allocatePartitionDevice)
qed

lemma batch_label_collision_witness:
  "map ContainerPath (Devices (pool_allocate [''a'', ''b'']
     (pool_add (NewFakeDevice ''b'') ''l'' (pool_add (NewFakeDevice ''a'') ''l'' (new_pool ''d''))))) =
   [''/dev/allocated/d/part/l'', ''/dev/allocated/d/part/l'']"
proof -
  let ?p = "pool_add (NewFakeDevice ''b'') ''l'' (pool_add (NewFakeDevice ''a'') ''l'' (new_pool ''d''))"
  have "pool_parts ?p = [''a'' \<mapsto> NewFakeDevice ''a'', ''b'' \<mapsto> NewFakeDevice ''b'']"
    and "pool_labels ?p = [''a'' \<mapsto> ''l'', ''b'' \<mapsto> ''l'']"
    by (simp_all add: pool_add_def new_pool_def)
  from batch_label_collision [OF this] show ?thesis
    by (simp add: container_path_plain plain_def) (simp add: pool_add_def new_pool_def container_path_plain plain_def)
qed

end
