(* ===== verification/Plugin_Net.thy ===== *)
theory Plugin_Net
  imports Plugin_Api Go_Regex
begin

text \<open>
  Network resources: the bandwidth shares of \<open>internal/plugin/net_bw.go\<close> and the RDMA slots of
  \<open>internal/plugin/net_rdma.go\<close>. The package \<open>rdmamap\<close> is third-party code: its two functions are
  parameters.
\<close>

section \<open>Slots of a network interface\<close>

text \<open>What both kinds of instances do: the id \<open><ifname>_<idx>\<close> and the health by operstate.\<close>

definition slot_Id :: "string \<Rightarrow> int \<Rightarrow> string" where
  "slot_Id ifname idx = ifname @ ''_'' @ show_int idx"

definition operstate_Health :: "device \<Rightarrow> health" where
  "operstate_Health dev = (if SystemAttribute dev SysAttrOperstate = ''up'' then Healthy else Unhealthy)"

text \<open>
  The loop \<open>make([]T, 0, n)\<close> and \<open>for i := 0; i < n; i++\<close>, for elements of \<open>elem\<close> bytes. The runtime of
  Go panics when the capacity is negative or needs more than \<open>maxAlloc\<close> bytes, which on 64-bit Linux are
  the 48 bits of an address. (Below that the memory of the machine may be exhausted, which ends the
  process with an error of the runtime that is no panic, and is not modelled.)
\<close>

definition maxAlloc :: int where
  "maxAlloc = 2 ^ 48"

fun count_up :: "(int \<Rightarrow> 'a) \<Rightarrow> nat \<Rightarrow> int \<Rightarrow> 'a list" where
  "count_up f 0 i = []"
| "count_up f (Suc n) i = f i # count_up f n (i + 1)"

definition make_instances :: "int \<Rightarrow> (int \<Rightarrow> 'a) \<Rightarrow> int \<Rightarrow> 'a list outcome" where
  "make_instances elem f n =
     (if n < 0 \<or> maxAlloc < elem * n then Panic MakeSliceOutOfRange else Return (count_up f (nat n) 0))"

text \<open>A pointer takes 8 bytes, a value of an interface type 16.\<close>

abbreviation pointer_size :: int where
  "pointer_size \<equiv> 8"

abbreviation interface_size :: int where
  "interface_size \<equiv> 16"

lemma count_up_map: "count_up f n i = map (\<lambda>k. f (i + int k)) [0..<n]"
proof (induction n arbitrary: i)
  case (Suc n)
  have "[0..<Suc n] = 0 # map Suc [0..<n]" by (simp add: upt_conv_Cons map_Suc_upt del: upt_Suc)
  then show ?case by (simp add: Suc.IH comp_def algebra_simps del: upt_Suc)
qed simp

lemma make_instances_Return:
  "0 \<le> n \<Longrightarrow> elem * n \<le> maxAlloc \<Longrightarrow> make_instances elem f n = Return (map (\<lambda>k. f (int k)) [0..<nat n])"
  by (simp add: make_instances_def count_up_map)

lemma show_int_nat [simp]: "show_int (int n) = show_nat n"
  by (simp add: show_int_def)

lemma slot_Id_inject: "slot_Id ifname (int j) = slot_Id ifname (int k) \<longleftrightarrow> j = k"
  by (simp add: slot_Id_def)

lemma distinct_slot_Ids: "distinct (map (\<lambda>k. slot_Id ifname (int k)) [0..<n])"
  by (simp add: distinct_map inj_on_def slot_Id_inject)

text \<open>The checks at the start of both templaters: a net device with an interface name that matches.\<close>

definition interface_matches :: "regexp \<Rightarrow> device \<Rightarrow> (string \<times> string list) option" where
  "interface_matches matcher dev =
     (if Subsystem dev \<noteq> NetSubsystem then None
      else let ifname = Property dev PropertyInterface
           in if ifname = [] then None
              else let matches = FindStringSubmatch matcher ifname
                   in if matches = [] then None else Some (ifname, matches))"

text \<open>The checks of both instance mappings, which call \<open>MatchString\<close>.\<close>

definition interface_matched :: "regexp \<Rightarrow> device \<Rightarrow> string option" where
  "interface_matched matcher dev =
     (if Subsystem dev \<noteq> NetSubsystem then None
      else let ifname = Property dev PropertyInterface
           in if ifname = [] then None
              else if \<not> MatchString matcher ifname then None else Some ifname)"

lemma interface_matched_eq: "interface_matched m dev = map_option fst (interface_matches m dev)"
  by (simp add: interface_matched_def interface_matches_def MatchString_def Let_def)

section \<open>Bandwidth shares\<close>

record network_bandwidth =
  bw_ifname :: string
  bw_idx :: int
  bw_dev :: device

definition bw_Id :: "network_bandwidth \<Rightarrow> string" where
  "bw_Id n = slot_Id (bw_ifname n) (bw_idx n)"

definition bw_Health :: "network_bandwidth \<Rightarrow> health" where
  "bw_Health n = operstate_Health (bw_dev n)"

definition bw_TopologyHints :: "network_bandwidth \<Rightarrow> topology_info" where
  "bw_TopologyHints n = None"

definition bw_Allocate :: "network_bandwidth \<Rightarrow> allocate_response" where
  "bw_Allocate n = empty_response"

definition NetBWMatcherTemplater :: "string \<Rightarrow> regexp \<Rightarrow> resource_template option from_device" where
  "NetBWMatcherTemplater domain matcher dev =
     (case interface_matches matcher dev of
        None \<Rightarrow> Return (Inr None)
      | Some (ifname, matches) \<Rightarrow>
          Return (Inr (Some \<lparr>Domain = domain, Prefix = ''netbw-'' @ join (tl matches) ''_''\<rparr>)))"

text \<open>
  \<open>mbpsPerShare\<close> is an unsigned 64-bit number, converted to \<open>int\<close> with wrap-around.
\<close>

definition NetBWMatcherInstances ::
    "string \<Rightarrow> regexp \<Rightarrow> 64 word \<Rightarrow> network_bandwidth list from_device" where
  "NetBWMatcherInstances domain matcher mbpsPerShare dev =
     (case interface_matched matcher dev of
        None \<Rightarrow> Return (Inr [])
      | Some ifname \<Rightarrow>
          (let speedString = SystemAttribute dev SysAttrSpeed
           in if speedString = [] then Return (Inr [])
              else case atoi speedString of
                  None \<Rightarrow> Return (Inr [])
                | Some speedMbps \<Rightarrow>
                    bind_outcome (go_div speedMbps (sint mbpsPerShare)) (\<lambda>shares.
                      if shares = 0 then Return (Inr [])
                      else bind_outcome
                        (make_instances pointer_size (\<lambda>i. \<lparr>bw_ifname = ifname, bw_idx = i, bw_dev = dev\<rparr>) shares)
                        (\<lambda>instances. Return (Inr instances)))))"

lemma go_div_nonneg:
  assumes "0 \<le> a" and "a \<le> int_max" and "0 < b"
  shows "go_div a b = Return (a div b)"
proof -
  have "a div b \<le> a div 1" using assms by (intro zdiv_mono2) simp_all
  moreover have "0 \<le> a div b" using assms by (simp add: pos_imp_zdiv_nonneg_iff)
  ultimately have "wrap_int (a div b) = a div b"
    using assms by (intro wrap_int_id) (simp_all add: int_min_def)
  moreover have "a sdiv b = a div b"
    using assms by (cases "a = 0") (simp_all add: signed_divide_int_def)
  ultimately show ?thesis using assms by (simp add: go_div_def)
qed

lemma sint_unat:
  assumes "unat (w :: 64 word) < 2 ^ 63"
  shows "sint w = int (unat w)"
proof -
  have u: "int (unat w) = uint w" by simp
  have "unat w < 9223372036854775808" using assms by simp
  with u have "uint w < 9223372036854775808" by linarith
  moreover have "- 9223372036854775808 \<le> uint w" using uint_ge_0 [of w] by linarith
  ultimately have "signed_take_bit 63 (uint w) = uint w"
    by (intro signed_take_bit_int_eq_self) simp_all
  with u show ?thesis by (simp add: sint_uint)
qed

text \<open>A speed below zero: the quotient is negative once the share is not larger.\<close>

lemma wrap_sdiv_negative:
  assumes "int_min \<le> a" and "a < 0" and "0 < b"
  shows "wrap_int (a sdiv b) < 0 \<longleftrightarrow> b \<le> - a"
proof -
  have q: "a sdiv b = - ((- a) div b)" using assms by (simp add: signed_divide_int_def)
  have "0 \<le> (- a) div b" using assms by (simp add: pos_imp_zdiv_nonneg_iff)
  moreover have "(- a) div b \<le> (- a) div 1" using assms by (intro zdiv_mono2) simp_all
  ultimately have "wrap_int (a sdiv b) = - ((- a) div b)"
    unfolding q using assms by (intro wrap_int_id) (simp_all add: int_min_def int_max_def)
  moreover have "0 < (- a) div b \<longleftrightarrow> b \<le> - a" using assms by (simp add: pos_imp_zdiv_pos_iff)
  ultimately show ?thesis by simp
qed

text \<open>When mapping an interface of readable speed panics.\<close>

lemma bandwidth_panics_iff:
  assumes "interface_matched matcher dev = Some ifname"
    and "atoi (SystemAttribute dev SysAttrSpeed) = Some speed" and "unat mbpsPerShare < 2 ^ 63"
  shows "panics (NetBWMatcherInstances domain matcher mbpsPerShare dev) \<longleftrightarrow>
    mbpsPerShare = 0 \<or> (speed < 0 \<and> int (unat mbpsPerShare) \<le> - speed) \<or>
    (0 \<le> speed \<and> maxAlloc < pointer_size * (speed div int (unat mbpsPerShare)))"
proof (cases "mbpsPerShare = 0")
  case True
  have "SystemAttribute dev SysAttrSpeed \<noteq> []" using assms(2) by (auto simp: atoi_def)
  with True assms(1,2) show ?thesis by (simp add: NetBWMatcherInstances_def go_div_def)
next
  case False
  let ?b = "int (unat mbpsPerShare)"
  have speed: "SystemAttribute dev SysAttrSpeed \<noteq> []" using assms(2) by (auto simp: atoi_def)
  have "0 < unat mbpsPerShare" using False by (simp add: unat_gt_0)
  then have b: "sint mbpsPerShare = ?b" "0 < ?b" using sint_unat [OF assms(3)] by linarith+
  have panics: "panics (NetBWMatcherInstances domain matcher mbpsPerShare dev) \<longleftrightarrow>
      (let q = wrap_int (speed sdiv ?b) in q < 0 \<or> maxAlloc < pointer_size * q)"
    using assms(1,2) speed b
    by (auto simp: NetBWMatcherInstances_def go_div_def make_instances_def maxAlloc_def Let_def simp del: of_nat_unat)
  show ?thesis
  proof (cases "0 \<le> speed")
    case nonneg: True
    then have "wrap_int (speed sdiv ?b) = speed div ?b" "0 \<le> speed div ?b"
      using go_div_nonneg [OF nonneg _ b(2)] atoi_range [OF assms(2)] b(2)
      by (auto simp: go_div_def pos_imp_zdiv_nonneg_iff split: if_splits)
    with panics False nonneg show ?thesis by (simp add: Let_def)
  next
    case neg: False
    then have "wrap_int (speed sdiv ?b) < 0 \<longleftrightarrow> ?b \<le> - speed"
      using atoi_range [OF assms(2)] b(2) by (intro wrap_sdiv_negative) simp_all
    moreover have "wrap_int (speed sdiv ?b) \<le> 0"
    proof -
      have "speed sdiv ?b = - ((- speed) div ?b)" using neg b(2) by (simp add: signed_divide_int_def del: of_nat_unat)
      moreover have "0 \<le> (- speed) div ?b" using neg b(2) by (simp add: pos_imp_zdiv_nonneg_iff del: of_nat_unat)
      moreover have "(- speed) div ?b \<le> (- speed) div 1" using neg b(2) by (intro zdiv_mono2) simp_all
      moreover have "wrap_int (- ((- speed) div ?b)) = - ((- speed) div ?b)"
        using calculation(2,3) atoi_range [OF assms(2)] by (intro wrap_int_id) (simp_all add: int_min_def int_max_def)
      ultimately show ?thesis by simp
    qed
    ultimately show ?thesis using panics False neg by (auto simp: Let_def maxAlloc_def)
  qed
qed

text \<open>
  A positive share that no negative speed reaches, as the kernel reports an unknown speed as -1, and a
  speed that does not make too many shares.
\<close>

lemma bandwidth_returns:
  assumes share: "0 < unat mbpsPerShare" "unat mbpsPerShare < 2 ^ 63"
    and speed: "\<And>s. atoi (SystemAttribute dev SysAttrSpeed) = Some s \<Longrightarrow> - int (unat mbpsPerShare) < s \<and>
      pointer_size * (s div int (unat mbpsPerShare)) \<le> maxAlloc"
  shows "\<not> panics (NetBWMatcherInstances domain matcher mbpsPerShare dev)"
proof (cases "interface_matched matcher dev")
  case (Some ifname)
  show ?thesis
  proof (cases "atoi (SystemAttribute dev SysAttrSpeed)")
    case speed_read: (Some s)
    have "mbpsPerShare \<noteq> 0" using share(1) by (simp add: unat_gt_0)
    with bandwidth_panics_iff [OF Some speed_read share(2), of domain] speed [OF speed_read] show ?thesis by linarith
  qed (simp add: NetBWMatcherInstances_def Some Let_def)
qed (simp add: NetBWMatcherInstances_def)

section \<open>RDMA slots\<close>

record net_rdma =
  rdma_domain :: string
  rdma_ifname :: string
  rdma_idx :: int
  rdma_dev :: device
  rdma_associatedDevices :: "string list"

definition rdma_Id :: "net_rdma \<Rightarrow> string" where
  "rdma_Id n = slot_Id (rdma_ifname n) (rdma_idx n)"

definition rdma_Health :: "net_rdma \<Rightarrow> health" where
  "rdma_Health n = operstate_Health (rdma_dev n)"

definition rdma_TopologyHints :: "net_rdma \<Rightarrow> topology_info" where
  "rdma_TopologyHints n = None"

fun rdma_specs :: "string list \<Rightarrow> allocate_response \<Rightarrow> allocate_response" where
  "rdma_specs [] response = response"
| "rdma_specs (d # ds) response = rdma_specs ds (response\<lparr>Devices := Devices response @
     [\<lparr>HostPath = d, ContainerPath = d, Permissions = ''rw''\<rparr>]\<rparr>)"

definition rdma_Allocate :: "net_rdma \<Rightarrow> allocate_response" where
  "rdma_Allocate n = rdma_specs (rdma_associatedDevices n) empty_response"

definition NetRdmaMatcherTemplater :: "string \<Rightarrow> regexp \<Rightarrow> resource_template option from_device" where
  "NetRdmaMatcherTemplater domain matcher dev =
     (case interface_matches matcher dev of
        None \<Rightarrow> Return (Inr None)
      | Some (ifname, matches) \<Rightarrow>
          Return (Inr (Some \<lparr>Domain = domain, Prefix = ''netrdma-'' @ join (tl matches) ''_''\<rparr>)))"

text \<open>
  The two functions of \<open>rdmamap\<close>: the RDMA device of an interface, which may fail, and the
  character devices of an RDMA device.
\<close>

record rdmamap =
  GetRdmaDeviceForNetdevice :: "string \<Rightarrow> string option"
  GetRdmaCharDevices :: "string \<Rightarrow> string list"

definition NetRdmaMatcherInstances ::
    "rdmamap \<Rightarrow> string \<Rightarrow> regexp \<Rightarrow> int \<Rightarrow> net_rdma list from_device" where
  "NetRdmaMatcherInstances rdma domain matcher resourcesCount dev =
     (case interface_matched matcher dev of
        None \<Rightarrow> Return (Inr [])
      | Some ifname \<Rightarrow>
          (case GetRdmaDeviceForNetdevice rdma ifname of
             None \<Rightarrow> Return (Inr [])
           | Some rdmaDevice \<Rightarrow>
               bind_outcome (make_instances pointer_size (\<lambda>i. \<lparr>rdma_domain = domain, rdma_ifname = ifname,
                   rdma_idx = i, rdma_dev = dev,
                   rdma_associatedDevices = GetRdmaCharDevices rdma rdmaDevice\<rparr>) resourcesCount)
                 (\<lambda>instances. Return (Inr instances))))"

lemma rdma_returns:
  "0 \<le> count \<Longrightarrow> pointer_size * count \<le> maxAlloc \<Longrightarrow> \<not> panics (NetRdmaMatcherInstances rdma domain matcher count dev)"
  by (simp add: NetRdmaMatcherInstances_def make_instances_Return split: option.split)

lemma rdma_specs_Devices:
  "Devices (rdma_specs ds r) = Devices r @ map (\<lambda>d. \<lparr>HostPath = d, ContainerPath = d, Permissions = ''rw''\<rparr>) ds"
  by (induction ds arbitrary: r) simp_all

lemma rdma_specs_other:
  "Mounts (rdma_specs ds r) = Mounts r" "Envs (rdma_specs ds r) = Envs r"
  "Annotations (rdma_specs ds r) = Annotations r"
  by (induction ds arbitrary: r) simp_all

section \<open>The slots of a device\<close>

lemma slot_Id_eq: "slot_Id a (int i) = slot_Id b (int j) \<longleftrightarrow> a = b \<and> i = j"
proof
  have digits: "CHR ''_'' \<notin> set (rev (show_nat k))" for k using show_nat_digits [of "CHR ''_''" k] by (auto simp: digit_value_def)
  have split: "takeWhile (\<lambda>c. c \<noteq> CHR ''_'') (rev (slot_Id a (int k))) = rev (show_nat k)" for a k
    using digits [of k] by (simp add: slot_Id_def takeWhile_tail takeWhile_append2)
      (metis (mono_tags, lifting) takeWhile_eq_all_conv)
  assume eq: "slot_Id a (int i) = slot_Id b (int j)"
  then have "rev (show_nat i) = rev (show_nat j)" using split [of a i] split [of b j] by simp
  with eq show "a = b \<and> i = j" by (simp add: slot_Id_def)
qed simp

lemma make_instances_mem: "make_instances elem f n = Return xs \<Longrightarrow> x \<in> set xs \<Longrightarrow> \<exists>k. x = f (int k)"
  by (auto simp: make_instances_def count_up_map split: if_splits)

lemma bandwidth_mapped:
  "NetBWMatcherInstances domain matcher share dev = Return (Inr ns) \<Longrightarrow> q \<in> set ns \<Longrightarrow> bw_dev q = dev"
  by (auto simp: NetBWMatcherInstances_def Let_def dest!: make_instances_mem elim!: bind_outcome_ReturnE
      split: option.splits if_splits)

lemma rdma_mapped:
  assumes "NetRdmaMatcherInstances rdma domain matcher count dev = Return (Inr ns)" and "q \<in> set ns"
  obtains ifname r k where "interface_matched matcher dev = Some ifname" and "GetRdmaDeviceForNetdevice rdma ifname = Some r"
    and "rdma_Id q = slot_Id ifname (int k)" and "rdma_dev q = dev"
    and "rdma_associatedDevices q = GetRdmaCharDevices rdma r"
  using assms by (auto simp: NetRdmaMatcherInstances_def rdma_Id_def dest!: make_instances_mem elim!: bind_outcome_ReturnE
      split: option.splits)

section \<open>Properties\<close>

definition demo_nic :: device where
  "demo_nic = WithSysAttr ''operstate'' ''up'' (WithSysAttr ''speed'' ''25''
     (WithProperty ''INTERFACE'' ''eth0'' (WithSubsystem ''net'' (NewFakeDevice ''n0''))))"

definition eth_matcher :: regexp where
  "eth_matcher = MustCompile (Seq (literal ''eth'') (Group 1 (Star (Class (\<lambda>_. True)))))"

lemma demo_nic_match: "interface_matched eth_matcher demo_nic = Some ''eth0''"
  by (simp add: interface_matched_def demo_nic_def fake_builders udev_names map_index_def
      MatchString_def eth_matcher_def MustCompile_def literal_def search.simps rest_length_def Let_def)

lemma demo_nic_speed: "SystemAttribute demo_nic SysAttrSpeed = ''25''"
  by (simp add: demo_nic_def fake_builders udev_names map_index_def)

lemma atoi_25: "atoi ''25'' = Some 25"
  by (simp add: atoi_def digit_value_def int_min_def int_max_def)

lemma bandwidth_instances:
  assumes "interface_matched matcher dev = Some ifname"
    and "atoi (SystemAttribute dev SysAttrSpeed) = Some speed" and "0 \<le> speed"
    and "0 < unat mbpsPerShare" and "unat mbpsPerShare < 2 ^ 63"
    and "pointer_size * (speed div int (unat mbpsPerShare)) \<le> maxAlloc"
  shows "NetBWMatcherInstances domain matcher mbpsPerShare dev = Return (Inr
    (map (\<lambda>k. \<lparr>bw_ifname = ifname, bw_idx = int k, bw_dev = dev\<rparr>)
      [0..<nat (speed div int (unat mbpsPerShare))]))"
proof -
  have speed: "SystemAttribute dev SysAttrSpeed \<noteq> []" using assms(2) by (auto simp: atoi_def)
  have "go_div speed (int (unat mbpsPerShare)) = Return (speed div int (unat mbpsPerShare))"
    using assms(3,4) atoi_range [OF assms(2)] by (intro go_div_nonneg) linarith+
  then have div: "go_div speed (sint mbpsPerShare) = Return (speed div int (unat mbpsPerShare))"
    using sint_unat [OF assms(5)] by simp
  have pos: "0 \<le> speed div int (unat mbpsPerShare)"
    using assms(3,4) pos_imp_zdiv_nonneg_iff [of "int (unat mbpsPerShare)" speed] by linarith
  from assms(1,2,6) speed div pos show ?thesis
    by (simp add: NetBWMatcherInstances_def make_instances_Return del: of_nat_unat)
qed

text \<open>
  C24: Bandwidth shares. For a share of at least one megabit and an interface of known speed, there is
  one instance for each full share of the speed, numbered from 0, all of this device, with different
  ids; only if there are more shares than the largest slice of pointers holds, \<open>make\<close> panics.
\<close>
theorem bandwidth_shares:
  assumes "interface_matched matcher dev = Some ifname"
    and "atoi (SystemAttribute dev SysAttrSpeed) = Some speed" and "0 \<le> speed"
    and "0 < unat mbpsPerShare" and "unat mbpsPerShare < 2 ^ 63"
  shows "if pointer_size * (speed div int (unat mbpsPerShare)) \<le> maxAlloc then
    \<exists>ns. NetBWMatcherInstances domain matcher mbpsPerShare dev = Return (Inr ns) \<and>
      int (length ns) = speed div int (unat mbpsPerShare) \<and>
      (\<forall>k < length ns. bw_Id (ns ! k) = ifname @ ''_'' @ show_nat k \<and> bw_dev (ns ! k) = dev) \<and>
      distinct (map bw_Id ns)
    else panics (NetBWMatcherInstances domain matcher mbpsPerShare dev)"
proof (cases "pointer_size * (speed div int (unat mbpsPerShare)) \<le> maxAlloc")
  case False
  with bandwidth_panics_iff [OF assms(1,2,5), of domain] assms(3) show ?thesis by (simp del: of_nat_unat)
next
  case True
  let ?n = "nat (speed div int (unat mbpsPerShare))"
  let ?f = "\<lambda>k. \<lparr>bw_ifname = ifname, bw_idx = int k, bw_dev = dev\<rparr>"
  have pos: "0 \<le> speed div int (unat mbpsPerShare)"
    using assms(3,4) pos_imp_zdiv_nonneg_iff [of "int (unat mbpsPerShare)" speed] by linarith
  have "distinct (map bw_Id (map ?f [0..<?n]))"
    using distinct_slot_Ids [of ifname] by (simp add: bw_Id_def comp_def)
  with pos bandwidth_instances [OF assms True, of domain] show ?thesis
    unfolding if_P [OF True]
    by (intro exI [of _ "map ?f [0..<?n]"]) (simp add: bw_Id_def slot_Id_def del: of_nat_unat)
qed

lemma bandwidth_shares_witness:
  "\<exists>ns. NetBWMatcherInstances ''d'' eth_matcher 10 demo_nic = Return (Inr ns) \<and> length ns = 2"
proof -
  have "atoi (SystemAttribute demo_nic SysAttrSpeed) = Some 25"
    by (simp only: demo_nic_speed atoi_25)
  from bandwidth_shares [OF demo_nic_match this, of 10 "''d''"] show ?thesis by (auto simp: maxAlloc_def)
qed

text \<open>
  C25: When a configured share panics. For a matching interface whose speed reads as a number, mapping
  the device panics exactly when the share is 0 (division by zero; the configuration accepts 0), or
  the speed is negative, as the kernel reports an unknown speed, and the share not larger than its
  absolute value (a slice of negative capacity), or there are more shares than the largest slice of
  pointers holds.
\<close>
theorem bandwidth_panics:
  assumes "interface_matched matcher dev = Some ifname"
    and "atoi (SystemAttribute dev SysAttrSpeed) = Some speed" and "unat mbpsPerShare < 2 ^ 63"
  shows "panics (NetBWMatcherInstances domain matcher mbpsPerShare dev) \<longleftrightarrow>
    mbpsPerShare = 0 \<or> (speed < 0 \<and> int (unat mbpsPerShare) \<le> - speed) \<or>
    (0 \<le> speed \<and> maxAlloc < pointer_size * (speed div int (unat mbpsPerShare)))"
  using assms by (rule bandwidth_panics_iff)

definition down_nic :: device where
  "down_nic = WithSysAttr ''speed'' ''-1'' demo_nic"

definition fast_nic :: device where
  "fast_nic = WithSysAttr ''speed'' ''4611686018427387904'' demo_nic"

lemma bandwidth_panics_witness:
  "panics (NetBWMatcherInstances ''d'' eth_matcher 0 demo_nic) \<and>
   panics (NetBWMatcherInstances ''d'' eth_matcher 1 down_nic) \<and>
   \<not> panics (NetBWMatcherInstances ''d'' eth_matcher 1000 down_nic) \<and>
   panics (NetBWMatcherInstances ''d'' eth_matcher 1 fast_nic)"
proof -
  have "atoi (SystemAttribute demo_nic SysAttrSpeed) = Some 25"
    by (simp only: demo_nic_speed atoi_25)
  from bandwidth_panics [OF demo_nic_match this, of 0 "''d''"]
  have zero: "panics (NetBWMatcherInstances ''d'' eth_matcher 0 demo_nic)" by simp
  have down: "interface_matched eth_matcher down_nic = Some ''eth0''"
    "atoi (SystemAttribute down_nic SysAttrSpeed) = Some (-1)"
    and fast: "interface_matched eth_matcher fast_nic = Some ''eth0''"
    "atoi (SystemAttribute fast_nic SysAttrSpeed) = Some 4611686018427387904"
    by (simp_all add: interface_matched_def demo_nic_def down_nic_def fast_nic_def fake_builders udev_names map_index_def
        MatchString_def eth_matcher_def MustCompile_def literal_def search.simps rest_length_def Let_def
        atoi_def digit_value_def int_min_def int_max_def)
  from bandwidth_panics [OF down, of 1 "''d''"] bandwidth_panics [OF down, of 1000 "''d''"]
    bandwidth_panics [OF fast, of 1 "''d''"] zero
  show ?thesis by (simp add: maxAlloc_def)
qed

text \<open>
  RDMA slots. A matching interface with an RDMA device has as many instances as configured (no more
  than the largest slice holds), with different ids, and an allocation of any of them hands out
  exactly the character devices of that RDMA device, at their own paths. An interface without one
  has no instances, although the templater still names a resource for it.
\<close>
theorem rdma_slots:
  assumes "interface_matches matcher dev = Some (ifname, matches)" and "0 \<le> count" and "pointer_size * count \<le> maxAlloc"
  shows "(\<exists>t. NetRdmaMatcherTemplater domain matcher dev = Return (Inr (Some t))) \<and>
    (\<exists>ns. NetRdmaMatcherInstances rdma domain matcher count dev = Return (Inr ns) \<and>
      distinct (map rdma_Id ns) \<and>
      (case GetRdmaDeviceForNetdevice rdma ifname of
         None \<Rightarrow> ns = []
       | Some r \<Rightarrow> length ns = nat count \<and>
           (\<forall>n \<in> set ns. map HostPath (Devices (rdma_Allocate n)) = GetRdmaCharDevices rdma r \<and>
              map ContainerPath (Devices (rdma_Allocate n)) = GetRdmaCharDevices rdma r)))"
proof (cases "GetRdmaDeviceForNetdevice rdma ifname")
  case None
  with assms show ?thesis
    by (simp add: NetRdmaMatcherTemplater_def NetRdmaMatcherInstances_def interface_matched_eq)
next
  case (Some r)
  let ?f = "\<lambda>k. \<lparr>rdma_domain = domain, rdma_ifname = ifname, rdma_idx = int k, rdma_dev = dev,
     rdma_associatedDevices = GetRdmaCharDevices rdma r\<rparr>"
  have "NetRdmaMatcherInstances rdma domain matcher count dev = Return (Inr (map ?f [0..<nat count]))"
    using assms Some
    by (simp add: NetRdmaMatcherInstances_def interface_matched_eq make_instances_Return)
  moreover have "distinct (map rdma_Id (map ?f [0..<nat count]))"
    using distinct_slot_Ids [of ifname] by (simp add: rdma_Id_def comp_def)
  moreover have "\<forall>n \<in> set (map ?f [0..<nat count]).
      map HostPath (Devices (rdma_Allocate n)) = GetRdmaCharDevices rdma r \<and>
      map ContainerPath (Devices (rdma_Allocate n)) = GetRdmaCharDevices rdma r"
    by (simp add: rdma_Allocate_def rdma_specs_Devices empty_response_def comp_def)
  ultimately show ?thesis using assms(1) Some
    by (intro conjI exI [of _ "map ?f [0..<nat count]"]) (simp_all add: NetRdmaMatcherTemplater_def)
qed

lemma rdma_slots_witness:
  "\<exists>ns. NetRdmaMatcherInstances \<lparr>GetRdmaDeviceForNetdevice = (\<lambda>i. if i = ''eth0'' then Some ''mlx0'' else None),
       GetRdmaCharDevices = (\<lambda>_. [''/dev/infiniband/uverbs0''])\<rparr> ''d'' eth_matcher 3 demo_nic =
     Return (Inr ns) \<and> length ns = 3"
proof -
  have "interface_matches eth_matcher demo_nic = Some (''eth0'', [''eth0'', ''0''])"
    by (simp add: interface_matches_def demo_nic_def fake_builders udev_names map_index_def
        eth_matcher_def MustCompile_def literal_def search.simps rest_length_def Let_def)
  from rdma_slots [OF this, of 3 "''d''"
      "\<lparr>GetRdmaDeviceForNetdevice = (\<lambda>i. if i = ''eth0'' then Some ''mlx0'' else None),
        GetRdmaCharDevices = (\<lambda>_. [''/dev/infiniband/uverbs0''])\<rparr>"] show ?thesis by (auto simp: maxAlloc_def)
qed

end
