(* ===== verification/Plugin_Resource.thy ===== *)
theory Plugin_Resource
  imports Plugin_Pool Plugin_Net Mux_Sink
begin

text \<open>
  Instances and resources, \<open>internal/plugin/resource.go\<close>: the four kinds of instances behind the
  interface \<open>Instance\<close>, the health override, the resource with its updates, and the stream of
  snapshots of \<open>ListAndWatch\<close> as a transition system.
\<close>

section \<open>Instances\<close>

text \<open>A batch seat refers to its pool, which lives in the store of pools.\<close>

datatype inst =
    PartitionInstance partition
  | BandwidthInstance network_bandwidth
  | RdmaInstance net_rdma
  | BatchSeat string nat
  | HealthOverride inst health

type_synonym pools = "nat \<Rightarrow> pool"

fun inst_Id :: "inst \<Rightarrow> string" where
  "inst_Id (PartitionInstance p) = partition_Id p"
| "inst_Id (BandwidthInstance n) = bw_Id n"
| "inst_Id (RdmaInstance n) = rdma_Id n"
| "inst_Id (BatchSeat i pl) = i"
| "inst_Id (HealthOverride i h) = inst_Id i"

fun inst_Health :: "pools \<Rightarrow> inst \<Rightarrow> health" where
  "inst_Health w (PartitionInstance p) = partition_Health p"
| "inst_Health w (BandwidthInstance n) = bw_Health n"
| "inst_Health w (RdmaInstance n) = rdma_Health n"
| "inst_Health w (BatchSeat i pl) = pool_health (w pl)"
| "inst_Health w (HealthOverride i h) = (if h = Healthy then inst_Health w i else h)"

fun inst_TopologyHints :: "inst \<Rightarrow> topology_info" where
  "inst_TopologyHints (PartitionInstance p) = partition_TopologyHints p"
| "inst_TopologyHints (BandwidthInstance n) = bw_TopologyHints n"
| "inst_TopologyHints (RdmaInstance n) = rdma_TopologyHints n"
| "inst_TopologyHints (BatchSeat i pl) = None"
| "inst_TopologyHints (HealthOverride i h) = inst_TopologyHints i"

text \<open>No instance of the repository returns an error; \<open>order\<close> is the iteration order of a pool.\<close>

fun inst_Allocate :: "pools \<Rightarrow> (nat \<Rightarrow> string list) \<Rightarrow> inst \<Rightarrow> string + allocate_response option" where
  "inst_Allocate w order (PartitionInstance p) = Inr (Some (partition_Allocate p))"
| "inst_Allocate w order (BandwidthInstance n) = Inr (Some (bw_Allocate n))"
| "inst_Allocate w order (RdmaInstance n) = Inr (Some (rdma_Allocate n))"
| "inst_Allocate w order (BatchSeat i pl) = Inr (Some (pool_allocate (order pl) (w pl)))"
| "inst_Allocate w order (HealthOverride i h) = inst_Allocate w order i"

section \<open>Resources\<close>

type_synonym inst_map = "string \<rightharpoonup> inst"

record resource =
  res_template :: resource_template
  res_instances :: inst_map

definition newResource :: "resource_template \<Rightarrow> inst_map \<Rightarrow> resource" where
  "newResource t m = \<lparr>res_template = t, res_instances = m\<rparr>"

definition res_Name :: "resource \<Rightarrow> string" where
  "res_Name r = Domain (res_template r) @ ''/'' @ Prefix (res_template r)"

text \<open>The copying loop of \<open>Instances\<close>.\<close>

definition res_Instances :: "resource \<Rightarrow> inst_map" where
  "res_Instances r = (\<lambda>k. case res_instances r k of None \<Rightarrow> None | Some v \<Rightarrow> Some v)"

text \<open>The loop of \<open>Submit\<close> under the lock.\<close>

definition submit_instances :: "inst list \<Rightarrow> health \<Rightarrow> inst_map \<Rightarrow> inst_map" where
  "submit_instances insts h m = store_all inst_Id (\<lambda>i. HealthOverride i h) insts m"

definition res_Submit :: "inst list \<Rightarrow> health \<Rightarrow> resource \<Rightarrow> resource" where
  "res_Submit insts h r = r\<lparr>res_instances := submit_instances insts h (res_instances r)\<rparr>"

definition snapshotLocked :: "string list \<Rightarrow> inst_map \<Rightarrow> inst list" where
  "snapshotLocked order m = range_values m order"

lemma res_Instances_eq [simp]: "res_Instances r = res_instances r"
  by (auto simp: res_Instances_def split: option.split)

section \<open>The contract of a health override\<close>

text \<open>
  What a resource relies on when it stores an overridden instance: the override keeps the id, a
  healthy override defers to the instance, and an unhealthy one decides.
\<close>

locale overridable =
  fixes ident :: "'i \<Rightarrow> 'k"
    and health_of :: "'i \<Rightarrow> health"
    and override :: "'i \<Rightarrow> health \<Rightarrow> 'i"
  assumes ident_override: "ident (override i h) = ident i"
    and healthy_override: "health_of (override i Healthy) = health_of i"
    and unhealthy_override: "health_of (override i Unhealthy) = Unhealthy"
begin

lemma health_after_submit:
  assumes "find (\<lambda>i. ident i = k) (rev insts) = Some i"
  shows "store_all ident (\<lambda>i. override i h) insts m k = Some (override i h) \<and> ident i = k \<and>
    health_of (override i h) = (if h = Healthy then health_of i else Unhealthy)"
  using store_all_find [OF assms] assms
  by (cases h) (auto simp: find_Some_iff healthy_override unhealthy_override)

lemma ident_preserved:
  assumes "\<And>k i. m k = Some i \<Longrightarrow> ident i = k"
    and "store_all ident (\<lambda>i. override i h) insts m k = Some j"
  shows "ident j = k"
  using store_all_SomeD [OF assms(2)]
proof (elim disjE bexE conjE)
  fix x assume "x \<in> set insts" "ident x = k" "override x h = j"
  with ident_override [of x h] show ?thesis by simp
next
  assume "m k = Some j"
  then show ?thesis by (rule assms(1))
qed

end

interpretation inst: overridable inst_Id "inst_Health w" HealthOverride for w
  by unfold_locales simp_all

definition ids_ok :: "inst_map \<Rightarrow> bool" where
  "ids_ok m \<longleftrightarrow> (\<forall>k i. m k = Some i \<longrightarrow> inst_Id i = k)"

lemma ids_ok_submit:
  assumes "ids_ok m"
  shows "ids_ok (submit_instances insts h m)"
  unfolding ids_ok_def submit_instances_def
proof (intro allI impI)
  fix k j assume now: "store_all inst_Id (\<lambda>i. HealthOverride i h) insts m k = Some j"
  have "\<And>k i. m k = Some i \<Longrightarrow> inst_Id i = k" using assms by (simp add: ids_ok_def)
  from inst.ident_preserved [OF this now] show "inst_Id j = k" .
qed

lemma submit_instances_other:
  "k \<notin> inst_Id ` set insts \<Longrightarrow> submit_instances insts h m k = m k"
  by (simp add: submit_instances_def store_all_other)

text \<open>
  C31: A health update. After \<open>Submit\<close> the resource holds under the id of every submitted instance that
  very instance (the last one submitted with the id) with the health of the update on top, all
  others unchanged, and every instance under its own id. A submitted instance reports
  unhealthy after an unhealthy update, whatever its own state, and its own health after a healthy
  one, so a network interface that is down stays unhealthy.
\<close>
theorem resource_submit_health:
  assumes "ids_ok (res_instances r)"
  shows "ids_ok (res_instances (res_Submit insts h r)) \<and>
    (\<forall>k. case find (\<lambda>i. inst_Id i = k) (rev insts) of
       None \<Rightarrow> res_instances (res_Submit insts h r) k = res_instances r k
     | Some i \<Rightarrow> res_instances (res_Submit insts h r) k = Some (HealthOverride i h) \<and> inst_Id i = k \<and>
         inst_Health w (HealthOverride i h) = (if h = Healthy then inst_Health w i else Unhealthy))"
proof (intro conjI allI)
  show "ids_ok (res_instances (res_Submit insts h r))"
    using assms by (simp add: res_Submit_def ids_ok_submit)
next
  fix k
  show "case find (\<lambda>i. inst_Id i = k) (rev insts) of
       None \<Rightarrow> res_instances (res_Submit insts h r) k = res_instances r k
     | Some i \<Rightarrow> res_instances (res_Submit insts h r) k = Some (HealthOverride i h) \<and> inst_Id i = k \<and>
         inst_Health w (HealthOverride i h) = (if h = Healthy then inst_Health w i else Unhealthy)"
  proof (cases "find (\<lambda>i. inst_Id i = k) (rev insts)")
    case None
    then have "k \<notin> inst_Id ` set insts" by (auto simp: find_None_iff)
    with None show ?thesis by (simp add: res_Submit_def submit_instances_other)
  next
    case (Some i)
    with inst.health_after_submit [OF Some, of h "res_instances r" w] show ?thesis
      by (simp add: res_Submit_def submit_instances_def)
  qed
qed

definition demo_bw :: inst where
  "demo_bw = BandwidthInstance \<lparr>bw_ifname = ''eth0'', bw_idx = 0, bw_dev = NewFakeDevice ''n''\<rparr>"

lemma resource_submit_health_witness:
  "map_option (inst_Health (\<lambda>_. new_pool ''d'')) (res_instances (res_Submit [demo_bw] Healthy
     (newResource \<lparr>Domain = ''d'', Prefix = ''netbw-0''\<rparr> Map.empty)) ''eth0_0'') = Some Unhealthy"
proof -
  let ?r = "newResource \<lparr>Domain = ''d'', Prefix = ''netbw-0''\<rparr> Map.empty"
  have id: "inst_Id demo_bw = ''eth0_0''" and h: "inst_Health (\<lambda>_. new_pool ''d'') demo_bw = Unhealthy"
    by (simp_all add: demo_bw_def bw_Id_def slot_Id_def show_int_0 bw_Health_def
        operstate_Health_def NewFakeDevice_def map_index_def)
  have "ids_ok (res_instances ?r)" by (simp add: ids_ok_def newResource_def)
  from resource_submit_health [OF this, of "[demo_bw]" Healthy "\<lambda>_. new_pool ''d''"] id h show ?thesis
    by (auto dest: spec [of _ "''eth0_0''"])
qed

end
