(* ===== verification/Plugin_Stream.thy ===== *)
theory Plugin_Stream
  imports Plugin_Resource
begin

text \<open>
  \<open>Submit\<close>, \<open>ListAndWatch\<close> and \<open>Close\<close> of a resource, \<open>internal/plugin/resource.go\<close>, as a transition
  system: the goroutine that submits, the goroutine of the broadcasting multiplexer and one
  caller of \<open>ListAndWatch\<close> per stream run concurrently, and a step is one critical section or one
  channel operation. A resource has one submitting goroutine, its scatter.
\<close>

section \<open>State\<close>

text \<open>
  Where a stream stands: not opened; inside \<open>ListAndWatch\<close> past the check of \<open>done\<close>, then holding the
  read lock at the \<open>Subscribe\<close> of the multiplexer, then with its snapshot not yet sent; returned to the
  caller; or cancelled.
\<close>

datatype stream_phase = NotOpened | Opening | Subscribing_stream | Replaying "inst list" | Streaming | Cancelled

text \<open>
  The instances, the snapshot that \<open>Submit\<close> has taken and the multiplexer has not, what the
  goroutine of the multiplexer is delivering and to whom, the sinks it holds, the channel and the
  phase of each stream, what the caller of the stream has received, whether the resource is
  closed, and whether the goroutine of its multiplexer has ended. History: the streams that got an update before their own snapshot, and whether an update
  timed out. A send on a closed channel ends the process.
\<close>

record 's stream_state =
  st_instances :: inst_map
  st_pending :: "inst list option"
  st_fanout :: "(inst list \<times> 's list) option"
  st_members :: "'s set"
  st_chan :: "'s \<Rightarrow> inst list chan"
  st_phase :: "'s \<Rightarrow> stream_phase"
  st_received :: "'s \<Rightarrow> inst list list"
  st_closed :: bool
  st_exited :: bool
  st_crashed :: bool
  st_late :: "'s set"
  st_lost :: bool

definition stream_init :: "inst_map \<Rightarrow> 's stream_state" where
  "stream_init m = \<lparr>st_instances = m, st_pending = None, st_fanout = None, st_members = {},
     st_chan = (\<lambda>_. make_chan 2), st_phase = (\<lambda>_. NotOpened), st_received = (\<lambda>_. []),
     st_closed = False, st_exited = False, st_crashed = False, st_late = {}, st_lost = False\<rparr>"

definition listing :: "inst_map \<Rightarrow> inst list \<Rightarrow> bool" where
  "listing m l \<longleftrightarrow> (\<exists>order. range_order m order \<and> l = snapshotLocked order m)"

section \<open>Steps\<close>

text \<open>
  \<open>Submit\<close>: the critical section, which waits for every reader, then the multiplexer takes the
  snapshot, or the submit times out or finds it closed. The multiplexer: delivery to one sink after
  the other, blocked by a full channel. \<open>ListAndWatch\<close>: the check of \<open>done\<close>, the read lock, the
  subscription, which waits for the multiplexer to be at its \<open>select\<close> or leaves through its \<open>done\<close>, with
  the snapshot under the same lock; the replay after it; and the end of the stream's context.
  \<open>Close\<close> closes both \<open>done\<close> channels, and the multiplexer closes its sinks when it ends.
\<close>

inductive stream_step :: "'s stream_state \<Rightarrow> 's stream_state \<Rightarrow> bool" where
  st_submit_lock: "st_pending \<sigma> = None \<Longrightarrow> (\<And>s. st_phase \<sigma> s \<noteq> Subscribing_stream) \<Longrightarrow>
    m = submit_instances insts h (st_instances \<sigma>) \<Longrightarrow>
    range_order m order \<Longrightarrow>
    stream_step \<sigma> (\<sigma>\<lparr>st_instances := m, st_pending := Some (snapshotLocked order m)\<rparr>)"
| st_submit_accept: "st_pending \<sigma> = Some sn \<Longrightarrow> st_fanout \<sigma> = None \<Longrightarrow> \<not> st_exited \<sigma> \<Longrightarrow>
    distinct ss \<Longrightarrow> set ss = st_members \<sigma> \<Longrightarrow>
    stream_step \<sigma> (\<sigma>\<lparr>st_pending := None, st_fanout := Some (sn, ss)\<rparr>)"
| st_submit_fail: "st_pending \<sigma> = Some sn \<Longrightarrow>
    stream_step \<sigma> (\<sigma>\<lparr>st_pending := None, st_lost := True\<rparr>)"
| st_deliver: "st_fanout \<sigma> = Some (sn, s # ss) \<Longrightarrow> chan_send sn (st_chan \<sigma> s) = Done c \<Longrightarrow>
    stream_step \<sigma> (\<sigma>\<lparr>st_fanout := Some (sn, ss), st_chan := (st_chan \<sigma>)(s := c),
      st_late := (if st_phase \<sigma> s = Streaming then st_late \<sigma> else insert s (st_late \<sigma>))\<rparr>)"
| st_delivered: "st_fanout \<sigma> = Some (sn, []) \<Longrightarrow> stream_step \<sigma> (\<sigma>\<lparr>st_fanout := None\<rparr>)"
| st_open: "st_phase \<sigma> s = NotOpened \<Longrightarrow> \<not> st_closed \<sigma> \<Longrightarrow>
    stream_step \<sigma> (\<sigma>\<lparr>st_phase := (st_phase \<sigma>)(s := Opening)\<rparr>)"
| st_rlock: "st_phase \<sigma> s = Opening \<Longrightarrow>
    stream_step \<sigma> (\<sigma>\<lparr>st_phase := (st_phase \<sigma>)(s := Subscribing_stream)\<rparr>)"
| st_subscribe: "st_phase \<sigma> s = Subscribing_stream \<Longrightarrow> st_fanout \<sigma> = None \<Longrightarrow> \<not> st_exited \<sigma> \<Longrightarrow>
    range_order (st_instances \<sigma>) order \<Longrightarrow>
    stream_step \<sigma> (\<sigma>\<lparr>st_members := insert s (st_members \<sigma>),
      st_phase := (st_phase \<sigma>)(s := Replaying (snapshotLocked order (st_instances \<sigma>)))\<rparr>)"
| st_subscribe_done: "st_phase \<sigma> s = Subscribing_stream \<Longrightarrow> st_closed \<sigma> \<Longrightarrow>
    range_order (st_instances \<sigma>) order \<Longrightarrow>
    stream_step \<sigma> (\<sigma>\<lparr>st_phase := (st_phase \<sigma>)(s := Replaying (snapshotLocked order (st_instances \<sigma>)))\<rparr>)"
| st_listandwatch_closed: "st_phase \<sigma> s = NotOpened \<Longrightarrow> st_closed \<sigma> \<Longrightarrow>
    chan_close (st_chan \<sigma> s) = Done c \<Longrightarrow>
    stream_step \<sigma> (\<sigma>\<lparr>st_chan := (st_chan \<sigma>)(s := c), st_phase := (st_phase \<sigma>)(s := Streaming)\<rparr>)"
| st_replay: "st_phase \<sigma> s = Replaying sn \<Longrightarrow> chan_send sn (st_chan \<sigma> s) = Done c \<Longrightarrow>
    stream_step \<sigma> (\<sigma>\<lparr>st_chan := (st_chan \<sigma>)(s := c), st_phase := (st_phase \<sigma>)(s := Streaming)\<rparr>)"
| st_replay_crash: "st_phase \<sigma> s = Replaying sn \<Longrightarrow>
    chan_send sn (st_chan \<sigma> s) = Crashes SendOnClosedChannel \<Longrightarrow>
    stream_step \<sigma> (\<sigma>\<lparr>st_crashed := True\<rparr>)"
| st_receive: "st_phase \<sigma> s = Streaming \<Longrightarrow> chan_recv (st_chan \<sigma> s) = Done (Some v, c) \<Longrightarrow>
    stream_step \<sigma> (\<sigma>\<lparr>st_chan := (st_chan \<sigma>)(s := c),
      st_received := (st_received \<sigma>)(s := st_received \<sigma> s @ [v])\<rparr>)"
| st_cancel: "st_phase \<sigma> s = Streaming \<Longrightarrow> s \<in> st_members \<sigma> \<Longrightarrow> st_fanout \<sigma> = None \<Longrightarrow>
    chan_close (st_chan \<sigma> s) = Done c \<Longrightarrow>
    stream_step \<sigma> (\<sigma>\<lparr>st_members := st_members \<sigma> - {s}, st_chan := (st_chan \<sigma>)(s := c),
      st_phase := (st_phase \<sigma>)(s := Cancelled)\<rparr>)"
| st_close: "\<not> st_closed \<sigma> \<Longrightarrow> stream_step \<sigma> (\<sigma>\<lparr>st_closed := True\<rparr>)"
| st_exit: "st_closed \<sigma> \<Longrightarrow> st_fanout \<sigma> = None \<Longrightarrow> \<not> st_exited \<sigma> \<Longrightarrow>
    stream_step \<sigma> (\<sigma>\<lparr>st_exited := True, st_members := {},
      st_chan := (\<lambda>s. if s \<in> st_members \<sigma> then (st_chan \<sigma> s)\<lparr>is_closed := True\<rparr> else st_chan \<sigma> s)\<rparr>)"

inductive_cases stream_stepE: "stream_step \<sigma> \<tau>"

inductive stream_steps :: "'s stream_state \<Rightarrow> 's stream_state \<Rightarrow> bool" where
  stream_refl: "stream_steps \<sigma> \<sigma>"
| stream_next: "stream_steps \<sigma> \<tau> \<Longrightarrow> stream_step \<tau> \<upsilon> \<Longrightarrow> stream_steps \<sigma> \<upsilon>"

lemma stream_steps_invariant:
  assumes "stream_steps \<sigma> \<tau>" and "P \<sigma>" and "\<And>\<sigma> \<tau>. stream_step \<sigma> \<tau> \<Longrightarrow> P \<sigma> \<Longrightarrow> P \<tau>"
  shows "P \<tau>"
  using assms by (induction rule: stream_steps.induct) auto

section \<open>What is on its way to a stream\<close>

fun replay_part :: "stream_phase \<Rightarrow> inst list list" where
  "replay_part (Replaying sn) = [sn]"
| "replay_part _ = []"

fun fanout_part :: "(inst list \<times> 's list) option \<Rightarrow> 's \<Rightarrow> inst list list" where
  "fanout_part None s = []"
| "fanout_part (Some (sn, ss)) s = (if s \<in> set ss then [sn] else [])"

fun pending_part :: "inst list option \<Rightarrow> inst list list" where
  "pending_part None = []"
| "pending_part (Some sn) = [sn]"

text \<open>All that a stream has got or will get, in the order it would without late updates.\<close>

definition stream_of :: "'s \<Rightarrow> 's stream_state \<Rightarrow> inst list list" where
  "stream_of s \<sigma> = st_received \<sigma> s @ buffer (st_chan \<sigma> s) @ replay_part (st_phase \<sigma> s) @
     fanout_part (st_fanout \<sigma>) s @ pending_part (st_pending \<sigma>)"

fun unopened :: "stream_phase \<Rightarrow> bool" where
  "unopened (Replaying sn) = False"
| "unopened Streaming = False"
| "unopened Cancelled = False"
| "unopened _ = True"

definition stream_ok :: "'s \<Rightarrow> 's stream_state \<Rightarrow> bool" where
  "stream_ok s \<sigma> \<longleftrightarrow>
     (\<forall>sn. st_pending \<sigma> = Some sn \<longrightarrow> listing (st_instances \<sigma>) sn) \<and>
     (\<forall>sn ss. st_fanout \<sigma> = Some (sn, ss) \<longrightarrow> set ss \<subseteq> st_members \<sigma>) \<and>
     (s \<in> st_members \<sigma> \<longrightarrow> st_phase \<sigma> s = Streaming \<or> (\<exists>sn. st_phase \<sigma> s = Replaying sn)) \<and>
     (unopened (st_phase \<sigma> s) \<longrightarrow> st_received \<sigma> s = [] \<and> buffer (st_chan \<sigma> s) = [] \<and> s \<notin> st_late \<sigma>) \<and>
     (s \<in> st_members \<sigma> \<and> s \<notin> st_late \<sigma> \<and> \<not> st_lost \<sigma> \<longrightarrow>
        stream_of s \<sigma> \<noteq> [] \<and> listing (st_instances \<sigma>) (last (stream_of s \<sigma>)))"

lemma chan_send_buffer: "chan_send v c = Done c' \<Longrightarrow> buffer c' = buffer c @ [v]"
  by (auto simp: chan_send_def split: if_splits)

lemma chan_recv_buffer: "chan_recv c = Done (Some v, c') \<Longrightarrow> buffer c = v # buffer c'"
  by (auto simp: chan_recv_def split: list.splits if_splits)

lemma chan_close_buffer: "chan_close c = Done c' \<Longrightarrow> buffer c' = buffer c"
  by (auto simp: chan_close_def split: if_splits)

lemma stream_ok_init: "stream_ok s (stream_init m)"
  by (simp add: stream_ok_def stream_init_def make_chan_def)

lemma stream_ok_step:
  assumes "stream_step \<sigma> \<tau>" and ok: "stream_ok s \<sigma>"
  shows "stream_ok s \<tau>"
  using assms(1)
proof cases
  case (st_submit_lock m insts h order)
  then have "listing m (snapshotLocked order m)" by (auto simp: listing_def)
  with st_submit_lock ok show ?thesis by (simp add: stream_ok_def stream_of_def)
next
  case (st_submit_accept sn ss)
  with ok show ?thesis by (auto simp: stream_ok_def stream_of_def)
next
  case (st_submit_fail sn)
  with ok show ?thesis by (simp add: stream_ok_def)
next
  case (st_deliver sn s' ss c)
  with ok chan_send_buffer [OF st_deliver(3)] show ?thesis
    by (auto simp: stream_ok_def stream_of_def)
next
  case (st_delivered sn)
  with ok show ?thesis by (simp add: stream_ok_def stream_of_def)
next
  case (st_open s')
  with ok show ?thesis by (auto simp: stream_ok_def stream_of_def)
next
  case (st_rlock s')
  with ok show ?thesis by (auto simp: stream_ok_def stream_of_def)
next
  case (st_subscribe s' order)
  then have "listing (st_instances \<sigma>) (snapshotLocked order (st_instances \<sigma>))"
    by (auto simp: listing_def)
  with st_subscribe ok show ?thesis
    by (cases "st_pending \<sigma>") (auto simp: stream_ok_def stream_of_def)
next
  case (st_subscribe_done s' order)
  with ok show ?thesis by (auto simp: stream_ok_def stream_of_def)
next
  case (st_listandwatch_closed s' c)
  with ok chan_close_buffer [OF st_listandwatch_closed(4)] show ?thesis
    by (auto simp: stream_ok_def stream_of_def)
next
  case (st_replay s' sn c)
  with ok chan_send_buffer [OF st_replay(3)] show ?thesis
    by (auto simp: stream_ok_def stream_of_def)
next
  case (st_replay_crash s' sn)
  with ok show ?thesis by (simp add: stream_ok_def stream_of_def)
next
  case (st_receive s' v c)
  with ok chan_recv_buffer [OF st_receive(3)] show ?thesis
    by (auto simp: stream_ok_def stream_of_def)
next
  case (st_cancel s' c)
  with ok chan_close_buffer [OF st_cancel(5)] show ?thesis
    by (auto simp: stream_ok_def stream_of_def)
next
  case st_close
  with ok show ?thesis by (auto simp: stream_ok_def stream_of_def)
next
  case st_exit
  with ok show ?thesis by (auto simp: stream_ok_def stream_of_def)
qed

section \<open>Runs with one stream\<close>

text \<open>
  A resource with one batch seat and one stream, the number 0: the seat after an update, the map
  and its snapshot, and the state in which the stream is open.
\<close>

definition demo_seat :: "health \<Rightarrow> inst" where
  "demo_seat h = HealthOverride (BatchSeat ''0'' 0) h"

definition demo_insts :: "health \<Rightarrow> inst_map" where
  "demo_insts h = [''0'' \<mapsto> demo_seat h]"

definition demo_stream :: "health \<Rightarrow> inst list option \<Rightarrow> (inst list \<times> nat list) option \<Rightarrow>
    inst list list \<Rightarrow> stream_phase \<Rightarrow> inst list list \<Rightarrow> nat set \<Rightarrow> nat stream_state" where
  "demo_stream h pending fanout queued phase received late = \<lparr>st_instances = demo_insts h,
     st_pending = pending, st_fanout = fanout, st_members = {0},
     st_chan = (\<lambda>_. make_chan 2)(0 := (make_chan 2)\<lparr>buffer := queued\<rparr>),
     st_phase = (\<lambda>_. NotOpened)(0 := phase), st_received = (\<lambda>_. [])(0 := received),
     st_closed = False, st_exited = False, st_crashed = False, st_late = late, st_lost = False\<rparr>"

lemma demo_order: "range_order (demo_insts h) order \<longleftrightarrow> order = [''0'']"
  by (simp add: demo_insts_def range_simps)

lemma demo_snapshot: "snapshotLocked [''0''] (demo_insts h) = [demo_seat h]"
  by (simp add: snapshotLocked_def demo_insts_def)

lemma demo_update: "demo_insts h' = submit_instances [BatchSeat ''0'' 0] h' (demo_insts h)"
  by (simp add: submit_instances_def demo_insts_def demo_seat_def)

lemma demo_listing: "listing (demo_insts h) l \<longleftrightarrow> l = [demo_seat h]"
  by (simp add: listing_def demo_order demo_snapshot)

text \<open>The steps of such runs.\<close>

lemma demo_open:
  "stream_steps (stream_init (demo_insts h)) (demo_stream h None None [] (Replaying [demo_seat h]) [] {})"
proof -
  note a = stream_next [OF stream_refl st_open [of "stream_init (demo_insts h)" 0]]
  note a = stream_next [OF a st_rlock [where s = 0]]
  note a = stream_next [OF a st_subscribe [where s = 0 and order = "[''0'']"]]
  from a show ?thesis
    by (simp add: stream_init_def demo_stream_def demo_order demo_snapshot make_chan_def fun_upd_idem)
qed

lemma demo_lock:
  "ph \<noteq> Subscribing_stream \<Longrightarrow> stream_step (demo_stream h None f q ph r l) (demo_stream h' (Some [demo_seat h']) f q ph r l)"
  using st_submit_lock [of "demo_stream h None f q ph r l" "demo_insts h'" "[BatchSeat ''0'' 0]" h' "[''0'']"]
  by (simp add: demo_stream_def demo_order demo_snapshot demo_update [symmetric])

lemma demo_accept:
  "stream_step (demo_stream h (Some sn) None q ph r l) (demo_stream h None (Some (sn, [0])) q ph r l)"
  using st_submit_accept [of "demo_stream h (Some sn) None q ph r l" sn "[0]"]
  by (simp add: demo_stream_def)

lemma demo_deliver:
  "length q < 2 \<Longrightarrow> stream_step (demo_stream h p (Some (sn, [0])) q ph r l)
     (demo_stream h p (Some (sn, [])) (q @ [sn]) ph r (if ph = Streaming then l else insert 0 l))"
  using st_deliver [of "demo_stream h p (Some (sn, [0])) q ph r l" sn 0 "[]"]
  by (cases "ph = Streaming") (simp_all add: demo_stream_def chan_send_def make_chan_def)

lemma demo_delivered:
  "stream_step (demo_stream h p (Some (sn, [])) q ph r l) (demo_stream h p None q ph r l)"
  using st_delivered [of "demo_stream h p (Some (sn, [])) q ph r l" sn] by (simp add: demo_stream_def)

lemma demo_replay:
  "length q < 2 \<Longrightarrow> stream_step (demo_stream h p f q (Replaying sn) r l)
     (demo_stream h p f (q @ [sn]) Streaming r l)"
  using st_replay [of "demo_stream h p f q (Replaying sn) r l" 0 sn]
  by (simp add: demo_stream_def chan_send_def make_chan_def)

lemma demo_replay_first:
  "stream_step (demo_stream h p f [] (Replaying sn) r l) (demo_stream h p f [sn] Streaming r l)"
  using demo_replay [of "[]"] by simp

lemma demo_replay_second:
  "stream_step (demo_stream h p f [x] (Replaying sn) r l) (demo_stream h p f [x, sn] Streaming r l)"
  using demo_replay [of "[x]"] by simp

lemma demo_receive:
  "stream_step (demo_stream h p f (sn # q) Streaming r l) (demo_stream h p f q Streaming (r @ [sn]) l)"
  using st_receive [of "demo_stream h p f (sn # q) Streaming r l" 0 sn]
  by (simp add: demo_stream_def chan_recv_def make_chan_def)

lemma demo_update_steps:
  assumes "stream_steps \<sigma> (demo_stream h None None q ph r l)" and "length q < 2"
    and "ph \<noteq> Subscribing_stream"
  shows "stream_steps \<sigma> (demo_stream h' None None (q @ [[demo_seat h']]) ph r
    (if ph = Streaming then l else insert 0 l))"
  by (rule stream_next [OF stream_next [OF stream_next [OF stream_next [OF assms(1) demo_lock [OF assms(3)]]
    demo_accept] demo_deliver [OF assms(2)]] demo_delivered])

section \<open>Properties\<close>

text \<open>
  C12: A stream ends with the current state. When updates, streams and cancellations interleave in any
  way, no update timed out and no update reached the channel of the stream before the stream's
  own snapshot, then an open stream with nothing left on its way has received, as its last
  snapshot, exactly the instances the resource holds now.
\<close>
theorem stream_ends_current:
  assumes "stream_steps (stream_init m) \<sigma>" and "s \<in> st_members \<sigma>"
    and "s \<notin> st_late \<sigma>" and "\<not> st_lost \<sigma>" and "st_phase \<sigma> s = Streaming"
    and "st_pending \<sigma> = None" and "st_fanout \<sigma> = None" and "buffer (st_chan \<sigma> s) = []"
  shows "st_received \<sigma> s \<noteq> [] \<and> listing (st_instances \<sigma>) (last (st_received \<sigma> s))"
proof -
  have "stream_ok s \<sigma>"
    using assms(1) stream_ok_init by (rule stream_steps_invariant) (rule stream_ok_step)
  with assms(2-) show ?thesis by (simp add: stream_ok_def stream_of_def)
qed

lemma stream_ends_current_witness:
  "\<exists>\<sigma>. stream_steps (stream_init (demo_insts Healthy)) (\<sigma> :: nat stream_state) \<and>
     st_instances \<sigma> = demo_insts Unhealthy \<and> listing (demo_insts Unhealthy) (last (st_received \<sigma> 0))"
proof -
  let ?\<sigma> = "demo_stream Unhealthy None None [] Streaming [[demo_seat Healthy], [demo_seat Unhealthy]] {}"
  note a = stream_next [OF stream_next [OF demo_open demo_replay_first]
      demo_receive, of Healthy, simplified]
  have run: "stream_steps (stream_init (demo_insts Healthy)) ?\<sigma>"
    using stream_next [OF demo_update_steps [OF a, of Unhealthy, simplified] demo_receive] by simp
  have "listing (st_instances ?\<sigma>) (last (st_received ?\<sigma> 0))"
    using stream_ends_current [OF run, of 0] by (simp add: demo_stream_def make_chan_def)
  with run show ?thesis by (intro exI [of _ ?\<sigma>]) (simp add: demo_stream_def)
qed

text \<open>
  C36: A snapshot that comes too late. \<open>ListAndWatch\<close> sends its snapshot after it has released the
  read lock, so an update can reach the channel first: a run without timeouts ends, with nothing on
  its way, in a stream whose last snapshot shows the seat healthy while the resource holds it
  unhealthy, although the caller read the channel to the end.
\<close>
theorem stream_stale_replay:
  "\<exists>\<sigma>. stream_steps (stream_init (demo_insts Healthy)) (\<sigma> :: nat stream_state) \<and>
     0 \<in> st_members \<sigma> \<and> \<not> st_lost \<sigma> \<and> st_phase \<sigma> 0 = Streaming \<and> st_pending \<sigma> = None \<and>
     st_fanout \<sigma> = None \<and> buffer (st_chan \<sigma> 0) = [] \<and>
     st_received \<sigma> 0 = [[demo_seat Unhealthy], [demo_seat Healthy]] \<and>
     st_instances \<sigma> = demo_insts Unhealthy"
proof -
  let ?\<sigma> = "demo_stream Unhealthy None None [] Streaming [[demo_seat Unhealthy], [demo_seat Healthy]] {0}"
  note a = demo_update_steps [OF demo_open [of Healthy],
      of Unhealthy, simplified]
  note b = stream_next [OF stream_next [OF stream_next [OF a demo_replay_second] demo_receive]
      demo_receive, simplified]
  have "stream_steps (stream_init (demo_insts Healthy)) ?\<sigma>" using b by simp
  then show ?thesis by (intro exI [of _ ?\<sigma>]) (simp add: demo_stream_def make_chan_def)
qed

text \<open>The call of \<open>ListAndWatch\<close> never returns.\<close>

definition never_returns :: "'s \<Rightarrow> 's stream_state \<Rightarrow> bool" where
  "never_returns s \<sigma> \<longleftrightarrow> (\<forall>\<tau>. stream_steps \<sigma> \<tau> \<longrightarrow> (\<exists>sn. st_phase \<tau> s = Replaying sn))"

definition replay_blocked :: "'s \<Rightarrow> 's stream_state \<Rightarrow> bool" where
  "replay_blocked s \<sigma> \<longleftrightarrow> (\<exists>sn. st_phase \<sigma> s = Replaying sn) \<and>
     capacity (st_chan \<sigma> s) + waiting (st_chan \<sigma> s) \<le> length (buffer (st_chan \<sigma> s))"

lemma replay_blocked_step:
  assumes "stream_step \<sigma> \<tau>" and "replay_blocked s \<sigma>"
  shows "replay_blocked s \<tau>"
  using assms
  by cases (auto simp: replay_blocked_def chan_send_def chan_close_def split: if_splits)

lemma replay_blocked_never_returns:
  assumes "replay_blocked s \<sigma>"
  shows "never_returns s \<sigma>"
  unfolding never_returns_def
proof (intro allI impI)
  fix \<tau> assume "stream_steps \<sigma> \<tau>"
  then have "replay_blocked s \<tau>" using assms
    by (rule stream_steps_invariant) (rule replay_blocked_step)
  then show "\<exists>sn. st_phase \<tau> s = Replaying sn" by (simp add: replay_blocked_def)
qed

text \<open>
  C37: A snapshot that never comes. The channel has room for two snapshots, and its reader starts only
  when \<open>ListAndWatch\<close> returns. When two updates are delivered between the subscription and the
  replay, the replay blocks, and no continuation of the run lets the call return.
\<close>
theorem stream_replay_deadlock:
  "\<exists>\<sigma>. stream_steps (stream_init (demo_insts Healthy)) (\<sigma> :: nat stream_state) \<and>
     \<not> st_lost \<sigma> \<and> \<not> st_closed \<sigma> \<and> never_returns 0 \<sigma>"
proof -
  let ?\<sigma> = "demo_stream Healthy None None [[demo_seat Unhealthy], [demo_seat Healthy]]
    (Replaying [demo_seat Healthy]) [] {0}"
  note a = demo_update_steps [OF demo_open [of Healthy],
      of Unhealthy, simplified]
  have run: "stream_steps (stream_init (demo_insts Healthy)) ?\<sigma>"
    using demo_update_steps [OF a, of Healthy] by simp
  have "replay_blocked 0 ?\<sigma>" by (simp add: replay_blocked_def demo_stream_def make_chan_def)
  then have "never_returns 0 ?\<sigma>" by (rule replay_blocked_never_returns)
  with run show ?thesis by (intro exI [of _ ?\<sigma>]) (simp add: demo_stream_def)
qed

text \<open>
  And then nothing is reported any more. When the multiplexer is delivering to a stream that is stuck
  in this way and another \<open>ListAndWatch\<close> waits at its subscription, that one holds the read lock, and
  the next \<open>Submit\<close> of the resource waits for the lock for good, unless the resource is closed, which
  no resource in service ever is.
\<close>

definition submit_blocked :: "'s \<Rightarrow> 's \<Rightarrow> 's stream_state \<Rightarrow> bool" where
  "submit_blocked s r \<sigma> \<longleftrightarrow> (\<exists>sn ss. st_fanout \<sigma> = Some (sn, s # ss)) \<and> replay_blocked s \<sigma> \<and>
     st_phase \<sigma> r = Subscribing_stream \<and> \<not> st_closed \<sigma>"

lemma submit_blocked_step:
  assumes "stream_step \<sigma> \<tau>" and "submit_blocked s r \<sigma>" and "\<not> st_closed \<tau>"
  shows "submit_blocked s r \<tau> \<and> st_instances \<tau> = st_instances \<sigma>"
  using assms(1)
proof cases
  case (st_deliver sn s' ss c)
  with assms(2) show ?thesis by (auto simp: submit_blocked_def replay_blocked_def chan_send_def split: if_splits)
qed (use assms(2,3) replay_blocked_step [OF assms(1), of s] in \<open>auto simp: submit_blocked_def\<close>)

lemma stream_step_closed: "stream_step \<sigma> \<tau> \<Longrightarrow> st_closed \<sigma> \<Longrightarrow> st_closed \<tau>"
  by (auto elim: stream_step.cases)

lemma submit_blocked_steps:
  "stream_steps \<sigma> \<tau> \<Longrightarrow> submit_blocked s r \<sigma> \<Longrightarrow> \<not> st_closed \<tau> \<Longrightarrow>
   submit_blocked s r \<tau> \<and> st_instances \<tau> = st_instances \<sigma>"
proof (induction rule: stream_steps.induct)
  case (stream_next \<sigma> \<tau> \<upsilon>)
  from stream_next.hyps(2) stream_next.prems(2) have "\<not> st_closed \<tau>" using stream_step_closed by blast
  with stream_next show ?case using submit_blocked_step by metis
qed simp

lemma stream_submit_deadlock:
  "\<exists>\<sigma>. stream_steps (stream_init (demo_insts Healthy)) (\<sigma> :: nat stream_state) \<and> \<not> st_lost \<sigma> \<and>
     st_pending \<sigma> = None \<and> \<not> st_closed \<sigma> \<and>
     (\<forall>\<tau>. stream_steps \<sigma> \<tau> \<and> \<not> st_closed \<tau> \<longrightarrow>
        st_phase \<tau> 1 = Subscribing_stream \<and> st_instances \<tau> = st_instances \<sigma>)"
proof -
  let ?\<tau> = "demo_stream Unhealthy None (Some ([demo_seat Unhealthy], [0])) [[demo_seat Unhealthy], [demo_seat Healthy]]
    (Replaying [demo_seat Healthy]) [] {0}"
  let ?\<sigma> = "?\<tau>\<lparr>st_phase := (st_phase ?\<tau>)(1 := Subscribing_stream)\<rparr>"
  note a = demo_update_steps [OF demo_open [of Healthy], of Unhealthy, simplified]
  note a = demo_update_steps [OF a, of Healthy, simplified]
  note a = stream_next [OF stream_next [OF a demo_lock [where h' = Unhealthy]] demo_accept, simplified]
  note a = stream_next [OF stream_next [OF a st_open [where s = 1]] st_rlock [where s = 1]]
  have run: "stream_steps (stream_init (demo_insts Healthy)) ?\<sigma>"
    using a by (simp add: demo_stream_def)
  have "submit_blocked 0 1 ?\<sigma>"
    by (simp add: submit_blocked_def replay_blocked_def demo_stream_def make_chan_def)
  from submit_blocked_steps [OF _ this] run show ?thesis
    by (intro exI [of _ ?\<sigma>]) (auto simp: submit_blocked_def demo_stream_def)
qed

end
