(* ===== verification/Plugin_Server.thy ===== *)
theory Plugin_Server
  imports Plugin_Resource
begin

text \<open>
  The device plugin service of \<open>internal/plugin/plugin.go\<close> as the kubelet calls it: \<open>Allocate\<close> and
  \<open>ListAndWatch\<close>, and the methods with empty answers.
\<close>

section \<open>Methods with empty answers\<close>

text \<open>No option is set, so the kubelet calls neither of the other two methods.\<close>

record plugin_options =
  PreStartRequired :: bool
  GetPreferredAllocationAvailable :: bool

definition GetDevicePluginOptions :: plugin_options where
  "GetDevicePluginOptions = \<lparr>PreStartRequired = False, GetPreferredAllocationAvailable = False\<rparr>"

text \<open>The preferred device ids of each container: none for any request.\<close>

definition GetPreferredAllocation :: "string list list \<Rightarrow> string list list" where
  "GetPreferredAllocation requests = []"

definition PreStartContainer :: "string list \<Rightarrow> unit" where
  "PreStartContainer ids = ()"

section \<open>Allocate\<close>

text \<open>The two gRPC errors, with the device id and for the second the error of the instance.\<close>

datatype allocate_error = NotFound string | Internal string string

text \<open>
  The inner loop, over the device ids of one container, with the response so far; \<open>alloc\<close> is the
  method \<open>Allocate\<close> of an instance, whose response may be nil.
\<close>

fun allocate_ids :: "(inst \<Rightarrow> string + allocate_response option) \<Rightarrow> inst_map \<Rightarrow> string list \<Rightarrow>
    allocate_response \<Rightarrow> allocate_error + allocate_response" where
  "allocate_ids alloc instances [] response = Inr response"
| "allocate_ids alloc instances (i # is) response =
     (case instances i of
        None \<Rightarrow> Inl (NotFound i)
      | Some inst \<Rightarrow>
          (case alloc inst of
             Inl err \<Rightarrow> Inl (Internal i err)
           | Inr r \<Rightarrow> allocate_ids alloc instances is (mergeResponses [Some response, r])))"

text \<open>The outer loop, over the container requests.\<close>

fun allocate_containers :: "(inst \<Rightarrow> string + allocate_response option) \<Rightarrow> inst_map \<Rightarrow>
    string list list \<Rightarrow> allocate_response list \<Rightarrow> allocate_error + allocate_response list" where
  "allocate_containers alloc instances [] responses = Inr responses"
| "allocate_containers alloc instances (ids # reqs) responses =
     (case allocate_ids alloc instances ids empty_response of
        Inl err \<Rightarrow> Inl err
      | Inr r \<Rightarrow> allocate_containers alloc instances reqs (responses @ [r]))"

definition plugin_Allocate :: "pools \<Rightarrow> (nat \<Rightarrow> string list) \<Rightarrow> resource \<Rightarrow> string list list \<Rightarrow>
    allocate_error + allocate_response list" where
  "plugin_Allocate w order res requests =
     allocate_containers (inst_Allocate w order) (res_Instances res) requests []"

text \<open>The response of an instance of the repository, which never fails and is never nil.\<close>

definition inst_response :: "pools \<Rightarrow> (nat \<Rightarrow> string list) \<Rightarrow> inst \<Rightarrow> allocate_response" where
  "inst_response w order i = (case inst_Allocate w order i of Inr (Some r) \<Rightarrow> r | _ \<Rightarrow> empty_response)"

lemma inst_Allocate_response: "inst_Allocate w order i = Inr (Some (inst_response w order i))"
proof -
  have "\<exists>r. inst_Allocate w order i = Inr (Some r)" by (induction i) simp_all
  then show ?thesis by (auto simp: inst_response_def)
qed

lemma allocate_ids_spec:
  "allocate_ids (inst_Allocate w order) m ids r =
     (case find (\<lambda>i. m i = None) ids of
        Some i \<Rightarrow> Inl (NotFound i)
      | None \<Rightarrow> Inr (merge_into r (mergeResponses (map (\<lambda>i. Some (inst_response w order (the (m i)))) ids))))"
proof (induction ids arbitrary: r)
  case (Cons i ids)
  show ?case
  proof (cases "m i")
    case (Some x)
    with Cons show ?thesis
      by (simp add: inst_Allocate_response merge_into_assoc split: option.split)
  qed simp
qed simp

lemma allocate_containers_spec:
  "allocate_containers (inst_Allocate w order) m reqs rs =
     (case find (\<lambda>i. m i = None) (concat reqs) of
        Some i \<Rightarrow> Inl (NotFound i)
      | None \<Rightarrow> Inr (rs @ map (\<lambda>ids. mergeResponses
          (map (\<lambda>i. Some (inst_response w order (the (m i)))) ids)) reqs))"
proof (induction reqs arbitrary: rs)
  case (Cons ids reqs)
  have find: "find P (xs @ ys) = (case find P xs of None \<Rightarrow> find P ys | Some x \<Rightarrow> Some x)" for P :: "string \<Rightarrow> bool" and xs ys
    by (induction xs) simp_all
  from Cons show ?case by (simp add: allocate_ids_spec find split: option.split)
qed simp

text \<open>
  C22: Allocation is all or nothing. A request is refused as a whole, naming the first id in the order
  of the request that the resource does not have; otherwise each container gets one response, the
  merge of the responses of its devices in order. Health does not matter.
\<close>
theorem allocate_all_or_nothing:
  "plugin_Allocate w order res requests =
     (case find (\<lambda>i. res_instances res i = None) (concat requests) of
        Some i \<Rightarrow> Inl (NotFound i)
      | None \<Rightarrow> Inr (map (\<lambda>ids. mergeResponses
          (map (\<lambda>i. Some (inst_response w order (the (res_instances res i)))) ids)) requests))"
  unfolding plugin_Allocate_def by (simp add: allocate_containers_spec split: option.split)

section \<open>ListAndWatch\<close>

record api_device =
  dev_ID :: string
  dev_Health :: string
  dev_Topology :: topology_info

text \<open>The loop that fills the devices of a message.\<close>

definition to_api_device :: "pools \<Rightarrow> inst \<Rightarrow> api_device" where
  "to_api_device w i = \<lparr>dev_ID = inst_Id i, dev_Health = health_String (inst_Health w i),
     dev_Topology = inst_TopologyHints i\<rparr>"

text \<open>
  What the \<open>select\<close> of the handler receives: a snapshot (with the pools at that time and whether the
  send on the stream succeeds), the end of the channel, or the end of the stream's context.
\<close>

datatype watch_input = WatchInstances pools "inst list" bool | WatchClosed | WatchDone

datatype watch_result = Watching | ReturnNil | SendFailed | ContextError

fun plugin_ListAndWatch :: "watch_input list \<Rightarrow> api_device list list \<Rightarrow> api_device list list \<times> watch_result" where
  "plugin_ListAndWatch [] sent = (sent, Watching)"
| "plugin_ListAndWatch (WatchInstances w insts ok # is) sent =
     (if ok then plugin_ListAndWatch is (sent @ [map (to_api_device w) insts]) else (sent, SendFailed))"
| "plugin_ListAndWatch (WatchClosed # is) sent = (sent, ReturnNil)"
| "plugin_ListAndWatch (WatchDone # is) sent = (sent, ContextError)"

fun delivered :: "watch_input \<Rightarrow> bool" where
  "delivered (WatchInstances w insts ok) = ok"
| "delivered _ = False"

fun message :: "watch_input \<Rightarrow> api_device list" where
  "message (WatchInstances w insts ok) = map (to_api_device w) insts"
| "message _ = []"

lemma watch_spec:
  "plugin_ListAndWatch is sent = (sent @ map message (takeWhile delivered is),
     case dropWhile delivered is of
       [] \<Rightarrow> Watching | WatchInstances w insts ok # _ \<Rightarrow> SendFailed | WatchClosed # _ \<Rightarrow> ReturnNil
     | WatchDone # _ \<Rightarrow> ContextError)"
proof (induction "is" arbitrary: sent)
  case (Cons i "is")
  then show ?case by (cases i) simp_all
qed simp

text \<open>
  The watch forwards every snapshot. The messages on the stream are the snapshots in the order in
  which they came, one message each, up to the first failed send, closed channel or cancelled
  context, which ends the call with its result; nothing is sent after it.
\<close>
theorem watch_forwards_snapshots:
  "plugin_ListAndWatch is [] = (map message (takeWhile delivered is),
     case dropWhile delivered is of
       [] \<Rightarrow> Watching | WatchInstances w insts ok # _ \<Rightarrow> SendFailed | WatchClosed # _ \<Rightarrow> ReturnNil
     | WatchDone # _ \<Rightarrow> ContextError)"
  by (simp add: watch_spec)

end
