(* ===== verification/Plugin_Scatter.thy ===== *)
theory Plugin_Scatter
  imports Plugin_Resource Udev_Discovery
begin

text \<open>
  The scatter, \<open>internal/plugin/scatter.go\<close>: the goroutine that turns device events into resources
  and health updates. The templater and the mapper are parameters, as in the code; the registry
  is a parameter with a state of its own (its model is \<open>Plugin_Registry\<close>).
\<close>

section \<open>The scatter\<close>

text \<open>The routes of \<open>Scatter\<close> and the state of the registry it adds resources to.\<close>

record 'r scatter =
  routes :: "resource_template \<rightharpoonup> resource"
  registry_state :: 'r

definition new_scatter :: "'r \<Rightarrow> 'r scatter" where
  "new_scatter r = \<lparr>routes = Map.empty, registry_state = r\<rparr>"

type_synonym templater = "resource_template option from_device"
type_synonym mapper = "inst list from_device"
type_synonym 'r registry_add = "resource \<Rightarrow> 'r \<Rightarrow> 'r \<times> bool"

text \<open>The copying loop of \<open>unpack\<close>.\<close>

fun unpack :: "inst list \<Rightarrow> inst list" where
  "unpack [] = []"
| "unpack (i # is) = i # unpack is"

definition scatter_added ::
    "templater \<Rightarrow> mapper \<Rightarrow> 'r registry_add \<Rightarrow> device option \<Rightarrow> 'r scatter \<Rightarrow> 'r scatter outcome" where
  "scatter_added templater mapper add dev s =
     (case dev of
        None \<Rightarrow> Return s
      | Some d \<Rightarrow> bind_outcome (templater d) (\<lambda>tr. case tr of
          Inl err \<Rightarrow> Return s
        | Inr None \<Rightarrow> Return s
        | Inr (Some t) \<Rightarrow> bind_outcome (mapper d) (\<lambda>mr. case mr of
            Inl err \<Rightarrow> Return s
          | Inr instances \<Rightarrow>
              (case routes s t of
                 Some res \<Rightarrow>
                   Return (s\<lparr>routes := (routes s)(t \<mapsto> res_Submit (unpack instances) Healthy res)\<rparr>)
               | None \<Rightarrow>
                   (let res = newResource t (store_all inst_Id (\<lambda>i. i) instances Map.empty);
                        (r', ok) = add res (registry_state s)
                    in if ok then Return (s\<lparr>routes := (routes s)(t \<mapsto> res), registry_state := r'\<rparr>)
                       else Return (s\<lparr>registry_state := r'\<rparr>))))))"

definition scatter_removed ::
    "templater \<Rightarrow> mapper \<Rightarrow> device option \<Rightarrow> 'r scatter \<Rightarrow> 'r scatter outcome" where
  "scatter_removed templater mapper dev s =
     (case dev of
        None \<Rightarrow> Return s
      | Some d \<Rightarrow> bind_outcome (templater d) (\<lambda>tr. case tr of
          Inl err \<Rightarrow> Return s
        | Inr None \<Rightarrow> Return s
        | Inr (Some t) \<Rightarrow> bind_outcome (mapper d) (\<lambda>mr. case mr of
            Inl err \<Rightarrow> Return s
          | Inr instances \<Rightarrow>
              (case routes s t of
                 Some res \<Rightarrow>
                   Return (s\<lparr>routes := (routes s)(t \<mapsto> res_Submit (unpack instances) Unhealthy res)\<rparr>)
               | None \<Rightarrow> Return s))))"

fun scatter_init ::
    "templater \<Rightarrow> mapper \<Rightarrow> 'r registry_add \<Rightarrow> device list \<Rightarrow> 'r scatter \<Rightarrow> 'r scatter outcome" where
  "scatter_init templater mapper add [] s = Return s"
| "scatter_init templater mapper add (d # ds) s =
     bind_outcome (scatter_added templater mapper add (Some d) s) (scatter_init templater mapper add ds)"

fun scatter_event ::
    "templater \<Rightarrow> mapper \<Rightarrow> 'r registry_add \<Rightarrow> event \<Rightarrow> 'r scatter \<Rightarrow> 'r scatter outcome" where
  "scatter_event templater mapper add (Init ds) s = scatter_init templater mapper add ds s"
| "scatter_event templater mapper add (Added d) s = scatter_added templater mapper add (Some d) s"
| "scatter_event templater mapper add (Removed d) s = scatter_removed templater mapper (Some d) s"

text \<open>The loop of \<open>run\<close> over the events that come before the channel is closed.\<close>

fun scatter_run ::
    "templater \<Rightarrow> mapper \<Rightarrow> 'r registry_add \<Rightarrow> event list \<Rightarrow> 'r scatter \<Rightarrow> 'r scatter outcome" where
  "scatter_run templater mapper add [] s = Return s"
| "scatter_run templater mapper add (e # es) s =
     bind_outcome (scatter_event templater mapper add e s) (scatter_run templater mapper add es)"

lemma unpack_id [simp]: "unpack is = is"
  by (induction "is") simp_all

section \<open>One device at a time\<close>

text \<open>An \<open>Init\<close> is handled as its devices added one by one.\<close>

fun single_events :: "event \<Rightarrow> event list" where
  "single_events (Init ds) = map Added ds"
| "single_events e = [e]"

lemma scatter_run_append:
  "scatter_run t m add (xs @ ys) s = bind_outcome (scatter_run t m add xs s) (scatter_run t m add ys)"
proof (induction xs arbitrary: s)
  case (Cons x xs)
  then show ?case by (cases "scatter_event t m add x s") auto
qed simp

lemma scatter_init_run: "scatter_init t m add ds s = scatter_run t m add (map Added ds) s"
proof (induction ds arbitrary: s)
  case (Cons d ds)
  then show ?case by (cases "scatter_added t m add (Some d) s") auto
qed simp

lemma scatter_event_single: "scatter_event t m add e s = scatter_run t m add (single_events e) s"
proof (cases e)
  case (Init ds)
  then show ?thesis by (simp add: scatter_init_run)
next
  case (Added d)
  then show ?thesis by (cases "scatter_added t m add (Some d) s") auto
next
  case (Removed d)
  then show ?thesis by (cases "scatter_removed t m (Some d) s") auto
qed

lemma scatter_run_single:
  "scatter_run t m add evs s = scatter_run t m add (concat (map single_events evs)) s"
proof (induction evs arbitrary: s)
  case (Cons e evs)
  have "scatter_run t m add evs = scatter_run t m add (concat (map single_events evs))"
    by (rule ext) (rule Cons.IH)
  then show ?case by (simp add: scatter_event_single scatter_run_append)
qed simp

lemma replay_map_Added: "replay (map Added ds) m = store_all dev_Id (\<lambda>d. d) ds m"
  by (induction ds arbitrary: m) simp_all

lemma apply_event_single: "apply_event e m = replay (single_events e) m"
  by (cases e) (simp_all add: replay_map_Added)

lemma replay_single: "replay (concat (map single_events evs)) m = replay evs m"
proof (induction evs arbitrary: m)
  case (Cons e evs)
  then show ?case by (simp add: apply_event_single [of e])
qed simp

lemma removals_known_map_Added [simp]: "removals_known (map Added ds) m"
  by (induction ds arbitrary: m) simp_all

lemma removals_known_single:
  "removals_known (concat (map single_events evs)) m \<longleftrightarrow> removals_known evs m"
proof (induction evs arbitrary: m)
  case (Cons e evs)
  have "removals_known (single_events e) m \<longleftrightarrow> (case e of Removed d \<Rightarrow> m (dev_Id d) = Some d | _ \<Rightarrow> True)"
    by (cases e) simp_all
  with Cons show ?case by (simp add: removals_known_append apply_event_single [of e])
qed simp

section \<open>The abstract specification\<close>

text \<open>
  A device is routed to a template with its instances, or to nothing. The specification keeps for
  every resource and id the instance and the health of the last event that mentions it.
\<close>

definition route :: "templater \<Rightarrow> mapper \<Rightarrow> device \<Rightarrow> (resource_template \<times> inst list) option" where
  "route templater mapper d =
     (case templater d of Return (Inr (Some t)) \<Rightarrow>
        (case mapper d of Return (Inr is) \<Rightarrow> Some (t, is) | _ \<Rightarrow> None) | _ \<Rightarrow> None)"

type_synonym fleet = "resource_template \<Rightarrow> string \<rightharpoonup> inst \<times> health"

definition spec_mark :: "(resource_template \<times> inst list) option \<Rightarrow> health \<Rightarrow> fleet \<Rightarrow> fleet" where
  "spec_mark rt h M = (case rt of None \<Rightarrow> M
     | Some (t, is) \<Rightarrow> M(t := store_all inst_Id (\<lambda>i. (i, h)) is (M t)))"

fun spec_event :: "templater \<Rightarrow> mapper \<Rightarrow> event \<Rightarrow> fleet \<Rightarrow> fleet" where
  "spec_event tm mp (Removed d) M = spec_mark (route tm mp d) Unhealthy M"
| "spec_event tm mp (Added d) M = spec_mark (route tm mp d) Healthy M"
| "spec_event tm mp (Init ds) M = fold (\<lambda>d. spec_mark (route tm mp d) Healthy) ds M"

text \<open>What a stored instance stands for: an override is the instance with that health.\<close>

fun decode :: "inst \<Rightarrow> inst \<times> health" where
  "decode (HealthOverride i h) = (i, h)"
| "decode i = (i, Healthy)"

definition fleet_of :: "'r scatter \<Rightarrow> fleet" where
  "fleet_of s = (\<lambda>t k. case routes s t of None \<Rightarrow> None | Some r \<Rightarrow> map_option decode (res_instances r k))"

fun plain_inst :: "inst \<Rightarrow> bool" where
  "plain_inst (HealthOverride i h) = False"
| "plain_inst i = True"

lemma decode_plain: "plain_inst i \<Longrightarrow> decode i = (i, Healthy)"
  by (cases i) simp_all

text \<open>Mappings without panics, whose instances are not overrides, and a registry that accepts.\<close>

definition well_behaved :: "templater \<Rightarrow> mapper \<Rightarrow> 'r registry_add \<Rightarrow> bool" where
  "well_behaved tm mp add \<longleftrightarrow> (\<forall>d. \<not> panics (tm d) \<and> \<not> panics (mp d) \<and>
     (\<forall>is. mp d = Return (Inr is) \<longrightarrow> (\<forall>i \<in> set is. plain_inst i))) \<and> (\<forall>res r. snd (add res r))"

lemma map_option_store_all:
  "(\<And>x. x \<in> set xs \<Longrightarrow> g (val x) = val' x) \<Longrightarrow>
   map_option g (store_all key val xs m k) = store_all key val' xs (\<lambda>k. map_option g (m k)) k"
proof (induction xs arbitrary: m)
  case (Cons x xs)
  have "(\<lambda>a. map_option g ((m(key x \<mapsto> val x)) a)) = (\<lambda>k. map_option g (m k))(key x \<mapsto> val' x)"
    using Cons.prems [of x] by auto
  with Cons show ?case by simp
qed simp

lemma fleet_submit:
  "fleet_of (s\<lparr>routes := (routes s)(t \<mapsto> res_Submit is h res)\<rparr>) =
   (fleet_of s)(t := store_all inst_Id (\<lambda>i. (i, h)) is (\<lambda>k. map_option decode (res_instances res k)))"
proof -
  have "map_option decode (res_instances (res_Submit is h res) k) =
      store_all inst_Id (\<lambda>i. (i, h)) is (\<lambda>k. map_option decode (res_instances res k)) k" for k
    unfolding res_Submit_def submit_instances_def by (simp add: map_option_store_all)
  then show ?thesis by (auto simp: fleet_of_def fun_eq_iff)
qed

lemma added_refines:
  assumes "well_behaved tm mp add"
  shows "\<exists>s'. scatter_added tm mp add (Some d) s = Return s' \<and>
    fleet_of s' = spec_mark (route tm mp d) Healthy (fleet_of s) \<and>
    dom (routes s') = dom (routes s) \<union> fst ` set_option (route tm mp d)"
proof (cases "route tm mp d")
  case None
  from assms have "\<not> panics (tm d)" "\<not> panics (mp d)" by (auto simp: well_behaved_def)
  then have "scatter_added tm mp add (Some d) s = Return s"
    using None unfolding not_panics_iff
    by (auto simp: scatter_added_def route_def split: sum.splits option.splits)
  with None show ?thesis by (simp add: spec_mark_def)
next
  case (Some ti)
  obtain t "is" where ti: "ti = (t, is)" by (cases ti)
  with Some have maps: "tm d = Return (Inr (Some t))" "mp d = Return (Inr is)"
    by (auto simp: route_def split: outcome.splits sum.splits option.splits)
  show ?thesis
  proof (cases "routes s t")
    case (Some res)
    with maps have "scatter_added tm mp add (Some d) s =
        Return (s\<lparr>routes := (routes s)(t \<mapsto> res_Submit is Healthy res)\<rparr>)"
      by (simp add: scatter_added_def)
    moreover have "fleet_of s t = (\<lambda>k. map_option decode (res_instances res k))"
      using Some by (simp add: fleet_of_def)
    ultimately show ?thesis using \<open>route tm mp d = Some ti\<close> ti
      by (simp add: spec_mark_def fleet_submit)
  next
    case None
    let ?m = "store_all inst_Id (\<lambda>i. i) is Map.empty"
    obtain r' where r': "add (newResource t ?m) (registry_state s) = (r', True)"
      using assms unfolding well_behaved_def by (metis prod.collapse)
    with None maps have run: "scatter_added tm mp add (Some d) s =
        Return (s\<lparr>routes := (routes s)(t \<mapsto> newResource t ?m), registry_state := r'\<rparr>)"
      by (simp add: scatter_added_def Let_def)
    have plain: "\<And>i. i \<in> set is \<Longrightarrow> decode i = (i, Healthy)"
      using assms maps by (auto simp: well_behaved_def decode_plain)
    have "map_option decode (?m k) = store_all inst_Id (\<lambda>i. (i, Healthy)) is (fleet_of s t) k" for k
      using map_option_store_all [of "is" decode "\<lambda>i. i" "\<lambda>i. (i, Healthy)" inst_Id Map.empty k] plain None
      by (simp add: fleet_of_def)
    then have "fleet_of (s\<lparr>routes := (routes s)(t \<mapsto> newResource t ?m), registry_state := r'\<rparr>) =
        (fleet_of s)(t := store_all inst_Id (\<lambda>i. (i, Healthy)) is (fleet_of s t))"
      by (auto simp: fleet_of_def newResource_def fun_eq_iff)
    with run \<open>route tm mp d = Some ti\<close> ti show ?thesis by (simp add: spec_mark_def)
  qed
qed

lemma removed_refines:
  assumes "well_behaved tm mp add" and "fst ` set_option (route tm mp d) \<subseteq> dom (routes s)"
  shows "\<exists>s'. scatter_removed tm mp (Some d) s = Return s' \<and>
    fleet_of s' = spec_mark (route tm mp d) Unhealthy (fleet_of s) \<and> dom (routes s') = dom (routes s)"
proof (cases "route tm mp d")
  case None
  from assms have "\<not> panics (tm d)" "\<not> panics (mp d)" by (auto simp: well_behaved_def)
  then have "scatter_removed tm mp (Some d) s = Return s"
    using None unfolding not_panics_iff
    by (auto simp: scatter_removed_def route_def split: sum.splits option.splits)
  with None show ?thesis by (simp add: spec_mark_def)
next
  case (Some ti)
  obtain t "is" where ti: "ti = (t, is)" by (cases ti)
  with Some have maps: "tm d = Return (Inr (Some t))" "mp d = Return (Inr is)"
    by (auto simp: route_def split: outcome.splits sum.splits option.splits)
  from assms(2) Some ti obtain res where res: "routes s t = Some res" by auto
  with maps have "scatter_removed tm mp (Some d) s =
      Return (s\<lparr>routes := (routes s)(t \<mapsto> res_Submit is Unhealthy res)\<rparr>)"
    by (simp add: scatter_removed_def)
  moreover have "fleet_of s t = (\<lambda>k. map_option decode (res_instances res k))"
    using res by (simp add: fleet_of_def)
  moreover have "insert t (dom (routes s)) = dom (routes s)" using res by auto
  ultimately show ?thesis using Some ti by (simp add: spec_mark_def fleet_submit)
qed

text \<open>The templates of the devices that are present have a route.\<close>

definition routes_cover :: "templater \<Rightarrow> mapper \<Rightarrow> device_map \<Rightarrow> 'r scatter \<Rightarrow> bool" where
  "routes_cover tm mp m s \<longleftrightarrow> (\<forall>i d. m i = Some d \<longrightarrow> fst ` set_option (route tm mp d) \<subseteq> dom (routes s))"

definition single_event :: "event \<Rightarrow> bool" where
  "single_event e \<longleftrightarrow> single_events e = [e]"

lemma single_eventE:
  assumes "single_event e"
  obtains (added) d where "e = Added d" | (removed) d where "e = Removed d"
  using assms by (cases e) (auto simp: single_event_def map_eq_Cons_conv)

lemma event_refines:
  assumes "well_behaved tm mp add" and "single_event e"
    and "routes_cover tm mp m s" and "removals_known [e] m"
  shows "\<exists>s'. scatter_event tm mp add e s = Return s' \<and>
    fleet_of s' = spec_event tm mp e (fleet_of s) \<and> routes_cover tm mp (apply_event e m) s'"
  using assms(2)
proof (cases rule: single_eventE)
  case (added d)
  from added_refines [OF assms(1), of d s] obtain s' where
    "scatter_added tm mp add (Some d) s = Return s'"
    "fleet_of s' = spec_mark (route tm mp d) Healthy (fleet_of s)"
    "dom (routes s') = dom (routes s) \<union> fst ` set_option (route tm mp d)" by blast
  moreover from this(3) assms(3) have "routes_cover tm mp (m(dev_Id d \<mapsto> d)) s'"
    unfolding routes_cover_def by (metis (no_types, lifting) Un_iff fun_upd_apply option.inject subsetI subsetD)
  ultimately show ?thesis using added by simp
next
  case (removed d)
  with assms(3,4) have "fst ` set_option (route tm mp d) \<subseteq> dom (routes s)"
    by (simp add: routes_cover_def)
  from removed_refines [OF assms(1) this] obtain s' where
    "scatter_removed tm mp (Some d) s = Return s'"
    "fleet_of s' = spec_mark (route tm mp d) Unhealthy (fleet_of s)" "dom (routes s') = dom (routes s)"
    by blast
  with removed assms(3) show ?thesis by (auto simp: routes_cover_def)
qed

lemma run_refines_single:
  assumes "well_behaved tm mp add"
  shows "(\<And>e. e \<in> set evs \<Longrightarrow> single_event e) \<Longrightarrow> routes_cover tm mp m s \<Longrightarrow> removals_known evs m \<Longrightarrow>
    \<exists>s'. scatter_run tm mp add evs s = Return s' \<and> fleet_of s' = fold (spec_event tm mp) evs (fleet_of s)"
proof (induction evs arbitrary: m s)
  case (Cons e evs)
  then have "removals_known [e] m" by simp
  with event_refines [OF assms _ Cons.prems(2), of e] Cons.prems(1) obtain s' where
    "scatter_event tm mp add e s = Return s'" "fleet_of s' = spec_event tm mp e (fleet_of s)"
    "routes_cover tm mp (apply_event e m) s'" by auto
  moreover from Cons.IH [OF _ this(3)] Cons.prems(1,3) obtain s'' where
    "scatter_run tm mp add evs s' = Return s''"
    "fleet_of s'' = fold (spec_event tm mp) evs (fleet_of s')" by auto
  ultimately show ?case by simp
qed simp

lemma spec_single: "spec_event tm mp e M = fold (spec_event tm mp) (single_events e) M"
proof (cases e)
  case (Init ds)
  have "fold (\<lambda>d. spec_mark (route tm mp d) Healthy) ds M = fold (spec_event tm mp) (map Added ds) M" for M
    by (induction ds arbitrary: M) simp_all
  with Init show ?thesis by simp
qed simp_all

lemma fold_spec_single:
  "fold (spec_event tm mp) (concat (map single_events evs)) M = fold (spec_event tm mp) evs M"
proof (induction evs arbitrary: M)
  case (Cons e evs)
  then show ?case by (simp add: spec_single [of tm mp e])
qed simp

lemma singles: "e \<in> set (concat (map single_events evs)) \<Longrightarrow> single_event e"
proof -
  assume "e \<in> set (concat (map single_events evs))"
  then obtain e' where "e \<in> set (single_events e')" by auto
  then show ?thesis by (cases e') (auto simp: single_event_def)
qed

lemma scatter_run_refines:
  assumes "well_behaved tm mp add" and "removals_known evs Map.empty"
  shows "\<exists>s. scatter_run tm mp add evs (new_scatter r) = Return s \<and>
    fleet_of s = fold (spec_event tm mp) evs (\<lambda>t k. None)"
proof -
  have "fleet_of (new_scatter r) = (\<lambda>t k. None)" by (simp add: fleet_of_def new_scatter_def)
  moreover have "routes_cover tm mp Map.empty (new_scatter r)" by (simp add: routes_cover_def)
  ultimately show ?thesis
    using run_refines_single [OF assms(1) singles, where evs = "concat (map single_events evs)" and m = Map.empty and s = "new_scatter r"] assms(2)
    by (simp add: removals_known_single fold_spec_single scatter_run_single [of tm mp add evs])
qed

text \<open>Mappings that do not panic give a scatter that does not, whatever the registry does.\<close>

lemma scatter_event_returns:
  assumes "\<And>d. d \<in> set (event_devices e) \<Longrightarrow> \<not> panics (tm d) \<and> \<not> panics (mp d)"
  shows "\<exists>s'. scatter_event tm mp add e s = Return s'"
proof -
  have added: "\<exists>s'. scatter_added tm mp add (Some d) s = Return s'" if "d \<in> set (event_devices e)" for d s
    using assms [OF that] unfolding not_panics_iff
    by (auto simp: scatter_added_def case_prod_beta Let_def split: sum.split option.split)
  have "set ds \<subseteq> set (event_devices e) \<Longrightarrow> \<exists>s'. scatter_init tm mp add ds s = Return s'" for ds
  proof (induction ds arbitrary: s)
    case (Cons d ds)
    with added [of d s] obtain s1 where "scatter_added tm mp add (Some d) s = Return s1" by auto
    with Cons show ?case by simp
  qed simp
  moreover have "\<exists>s'. scatter_removed tm mp (Some d) s = Return s'" if "d \<in> set (event_devices e)" for d
    using assms [OF that] unfolding not_panics_iff
    by (auto simp: scatter_removed_def split: sum.split option.split)
  ultimately show ?thesis using added by (cases e) simp_all
qed

text \<open>Conversely, a run that returned has asked the mappings without a panic.\<close>

definition calm :: "templater \<Rightarrow> mapper \<Rightarrow> device \<Rightarrow> bool" where
  "calm tm mp d \<longleftrightarrow> \<not> panics (tm d) \<and> ((\<exists>t. tm d = Return (Inr (Some t))) \<longrightarrow> \<not> panics (mp d))"

lemma scatter_one_calm:
  assumes "scatter_added tm mp add (Some d) s = Return s' \<or> scatter_removed tm mp (Some d) s = Return s'"
  shows "calm tm mp d"
  using assms by (auto simp: scatter_added_def scatter_removed_def calm_def Let_def
      split: sum.splits option.splits elim!: bind_outcome_ReturnE)

lemma scatter_event_calm:
  "scatter_event tm mp add e s = Return s' \<Longrightarrow> d \<in> set (event_devices e) \<Longrightarrow> calm tm mp d"
proof (cases e)
  case (Init ds)
  have "scatter_init tm mp add ds s = Return s' \<Longrightarrow> d \<in> set ds \<Longrightarrow> calm tm mp d" for s
  proof (induction ds arbitrary: s)
    case (Cons d' ds)
    then show ?case by (auto elim!: bind_outcome_ReturnE intro: scatter_one_calm)
  qed simp
  then show "scatter_event tm mp add e s = Return s' \<Longrightarrow> d \<in> set (event_devices e) \<Longrightarrow> calm tm mp d"
    by (simp add: Init)
qed (auto intro: scatter_one_calm)

section \<open>The scatters of the application\<close>

text \<open>A mapper for instances of one kind, stored behind the interface \<open>Instance\<close>.\<close>

definition as_insts :: "('t \<Rightarrow> inst) \<Rightarrow> 't list from_device \<Rightarrow> mapper" where
  "as_insts wrap f d = bind_outcome (f d) (\<lambda>r. Return (case r of Inl e \<Rightarrow> Inl e | Inr xs \<Rightarrow> Inr (map wrap xs)))"

abbreviation partition_templater :: "string \<Rightarrow> regexp \<Rightarrow> templater" where
  "partition_templater domain matcher \<equiv> PartitionLabelMatcherTemplater domain matcher"

definition partition_mapper :: "string \<Rightarrow> regexp \<Rightarrow> bool \<Rightarrow> mapper" where
  "partition_mapper domain matcher disable =
     as_insts PartitionInstance (PartitionLabelMatcherInstances domain matcher disable)"

lemma partition_route:
  "route (partition_templater domain matcher) (partition_mapper domain matcher disable) d =
     (case partition_matches matcher d of
        None \<Rightarrow> None
      | Some (partlabel, matches) \<Rightarrow> Some (\<lparr>Domain = domain, Prefix = ''part-'' @ join (tl matches) ''_''\<rparr>,
          [PartitionInstance \<lparr>part_domain = domain,
            part_label = (if length matches > 1 then matches ! 1 else partlabel),
            part_dev = d, part_disableTopologyHints = disable\<rparr>]))"
  by (simp add: route_def partition_mapper_def as_insts_def partition_mappings
      split: option.split prod.split)

lemma partition_well_behaved:
  "(\<And>res r. snd (add res r)) \<Longrightarrow>
   well_behaved (partition_templater domain matcher) (partition_mapper domain matcher disable) add"
  by (simp add: well_behaved_def partition_mapper_def as_insts_def partition_mappings
      split: option.split prod.split)

lemma partition_present_health:
  assumes "decode j = (i, h)" and "inst_Health w i = Healthy"
  shows "inst_Health w j = h"
  using assms by (cases j; cases h) auto

lemma decode_Allocate: "decode j = (i, h) \<Longrightarrow> inst_Allocate w order j = inst_Allocate w order i"
  by (cases j) auto

section \<open>Properties\<close>

text \<open>
  C10: The scatter implements its specification. For mappings that do not panic, a registry that
  accepts, and removals of devices as they were added, a run over any events returns, and its
  resources hold, for every resource and id, the instance and the health of the last event that
  mentions them, and nothing else.
\<close>
theorem scatter_refines_fleet:
  assumes "well_behaved tm mp add" and "removals_known evs Map.empty"
  shows "\<exists>s. scatter_run tm mp add evs (new_scatter r) = Return s \<and>
    fleet_of s = fold (spec_event tm mp) evs (\<lambda>t k. None)"
  by (rule scatter_run_refines [OF assms])

lemma scatter_refines_fleet_witness:
  "\<exists>s. scatter_run (partition_templater ''d'' demo_matcher) (partition_mapper ''d'' demo_matcher False)
      (\<lambda>res n. (Suc n, True)) [Init [demo_partition], Removed demo_partition] (new_scatter (0::nat)) = Return s \<and>
    map_option snd (fleet_of s \<lparr>Domain = ''d'', Prefix = ''part-disk1''\<rparr> ''disk1'') = Some Unhealthy"
proof -
  have wb: "well_behaved (partition_templater ''d'' demo_matcher) (partition_mapper ''d'' demo_matcher False)
      (\<lambda>res n. (Suc n, True))" by (rule partition_well_behaved) simp
  have "removals_known [Init [demo_partition], Removed demo_partition] Map.empty" by simp
  from scatter_refines_fleet [OF wb this, of 0] show ?thesis
    by (auto simp: partition_route demo_partition_match spec_mark_def partition_Id_def)
qed

end
