(* ===== verification/Plugin_Registry.thy ===== *)
theory Plugin_Registry
  imports Plugin_Scatter
begin

text \<open>
  The life of a plugin, \<open>newPlugin\<close>, \<open>stop\<close> and \<open>probe\<close> of \<open>internal/plugin/plugin.go\<close>, and the registry,
  \<open>internal/plugin/registry.go\<close>. gRPC, the socket files and the kubelet are outside the repository:
  the state keeps which server listens at which socket path, which servers run, at which path each
  was started and which registrations the kubelet got, and the outcome of each external call is a parameter.
\<close>

section \<open>Plugins\<close>

text \<open>A plugin with its resource, the path of its socket and its server.\<close>

record plugin =
  plug_resource :: resource
  plug_path :: string
  plug_server :: nat

record registry =
  reg_plugins :: "string \<rightharpoonup> plugin"
  reg_sockets :: "string \<rightharpoonup> nat"
  reg_running :: "nat set"
  reg_paths :: "nat \<rightharpoonup> string"
  reg_next :: nat
  reg_kubelet :: "(string \<times> string) list"

text \<open>
  The directory of the sockets, the socket of the kubelet, \<open>sanitize.BaseName\<close> of the package
  sanitize, and which external calls fail: making the file watcher, watching a directory, the removal
  of a socket file, listening at a path, registering a resource.
\<close>

record reg_env =
  env_pluginDir :: string
  env_kubeletSocket :: string
  env_BaseName :: "string \<Rightarrow> string"
  env_watcher_fails :: bool
  env_watch_fails :: "string \<Rightarrow> bool"
  env_remove_fails :: "string \<Rightarrow> bool"
  env_listen_fails :: "string \<Rightarrow> bool"
  env_register_fails :: "string \<Rightarrow> bool"

datatype reg_error = RemoveFailed string | ListenFailed string | AlreadyExists string | RegisterFailed string
  | WatcherFailed | WatchFailed string

definition empty_registry :: registry where
  "empty_registry = \<lparr>reg_plugins = Map.empty, reg_sockets = Map.empty, reg_running = {}, reg_paths = Map.empty, reg_next = 0,
     reg_kubelet = []\<rparr>"

text \<open>The directory of the kubelet socket is watched, not the socket, which a restart replaces.\<close>

definition NewRegistry :: "reg_env \<Rightarrow> reg_error + registry" where
  "NewRegistry env =
     (if env_watcher_fails env then Inl WatcherFailed
      else let kubeletSocketDir = path_Dir (env_kubeletSocket env)
           in if env_watch_fails env kubeletSocketDir then Inl (WatchFailed kubeletSocketDir)
              else Inr empty_registry)"

text \<open>
  The options replace the two paths, whose defaults are constants of the kubelet's package; the paths
  after the options are those of the environment that everything below takes.
\<close>

type_synonym registry_option = "reg_env \<Rightarrow> reg_env"

definition WithPluginDir :: "string \<Rightarrow> registry_option" where
  "WithPluginDir dir env = env\<lparr>env_pluginDir := dir\<rparr>"

definition WithKubeletSocket :: "string \<Rightarrow> registry_option" where
  "WithKubeletSocket path env = env\<lparr>env_kubeletSocket := path\<rparr>"

definition NewRegistry_with :: "registry_option list \<Rightarrow> reg_env \<Rightarrow> reg_error + reg_env \<times> registry" where
  "NewRegistry_with opts env =
     (let env' = fold (\<lambda>opt. opt) opts env
      in case NewRegistry env' of Inl err \<Rightarrow> Inl err | Inr r \<Rightarrow> Inr (env', r))"

definition socketPath :: "reg_env \<Rightarrow> string \<Rightarrow> string" where
  "socketPath env name = env_BaseName env name @ ''.sock''"

definition newPlugin :: "reg_env \<Rightarrow> resource \<Rightarrow> registry \<Rightarrow> registry \<times> (reg_error + plugin)" where
  "newPlugin env res r =
     (let path = env_pluginDir env @ socketPath env (res_Name res)
      in if env_remove_fails env path then (r, Inl (RemoveFailed path))
         else let r' = r\<lparr>reg_sockets := (reg_sockets r)(path := None)\<rparr>
              in if env_listen_fails env path then (r', Inl (ListenFailed path))
                 else (r'\<lparr>reg_sockets := (reg_sockets r')(path \<mapsto> reg_next r),
                          reg_running := insert (reg_next r) (reg_running r'),
                          reg_paths := (reg_paths r')(reg_next r \<mapsto> path),
                          reg_next := Suc (reg_next r)\<rparr>,
                       Inr \<lparr>plug_resource = res, plug_path = path, plug_server = reg_next r\<rparr>))"

text \<open>\<open>stop\<close> waits until the server is down; closing its listener unlinks the socket path.\<close>

definition plugin_stop :: "plugin \<Rightarrow> registry \<Rightarrow> registry" where
  "plugin_stop p r = r\<lparr>reg_running := reg_running r - {plug_server p},
     reg_sockets := (if plug_server p \<in> reg_running r then (reg_sockets r)(plug_path p := None)
                     else reg_sockets r)\<rparr>"

text \<open>
  The goroutine of a server when its context is done: the server stops, and closing its listener
  unlinks the path it was started at, whoever listens there by then.
\<close>

definition server_exit :: "nat \<Rightarrow> registry \<Rightarrow> registry" where
  "server_exit n r = r\<lparr>reg_running := reg_running r - {n},
     reg_sockets := (case reg_paths r n of None \<Rightarrow> reg_sockets r | Some path \<Rightarrow> (reg_sockets r)(path := None))\<rparr>"

text \<open>\<open>probe\<close> dials the socket path; whichever running server listens there answers.\<close>

definition plugin_probe :: "plugin \<Rightarrow> registry \<Rightarrow> bool" where
  "plugin_probe p r = (case reg_sockets r (plug_path p) of None \<Rightarrow> False | Some n \<Rightarrow> n \<in> reg_running r)"

section \<open>The registry\<close>

definition register :: "reg_env \<Rightarrow> plugin \<Rightarrow> registry \<Rightarrow> registry \<times> reg_error option" where
  "register env p r =
     (let name = res_Name (plug_resource p)
      in if env_register_fails env name then (r, Some (RegisterFailed name))
         else (r\<lparr>reg_kubelet := reg_kubelet r @ [(name, socketPath env name)]\<rparr>, None))"

definition registry_Add :: "reg_env \<Rightarrow> resource \<Rightarrow> registry \<Rightarrow> registry \<times> reg_error option" where
  "registry_Add env res r =
     (case newPlugin env res r of
        (r1, Inl err) \<Rightarrow> (r1, Some err)
      | (r1, Inr p) \<Rightarrow>
          (case reg_plugins r1 (res_Name res) of
             Some _ \<Rightarrow> (r1, Some (AlreadyExists (res_Name res)))
           | None \<Rightarrow> register env p (r1\<lparr>reg_plugins := (reg_plugins r1)(res_Name res \<mapsto> p)\<rparr>)))"

text \<open>One round of \<open>hup\<close>, for the plugin stored under a key, and the loop in some order.\<close>

definition hup_one :: "reg_env \<Rightarrow> string \<Rightarrow> registry \<Rightarrow> registry" where
  "hup_one env key r =
     (case reg_plugins r key of
        None \<Rightarrow> r
      | Some old \<Rightarrow>
          (case newPlugin env (plug_resource old) (plugin_stop old r) of
             (r1, Inl err) \<Rightarrow> r1
           | (r1, Inr p) \<Rightarrow> fst (register env p (r1\<lparr>reg_plugins := (reg_plugins r1)(key \<mapsto> p)\<rparr>))))"

fun hup :: "reg_env \<Rightarrow> string list \<Rightarrow> registry \<Rightarrow> registry" where
  "hup env [] r = r"
| "hup env (key # keys) r = hup env keys (hup_one env key r)"

text \<open>The status of \<open>Healthz\<close> and the names in its body.\<close>

fun probe_all :: "string list \<Rightarrow> registry \<Rightarrow> string list" where
  "probe_all [] r = []"
| "probe_all (key # keys) r =
     (case reg_plugins r key of
        None \<Rightarrow> probe_all keys r
      | Some p \<Rightarrow> if plugin_probe p r then probe_all keys r
                  else res_Name (plug_resource p) # probe_all keys r)"

definition Healthz :: "string list \<Rightarrow> registry \<Rightarrow> nat \<times> string list" where
  "Healthz keys r = (let unhealthy = probe_all keys r in (if unhealthy = [] then 200 else 500, unhealthy))"

text \<open>
  The goroutine of \<open>NewRegistry\<close>: a create event for the kubelet socket restarts the plugins, in the
  order given, until the context is done.
\<close>

definition watch_event :: "reg_env \<Rightarrow> bool \<Rightarrow> string \<Rightarrow> string list \<Rightarrow> registry \<Rightarrow> registry" where
  "watch_event env create name keys r =
     (if create \<and> name = env_kubeletSocket env then hup env keys r else r)"

text \<open>With the option for the kubelet socket it is this path whose creation restarts the plugins.\<close>

lemma kubelet_socket_watched:
  assumes "NewRegistry_with [WithPluginDir dir, WithKubeletSocket path] env = Inr (env', r)"
  shows "\<not> env_watch_fails env (path_Dir path)" and "watch_event env' True path keys r = hup env' keys r"
    and "name \<noteq> path \<Longrightarrow> watch_event env' True name keys r = r" and "env_pluginDir env' = dir"
  using assms by (auto simp: NewRegistry_with_def NewRegistry_def WithPluginDir_def WithKubeletSocket_def watch_event_def
      Let_def split: if_splits)

datatype watch_input = FileEvent bool string "string list" | ContextDone

fun watch_loop :: "reg_env \<Rightarrow> watch_input list \<Rightarrow> registry \<Rightarrow> registry" where
  "watch_loop env [] r = r"
| "watch_loop env (FileEvent create name keys # is) r = watch_loop env is (watch_event env create name keys r)"
| "watch_loop env (ContextDone # is) r = r"

section \<open>What the scatters rely on\<close>

text \<open>
  Adding a resource: a name is taken at most once, an accepted resource takes its name, and names
  stay taken.
\<close>

locale resource_registry =
  fixes add :: "resource \<Rightarrow> 'r \<Rightarrow> 'r \<times> bool"
    and taken :: "'r \<Rightarrow> string set"
  assumes add_taken: "res_Name res \<in> taken r \<Longrightarrow> \<not> snd (add res r)"
    and add_accepted: "snd (add res r) \<Longrightarrow> res_Name res \<in> taken (fst (add res r))"
    and taken_mono: "taken r \<subseteq> taken (fst (add res r))"
begin

fun accepted_names :: "resource list \<Rightarrow> 'r \<Rightarrow> string list" where
  "accepted_names [] r = []"
| "accepted_names (res # ress) r =
     (let (r', ok) = add res r in (if ok then [res_Name res] else []) @ accepted_names ress r')"

lemma accepted_names_fresh: "set (accepted_names ress r) \<inter> taken r = {}"
proof (induction ress arbitrary: r)
  case (Cons res ress)
  obtain r' ok where add: "add res r = (r', ok)" by (cases "add res r")
  with Cons.IH [of r'] taken_mono [of r res] add_taken [of res r] show ?case by auto
qed simp

lemma accepted_names_distinct: "distinct (accepted_names ress r)"
proof (induction ress arbitrary: r)
  case (Cons res ress)
  obtain r' ok where add: "add res r = (r', ok)" by (cases "add res r")
  with Cons.IH [of r'] accepted_names_fresh [of ress r'] add_accepted [of res r] show ?case by auto
qed simp

end

definition registry_add :: "reg_env \<Rightarrow> registry registry_add" where
  "registry_add env res r = (let out = registry_Add env res r in (fst out, snd out = None))"

abbreviation plugin_path :: "reg_env \<Rightarrow> resource \<Rightarrow> string" where
  "plugin_path env res \<equiv> env_pluginDir env @ socketPath env (res_Name res)"

text \<open>A new plugin fails and changes at most the socket file, or it has a new running server.\<close>

definition started :: "reg_env \<Rightarrow> resource \<Rightarrow> registry \<Rightarrow> registry" where
  "started env res r = r\<lparr>reg_sockets := (reg_sockets r)(plugin_path env res \<mapsto> reg_next r),
     reg_running := insert (reg_next r) (reg_running r),
     reg_paths := (reg_paths r)(reg_next r \<mapsto> plugin_path env res), reg_next := Suc (reg_next r)\<rparr>"

definition new_handle :: "reg_env \<Rightarrow> resource \<Rightarrow> registry \<Rightarrow> plugin" where
  "new_handle env res r =
     \<lparr>plug_resource = res, plug_path = plugin_path env res, plug_server = reg_next r\<rparr>"

lemma newPlugin_cases:
  obtains (failed) r' e where "newPlugin env res r = (r', Inl e)" and "reg_plugins r' = reg_plugins r"
  | (started) "newPlugin env res r = (started env res r, Inr (new_handle env res r))"
proof -
  consider "env_remove_fails env (plugin_path env res)"
    | "\<not> env_remove_fails env (plugin_path env res)" "env_listen_fails env (plugin_path env res)"
    | "\<not> env_remove_fails env (plugin_path env res)" "\<not> env_listen_fails env (plugin_path env res)"
    by blast
  then show thesis
  proof cases
    case 1
    show thesis
      by (rule failed [of r "RemoveFailed (plugin_path env res)"]) (simp_all add: newPlugin_def Let_def 1)
  next
    case 2
    show thesis
      by (rule failed [of "r\<lparr>reg_sockets := (reg_sockets r)(plugin_path env res := None)\<rparr>"
          "ListenFailed (plugin_path env res)"]) (simp_all add: newPlugin_def Let_def 2)
  next
    case 3
    show thesis by (rule started) (simp add: newPlugin_def Let_def 3 started_def new_handle_def)
  qed
qed

lemma newPlugin_started:
  "\<not> env_remove_fails env (plugin_path env res) \<Longrightarrow> \<not> env_listen_fails env (plugin_path env res) \<Longrightarrow>
   newPlugin env res r = (started env res r, Inr (new_handle env res r))"
  by (simp add: newPlugin_def Let_def started_def new_handle_def)

lemma register_plugins [simp]: "reg_plugins (fst (register env p r)) = reg_plugins r"
  by (simp add: register_def Let_def)

lemma started_plugins [simp]: "reg_plugins (started env res r) = reg_plugins r"
  by (simp add: started_def)

lemma registry_Add_cases:
  obtains (refused) r' e where "registry_Add env res r = (r', Some e)" and "reg_plugins r' = reg_plugins r"
  | (stored) "reg_plugins r (res_Name res) = None" and
      "registry_Add env res r = register env (new_handle env res r)
         ((started env res r)\<lparr>reg_plugins := (reg_plugins r)(res_Name res \<mapsto> new_handle env res r)\<rparr>)"
proof (cases rule: newPlugin_cases [of env res r])
  case (failed r' e)
  show thesis by (rule refused [of r' e]) (simp_all add: registry_Add_def failed)
next
  case started
  show thesis
  proof (cases "reg_plugins r (res_Name res)")
    case None
    show thesis by (rule stored [OF None]) (simp add: registry_Add_def started None)
  next
    case (Some p)
    show thesis
      by (rule refused [of "started env res r" "AlreadyExists (res_Name res)"])
        (simp_all add: registry_Add_def started Some)
  qed
qed

interpretation registry: resource_registry "registry_add env" "\<lambda>r. dom (reg_plugins r)" for env
proof unfold_locales
  fix res :: resource and r
  show "\<not> snd (registry_add env res r)" if "res_Name res \<in> dom (reg_plugins r)"
    using that by (cases rule: registry_Add_cases [of env res r]) (auto simp: registry_add_def Let_def)
  show "res_Name res \<in> dom (reg_plugins (fst (registry_add env res r)))" if "snd (registry_add env res r)"
    using that by (cases rule: registry_Add_cases [of env res r]) (auto simp: registry_add_def Let_def)
  show "dom (reg_plugins r) \<subseteq> dom (reg_plugins (fst (registry_add env res r)))"
    by (cases rule: registry_Add_cases [of env res r]) (auto simp: registry_add_def Let_def)
qed

section \<open>The state of the registry\<close>

text \<open>Plugins are stored under their names, at their own socket paths, with servers started before.\<close>

definition registry_ok :: "reg_env \<Rightarrow> registry \<Rightarrow> bool" where
  "registry_ok env r \<longleftrightarrow> (\<forall>k p. reg_plugins r k = Some p \<longrightarrow>
     k = res_Name (plug_resource p) \<and> plug_path p = plugin_path env (plug_resource p) \<and>
     plug_server p < reg_next r)"

text \<open>The server of the plugin runs and the socket of the plugin is its own.\<close>

definition owned :: "plugin \<Rightarrow> registry \<Rightarrow> bool" where
  "owned p r \<longleftrightarrow> reg_sockets r (plug_path p) = Some (plug_server p) \<and> plug_server p \<in> reg_running r"

definition nothing_fails :: "reg_env \<Rightarrow> bool" where
  "nothing_fails env \<longleftrightarrow> (\<forall>x. \<not> env_remove_fails env x \<and> \<not> env_listen_fails env x \<and> \<not> env_register_fails env x)"

lemma owned_probe: "owned p r \<Longrightarrow> plugin_probe p r"
  by (simp add: owned_def plugin_probe_def)

lemma registry_ok_new: "registry_ok env empty_registry"
  by (simp add: registry_ok_def empty_registry_def)

lemma register_other [simp]:
  "reg_sockets (fst (register env p r)) = reg_sockets r" "reg_running (fst (register env p r)) = reg_running r"
  "reg_next (fst (register env p r)) = reg_next r"
  by (simp_all add: register_def Let_def)

lemma newPlugin_next: "reg_next (fst (newPlugin env res r)) = reg_next r \<or>
    reg_next (fst (newPlugin env res r)) = Suc (reg_next r)"
  by (simp add: newPlugin_def Let_def)

lemma newPlugin_failed_next: "newPlugin env res r = (r', Inl e) \<Longrightarrow> reg_next r' = reg_next r"
  by (auto simp: newPlugin_def Let_def split: if_splits)

lemma registry_ok_cong:
  "registry_ok env r \<Longrightarrow> reg_plugins r' = reg_plugins r \<Longrightarrow> reg_next r \<le> reg_next r' \<Longrightarrow> registry_ok env r'"
  unfolding registry_ok_def by (metis order_less_le_trans)

lemma registry_ok_store:
  assumes "registry_ok env r" and "reg_plugins r' = (reg_plugins r)(res_Name res \<mapsto> new_handle env res rs)"
    and "reg_next r \<le> reg_next rs" and "reg_next rs < reg_next r'"
  shows "registry_ok env r'"
  unfolding registry_ok_def
proof (intro allI impI)
  fix k p assume p: "reg_plugins r' k = Some p"
  show "k = res_Name (plug_resource p) \<and> plug_path p = plugin_path env (plug_resource p) \<and>
     plug_server p < reg_next r'"
  proof (cases "k = res_Name res")
    case True
    with p assms show ?thesis by (auto simp: new_handle_def)
  next
    case False
    with p assms(2) have "reg_plugins r k = Some p" by simp
    with assms(1,3,4) show ?thesis unfolding registry_ok_def by fastforce
  qed
qed

lemma registry_ok_Add: "registry_ok env r \<Longrightarrow> registry_ok env (fst (registry_Add env res r))"
proof -
  assume ok: "registry_ok env r"
  show ?thesis
  proof (cases rule: newPlugin_cases [of env res r])
    case (failed r' e)
    with ok newPlugin_failed_next [OF failed(1)] show ?thesis
      by (auto simp: registry_Add_def intro: registry_ok_cong)
  next
    case started
    show ?thesis
    proof (cases "reg_plugins r (res_Name res)")
      case None
      with started show ?thesis
        by (auto simp: registry_Add_def started_def intro!: registry_ok_store [OF ok, where rs = r])
    next
      case (Some p)
      with started show ?thesis
        by (auto simp: registry_Add_def started_def intro!: registry_ok_cong [OF ok])
    qed
  qed
qed

section \<open>A restart of the kubelet\<close>

text \<open>What one round of \<open>hup\<close> does to the plugin and to everything else.\<close>

lemma hup_one_effect:
  assumes "registry_ok env r" and "nothing_fails env" and "reg_plugins r k = Some old"
  defines "r' \<equiv> hup_one env k r" and "new \<equiv> new_handle env (plug_resource old) r"
  shows "reg_plugins r' = (reg_plugins r)(k \<mapsto> new)" and "reg_next r' = Suc (reg_next r)"
    and "owned new r'" and "registry_ok env r'"
    and "reg_kubelet r' = reg_kubelet r @ [(k, socketPath env k)]"
    and "\<And>p. owned p r \<Longrightarrow> plug_path p \<noteq> plug_path new \<Longrightarrow> plug_server p \<noteq> plug_server old \<Longrightarrow> owned p r'"
    and "\<And>n. n \<in> reg_running r \<Longrightarrow> n \<noteq> plug_server old \<Longrightarrow> n \<in> reg_running r'"
proof -
  have k: "k = res_Name (plug_resource old)" and path: "plug_path old = plugin_path env (plug_resource old)"
    using assms(1,3) by (auto simp: registry_ok_def)
  let ?s = "started env (plug_resource old) (plugin_stop old r)"
  have new: "new_handle env (plug_resource old) (plugin_stop old r) = new"
    by (simp add: new_def new_handle_def plugin_stop_def)
  have "newPlugin env (plug_resource old) (plugin_stop old r) = (?s, Inr new)"
    using assms(2) newPlugin_started [of env "plug_resource old" "plugin_stop old r"]
    by (simp add: nothing_fails_def new)
  then have r': "r' = fst (register env new (?s\<lparr>reg_plugins := (reg_plugins r)(k \<mapsto> new)\<rparr>))"
    using assms(3) by (simp add: r'_def hup_one_def plugin_stop_def)
  show plugins: "reg_plugins r' = (reg_plugins r)(k \<mapsto> new)" and next': "reg_next r' = Suc (reg_next r)"
    by (simp_all add: r' started_def plugin_stop_def)
  show "owned new r'"
    by (simp add: r' owned_def new_def new_handle_def started_def plugin_stop_def)
  show "registry_ok env r'"
    by (rule registry_ok_store [OF assms(1), where rs = r and res = "plug_resource old"])
      (simp_all add: plugins next' k new_def)
  show "reg_kubelet r' = reg_kubelet r @ [(k, socketPath env k)]"
    using assms(2) k by (simp add: r' register_def Let_def nothing_fails_def new_def new_handle_def
        started_def plugin_stop_def)
  show "owned p r'" if "owned p r" "plug_path p \<noteq> plug_path new" "plug_server p \<noteq> plug_server old" for p
    using that path by (simp add: r' owned_def new_def new_handle_def started_def plugin_stop_def)
  show "n \<in> reg_running r'" if "n \<in> reg_running r" "n \<noteq> plug_server old" for n
    using that by (simp add: r' started_def plugin_stop_def)
qed

text \<open>Names have different socket paths.\<close>

definition paths_differ :: "reg_env \<Rightarrow> string set \<Rightarrow> bool" where
  "paths_differ env names \<longleftrightarrow> inj_on (env_BaseName env) names"

lemma handle_path [simp]: "plug_path (new_handle env res r) = plugin_path env res"
  by (simp add: new_handle_def)

lemma hup_effect:
  assumes "nothing_fails env" and "paths_differ env (dom (reg_plugins r))"
  shows "registry_ok env r \<Longrightarrow> distinct keys \<Longrightarrow> set keys \<subseteq> dom (reg_plugins r) \<Longrightarrow>
    dom (reg_plugins (hup env keys r)) = dom (reg_plugins r) \<and>
    registry_ok env (hup env keys r) \<and>
    reg_kubelet (hup env keys r) = reg_kubelet r @ map (\<lambda>k. (k, socketPath env k)) keys \<and>
    (\<forall>k \<in> set keys. \<exists>p. reg_plugins (hup env keys r) k = Some p \<and> owned p (hup env keys r) \<and>
       reg_next r \<le> plug_server p \<and> map_option plug_resource (reg_plugins r k) = Some (plug_resource p)) \<and>
    (\<forall>k. k \<notin> set keys \<longrightarrow> reg_plugins (hup env keys r) k = reg_plugins r k) \<and>
    (\<forall>p. owned p r \<longrightarrow> (\<forall>k \<in> set keys. plug_path p \<noteq> env_pluginDir env @ socketPath env k) \<longrightarrow>
       (\<forall>k \<in> set keys. \<forall>old. reg_plugins r k = Some old \<longrightarrow> plug_server p \<noteq> plug_server old) \<longrightarrow>
       owned p (hup env keys r))"
  using assms(2)
proof (induction keys arbitrary: r)
  case Nil
  then show ?case by simp
next
  case (Cons k keys)
  obtain old where old: "reg_plugins r k = Some old" using Cons.prems(3) by auto
  let ?r = "hup_one env k r" and ?new = "new_handle env (plug_resource old) r"
  note one = hup_one_effect [OF Cons.prems(1) assms(1) old]
  have k: "k = res_Name (plug_resource old)" using Cons.prems(1) old by (auto simp: registry_ok_def)
  have dom: "dom (reg_plugins ?r) = dom (reg_plugins r)" using old one(1) by auto
  have IH: "dom (reg_plugins (hup env keys ?r)) = dom (reg_plugins ?r)"
    "registry_ok env (hup env keys ?r)"
    "reg_kubelet (hup env keys ?r) = reg_kubelet ?r @ map (\<lambda>k. (k, socketPath env k)) keys"
    "\<And>j. j \<in> set keys \<Longrightarrow> \<exists>p. reg_plugins (hup env keys ?r) j = Some p \<and> owned p (hup env keys ?r) \<and>
       reg_next ?r \<le> plug_server p \<and> map_option plug_resource (reg_plugins ?r j) = Some (plug_resource p)"
    "\<And>j. j \<notin> set keys \<Longrightarrow> reg_plugins (hup env keys ?r) j = reg_plugins ?r j"
    "\<And>p. owned p ?r \<Longrightarrow> (\<forall>j \<in> set keys. plug_path p \<noteq> env_pluginDir env @ socketPath env j) \<Longrightarrow>
       (\<forall>j \<in> set keys. \<forall>old. reg_plugins ?r j = Some old \<longrightarrow> plug_server p \<noteq> plug_server old) \<Longrightarrow>
       owned p (hup env keys ?r)"
    using Cons.IH [of ?r] one(4) Cons.prems(2-4) dom by auto
  have other: "reg_plugins ?r j = reg_plugins r j" if "j \<in> set keys" for j
    using that Cons.prems(2) one(1) by auto
  have differ: "socketPath env k \<noteq> socketPath env j" if "j \<in> set keys" for j
  proof
    assume "socketPath env k = socketPath env j"
    then have "env_BaseName env k = env_BaseName env j" by (simp add: socketPath_def)
    moreover have "k \<in> dom (reg_plugins r)" and "j \<in> dom (reg_plugins r)" using that Cons.prems(3) by auto
    ultimately have "k = j" using Cons.prems(4) unfolding paths_differ_def by (metis inj_onD)
    with that Cons.prems(2) show False by simp
  qed
  have older: "plug_server q < reg_next r" if "reg_plugins r j = Some q" for j q
    using that Cons.prems(1) by (auto simp: registry_ok_def)
  have new: "owned ?new (hup env keys ?r)"
  proof (rule IH(6) [OF one(3)])
    show "\<forall>j \<in> set keys. plug_path ?new \<noteq> env_pluginDir env @ socketPath env j"
      using differ k by simp
    show "\<forall>j \<in> set keys. \<forall>old. reg_plugins ?r j = Some old \<longrightarrow> plug_server ?new \<noteq> plug_server old"
      using other older by (fastforce simp: new_handle_def)
  qed
  have frame: "owned p (hup env keys ?r)" if "owned p r"
    "\<forall>j \<in> set (k # keys). plug_path p \<noteq> env_pluginDir env @ socketPath env j"
    "\<forall>j \<in> set (k # keys). \<forall>old. reg_plugins r j = Some old \<longrightarrow> plug_server p \<noteq> plug_server old" for p
  proof (rule IH(6))
    show "owned p ?r" using that old k by (intro one(6)) auto
  qed (use that other in auto)
  have "k \<notin> set keys" using Cons.prems(2) by simp
  show ?case
  proof (intro conjI ballI allI impI)
    fix j assume "j \<in> set (k # keys)"
    then consider "j = k" | "j \<in> set keys" by auto
    then show "\<exists>p. reg_plugins (hup env (k # keys) r) j = Some p \<and> owned p (hup env (k # keys) r) \<and>
       reg_next r \<le> plug_server p \<and> map_option plug_resource (reg_plugins r j) = Some (plug_resource p)"
    proof cases
      case 1
      with new IH(5) [OF \<open>k \<notin> set keys\<close>] one(1) old show ?thesis by (simp add: new_handle_def)
    next
      case 2
      with IH(4) [OF 2] one(2) other [OF 2] show ?thesis by auto
    qed
  next
    fix p assume "owned p r" and "\<forall>j \<in> set (k # keys). plug_path p \<noteq> env_pluginDir env @ socketPath env j"
      and "\<forall>j \<in> set (k # keys). \<forall>old. reg_plugins r j = Some old \<longrightarrow> plug_server p \<noteq> plug_server old"
    from frame [OF this] show "owned p (hup env (k # keys) r)" by simp
  qed (use IH(1-3,5) one(1,5) dom in auto)
qed

lemma probe_all_ok:
  "(\<And>k. k \<in> set keys \<Longrightarrow> \<exists>p. reg_plugins r k = Some p \<and> plugin_probe p r) \<Longrightarrow> probe_all keys r = []"
  by (induction keys) (force split: option.splits)+

lemma hup_keeps_running:
  assumes "nothing_fails env"
  shows "registry_ok env r \<Longrightarrow> distinct keys \<Longrightarrow> set keys \<subseteq> dom (reg_plugins r) \<Longrightarrow> n \<in> reg_running r \<Longrightarrow>
    n < reg_next r \<Longrightarrow> (\<And>k p. reg_plugins r k = Some p \<Longrightarrow> plug_server p \<noteq> n) \<Longrightarrow>
    n \<in> reg_running (hup env keys r)"
proof (induction keys arbitrary: r)
  case (Cons k keys)
  obtain old where old: "reg_plugins r k = Some old" using Cons.prems(3) by auto
  note one = hup_one_effect [OF Cons.prems(1) assms old]
  have "n \<in> reg_running (hup env keys (hup_one env k r))"
  proof (rule Cons.IH [OF one(4)])
    fix j p assume "reg_plugins (hup_one env k r) j = Some p"
    with one(1) Cons.prems(5,6) show "plug_server p \<noteq> n"
      by (auto simp: new_handle_def split: if_splits)
  qed (use Cons.prems one old in auto)
  then show ?case by simp
qed simp

section \<open>Properties\<close>

text \<open>An environment without failures, with sockets named after the resources.\<close>

definition demo_env :: reg_env where
  "demo_env = \<lparr>env_pluginDir = ''/p/'', env_kubeletSocket = ''/p/kubelet.sock'', env_BaseName = (\<lambda>n. n),
     env_watcher_fails = False, env_watch_fails = (\<lambda>_. False), env_remove_fails = (\<lambda>_. False),
     env_listen_fails = (\<lambda>_. False), env_register_fails = (\<lambda>_. False)\<rparr>"

definition demo_resource :: resource where
  "demo_resource = newResource \<lparr>Domain = ''d'', Prefix = ''a''\<rparr> Map.empty"

definition demo_registry :: registry where
  "demo_registry = fst (registry_Add demo_env demo_resource empty_registry)"

lemma demo_resource_name: "res_Name demo_resource = ''d/a''"
  by (simp add: demo_resource_def newResource_def res_Name_def)

lemma nothing_fails_demo: "nothing_fails demo_env"
  by (simp add: nothing_fails_def demo_env_def)

lemma registry_ok_demo: "registry_ok demo_env demo_registry"
  unfolding demo_registry_def by (rule registry_ok_Add [OF registry_ok_new])

lemma demo_plugins: "reg_plugins demo_registry = [''d/a'' \<mapsto> new_handle demo_env demo_resource empty_registry]"
proof (cases rule: registry_Add_cases [of demo_env demo_resource empty_registry])
  case (refused r' e)
  then show ?thesis
    by (simp add: registry_Add_def newPlugin_def Let_def demo_env_def empty_registry_def register_def)
next
  case stored
  then show ?thesis by (simp add: demo_registry_def demo_resource_name empty_registry_def)
qed

text \<open>
  C14: A restart of the kubelet. When no external call fails and names have socket paths of their own,
  \<open>hup\<close> leaves every plugin in the registry with its resource, a server started after the restart
  that owns the socket, and a registration of its name and endpoint, in the order of the loop; and
  \<open>Healthz\<close> reports 200 with no failing plugin.
\<close>
theorem registry_hup_recovers:
  assumes "registry_ok env r" and "nothing_fails env" and "paths_differ env (dom (reg_plugins r))"
    and "range_order (reg_plugins r) keys"
  shows "dom (reg_plugins (hup env keys r)) = dom (reg_plugins r) \<and>
    (\<forall>k \<in> dom (reg_plugins r). \<exists>p. reg_plugins (hup env keys r) k = Some p \<and> owned p (hup env keys r) \<and>
       reg_next r \<le> plug_server p \<and> map_option plug_resource (reg_plugins r k) = Some (plug_resource p)) \<and>
    reg_kubelet (hup env keys r) = reg_kubelet r @ map (\<lambda>k. (k, socketPath env k)) keys \<and>
    Healthz keys (hup env keys r) = (200, [])"
proof -
  have keys: "distinct keys" "set keys = dom (reg_plugins r)"
    using assms(4) by (simp_all add: range_order_def)
  note effect = hup_effect [OF assms(2,3,1) keys(1) equalityD1 [OF keys(2)]]
  then have each: "\<forall>k \<in> dom (reg_plugins r). \<exists>p. reg_plugins (hup env keys r) k = Some p \<and>
      owned p (hup env keys r) \<and> reg_next r \<le> plug_server p \<and>
      map_option plug_resource (reg_plugins r k) = Some (plug_resource p)"
    unfolding keys(2) by blast
  have "probe_all keys (hup env keys r) = []"
  proof (rule probe_all_ok)
    fix k assume "k \<in> set keys"
    with each keys(2) obtain p where "reg_plugins (hup env keys r) k = Some p" "owned p (hup env keys r)"
      by blast
    then show "\<exists>p. reg_plugins (hup env keys r) k = Some p \<and> plugin_probe p (hup env keys r)"
      using owned_probe by blast
  qed
  with effect each show ?thesis by (simp add: Healthz_def Let_def)
qed

lemma registry_hup_recovers_witness:
  "Healthz [''d/a''] (hup demo_env [''d/a''] demo_registry) = (200, []) \<and>
   reg_kubelet (hup demo_env [''d/a''] demo_registry) =
     reg_kubelet demo_registry @ [(''d/a'', socketPath demo_env ''d/a'')]"
proof -
  have "paths_differ demo_env (dom (reg_plugins demo_registry))"
    by (simp add: paths_differ_def demo_env_def)
  moreover have "range_order (reg_plugins demo_registry) [''d/a'']"
    by (simp add: demo_plugins range_simps)
  ultimately show ?thesis
    using registry_hup_recovers [OF registry_ok_demo nothing_fails_demo, of "[''d/a'']"] by simp
qed

text \<open>
  C35: A name that is added twice. \<open>Add\<close> of a name that is taken fails, as documented, but not without
  effect: it has already replaced the socket of the plugin by one of a new server. The server of
  the plugin in the registry can no longer be reached, the new server is in no plugin, and it keeps
  running even when a restart of the kubelet replaces every plugin.
\<close>
theorem registry_duplicate_steals_socket:
  assumes "registry_ok env r" and "nothing_fails env" and "reg_plugins r (res_Name res) = Some p"
    and "distinct keys" and "set keys \<subseteq> dom (reg_plugins r)"
  shows "let (r', err) = registry_Add env res r in
    err = Some (AlreadyExists (res_Name res)) \<and> reg_plugins r' = reg_plugins r \<and>
    \<not> owned p r' \<and> reg_sockets r' (plug_path p) = Some (reg_next r) \<and>
    reg_next r \<in> reg_running (hup env keys r')"
proof -
  have new: "newPlugin env res r = (started env res r, Inr (new_handle env res r))"
    using assms(2) by (intro newPlugin_started) (simp_all add: nothing_fails_def)
  have add: "registry_Add env res r = (started env res r, Some (AlreadyExists (res_Name res)))"
    by (simp add: registry_Add_def new assms(3))
  have path: "plug_path p = plugin_path env res" and older: "plug_server p < reg_next r"
    using assms(1,3) by (auto simp: registry_ok_def)
  have "reg_next r \<in> reg_running (hup env keys (started env res r))"
  proof (rule hup_keeps_running [OF assms(2) _ assms(4)])
    show "registry_ok env (started env res r)"
      by (rule registry_ok_cong [OF assms(1)]) (simp_all add: started_def)
    show "plug_server q \<noteq> reg_next r" if "reg_plugins (started env res r) k = Some q" for k q
      using that assms(1) unfolding registry_ok_def by (metis less_irrefl started_plugins)
  qed (use assms(5) in \<open>simp_all add: started_def\<close>)
  with add path older show ?thesis by (simp add: owned_def started_def)
qed

lemma registry_duplicate_steals_socket_witness:
  "snd (registry_Add demo_env demo_resource demo_registry) = Some (AlreadyExists ''d/a'') \<and>
   \<not> owned (new_handle demo_env demo_resource empty_registry)
       (fst (registry_Add demo_env demo_resource demo_registry))"
proof -
  have "reg_plugins demo_registry (res_Name demo_resource) = Some (new_handle demo_env demo_resource empty_registry)"
    by (simp add: demo_plugins demo_resource_name)
  from registry_duplicate_steals_socket [OF registry_ok_demo nothing_fails_demo this, of "[]"]
  show ?thesis by (simp add: Let_def case_prod_unfold demo_resource_name)
qed

text \<open>
  A failed registration keeps the name. When the kubelet refuses the registration, \<open>Add\<close> returns
  the error, but the plugin stays in the registry with its server running; every later \<open>Add\<close> of
  that name fails, even once the kubelet would accept it.
\<close>
lemma registry_failed_register_keeps_name:
  assumes "\<not> env_remove_fails env (plugin_path env res)" and "\<not> env_listen_fails env (plugin_path env res)"
    and "env_register_fails env (res_Name res)" and "reg_plugins r (res_Name res) = None"
  shows "let (r', err) = registry_Add env res r in
    err = Some (RegisterFailed (res_Name res)) \<and> reg_kubelet r' = reg_kubelet r \<and>
    (\<exists>p. reg_plugins r' (res_Name res) = Some p \<and> owned p r') \<and>
    \<not> snd (registry_add env' res r')"
proof -
  let ?r = "(started env res r)\<lparr>reg_plugins := (reg_plugins r)(res_Name res \<mapsto> new_handle env res r)\<rparr>"
  have add: "registry_Add env res r = (?r, Some (RegisterFailed (res_Name res)))"
    using newPlugin_started [OF assms(1,2), of r] assms(3,4)
    by (simp add: registry_Add_def register_def Let_def new_handle_def)
  have "owned (new_handle env res r) ?r" by (simp add: owned_def new_handle_def started_def)
  moreover have "\<not> snd (registry_add env' res ?r)" by (rule registry.add_taken) simp
  ultimately show ?thesis by (simp add: add started_def)
qed

lemma registry_failed_register_keeps_name_witness:
  "snd (registry_Add (demo_env\<lparr>env_register_fails := (\<lambda>_. True)\<rparr>) demo_resource empty_registry) =
     Some (RegisterFailed ''d/a'') \<and>
   \<not> snd (registry_add demo_env demo_resource
       (fst (registry_Add (demo_env\<lparr>env_register_fails := (\<lambda>_. True)\<rparr>) demo_resource empty_registry)))"
  using registry_failed_register_keeps_name [of "demo_env\<lparr>env_register_fails := (\<lambda>_. True)\<rparr>"
      demo_resource empty_registry demo_env]
  by (simp add: demo_env_def empty_registry_def demo_resource_name Let_def case_prod_unfold)

end
