(* ===== verification/Plugin_Presence.thy ===== *)
theory Plugin_Presence
  imports Plugin_Scatter
begin

text \<open>
  What a scatter makes of the machine: each device claims the slots it is mapped to, and when no two
  devices claim one slot, the resources hold the instances of the devices with the health that their
  presence in the discovery gives. Any templater and mapper will do that do not panic for the devices.
\<close>

section \<open>Presence\<close>

definition mentioned :: "event list \<Rightarrow> device set" where
  "mentioned evs = set (concat (map event_devices evs))"

text \<open>The slots a device claims: resource and instance id.\<close>

definition claims :: "templater \<Rightarrow> mapper \<Rightarrow> device \<Rightarrow> (resource_template \<times> string) set" where
  "claims tm mp d = (case route tm mp d of None \<Rightarrow> {} | Some (t, is) \<Rightarrow> {t} \<times> inst_Id ` set is)"

text \<open>A device keeps its slots while it is known, and no two devices share one.\<close>

definition claims_ok :: "templater \<Rightarrow> mapper \<Rightarrow> event list \<Rightarrow> bool" where
  "claims_ok tm mp evs \<longleftrightarrow> (\<forall>d \<in> mentioned evs. \<forall>d' \<in> mentioned evs.
     if dev_Id d = dev_Id d' then claims tm mp d = claims tm mp d' else claims tm mp d \<inter> claims tm mp d' = {})"

lemma claims_ok_mono: "claims_ok tm mp evs' \<Longrightarrow> mentioned evs \<subseteq> mentioned evs' \<Longrightarrow> claims_ok tm mp evs"
  unfolding claims_ok_def by blast

lemma spec_mark_other:
  "(t, k) \<notin> claims tm mp d \<Longrightarrow> spec_mark (route tm mp d) h M t k = M t k"
proof (cases "route tm mp d")
  case (Some ti)
  assume "(t, k) \<notin> claims tm mp d"
  with Some show ?thesis
    by (cases ti) (auto simp: claims_def spec_mark_def intro: store_all_other)
qed (simp add: spec_mark_def)

definition presence :: "device_map \<Rightarrow> device \<Rightarrow> health" where
  "presence m d = (if m (dev_Id d) = None then Unhealthy else Healthy)"

text \<open>
  The slot of a mentioned device holds an instance of a value of it, of the present one if there is one.
\<close>

definition slot_holds :: "templater \<Rightarrow> mapper \<Rightarrow> event list \<Rightarrow> device \<Rightarrow> resource_template \<Rightarrow> string \<Rightarrow> inst \<Rightarrow> bool" where
  "slot_holds tm mp evs d t k i \<longleftrightarrow> (\<exists>d' is. d' \<in> mentioned evs \<and> dev_Id d' = dev_Id d \<and>
     route tm mp d' = Some (t, is) \<and> i \<in> set is \<and> inst_Id i = k \<and>
     replay evs Map.empty (dev_Id d) \<in> {None, Some d'})"

lemma spec_mark_claimed:
  assumes "(t, k) \<in> claims tm mp d"
  obtains i "is" where "spec_mark (route tm mp d) h M t k = Some (i, h)" and "route tm mp d = Some (t, is)"
    and "i \<in> set is" and "inst_Id i = k"
proof -
  from assms obtain "is" where route: "route tm mp d = Some (t, is)" and k: "k \<in> inst_Id ` set is"
    by (auto simp: claims_def split: option.splits)
  from store_all_in [OF k, of "\<lambda>i. (i, h)" "M t"] obtain i where
    "i \<in> set is" "inst_Id i = k" "store_all inst_Id (\<lambda>i. (i, h)) is (M t) k = Some (i, h)" by auto
  with route show thesis by (intro that) (simp_all add: spec_mark_def)
qed

lemma spec_presence_single:
  assumes "\<And>e. e \<in> set evs \<Longrightarrow> single_event e" and "claims_ok tm mp evs"
    and "d \<in> mentioned evs" and "(t, k) \<in> claims tm mp d"
  shows "\<exists>i. fold (spec_event tm mp) evs (\<lambda>t k. None) t k = Some (i, presence (replay evs Map.empty) d) \<and>
    slot_holds tm mp evs d t k i"
  using assms
proof (induction evs arbitrary: d rule: rev_induct)
  case Nil
  then show ?case by (simp add: mentioned_def)
next
  case (snoc e evs)
  let ?M = "fold (spec_event tm mp) evs (\<lambda>t k. None)"
  have "single_event e" using snoc.prems(1) by simp
  then obtain d0 h where e: "event_devices e = [d0]"
    "\<And>M. spec_event tm mp e M = spec_mark (route tm mp d0) h M"
    "\<And>m d. dev_Id d \<noteq> dev_Id d0 \<Longrightarrow> apply_event e m (dev_Id d) = m (dev_Id d)"
    "\<And>m d. dev_Id d = dev_Id d0 \<Longrightarrow> presence (apply_event e m) d = h"
    "\<And>m. apply_event e m (dev_Id d0) \<in> {None, Some d0}"
    by (cases rule: single_eventE) (auto simp: presence_def)
  have d0: "d0 \<in> mentioned (evs @ [e])" using e(1) by (simp add: mentioned_def)
  show ?case
  proof (cases "dev_Id d = dev_Id d0")
    case True
    with snoc.prems(2-4) d0 have "(t, k) \<in> claims tm mp d0"
      unfolding claims_ok_def by metis
    then obtain i "is" where "spec_mark (route tm mp d0) h ?M t k = Some (i, h)"
      "route tm mp d0 = Some (t, is)" "i \<in> set is" "inst_Id i = k" by (rule spec_mark_claimed)
    with True d0 e(5) show ?thesis
      by (intro exI [of _ i]) (auto simp: e(2,4) slot_holds_def intro!: exI [of _ d0])
  next
    case False
    with snoc.prems(2-4) d0 have "(t, k) \<notin> claims tm mp d0"
      unfolding claims_ok_def by (metis disjoint_iff)
    moreover have "d \<in> mentioned evs" using snoc.prems(3) False e(1) by (auto simp: mentioned_def)
    moreover have "claims_ok tm mp evs"
      using snoc.prems(2) by (rule claims_ok_mono) (auto simp: mentioned_def)
    moreover have "slot_holds tm mp (evs @ [e]) d t k i" if "slot_holds tm mp evs d t k i" for i
      using that e(3) [OF False] by (auto simp: slot_holds_def mentioned_def)
    ultimately show ?thesis
      using snoc.IH [of d] snoc.prems(1,4) e(3) [OF False] by (auto simp: e(2) presence_def spec_mark_other)
  qed
qed

lemma mentioned_single: "mentioned (concat (map single_events evs)) = mentioned evs"
proof (induction evs)
  case (Cons e evs)
  have "set (concat (map event_devices (single_events e))) = set (event_devices e)"
    by (cases e) (simp_all add: comp_def)
  with Cons show ?case by (simp add: mentioned_def)
qed (simp add: mentioned_def)

lemma spec_presence:
  assumes "claims_ok tm mp evs" and "d \<in> mentioned evs" and "(t, k) \<in> claims tm mp d"
  shows "\<exists>i. fold (spec_event tm mp) evs (\<lambda>t k. None) t k = Some (i, presence (replay evs Map.empty) d) \<and>
    slot_holds tm mp evs d t k i"
proof -
  let ?es = "concat (map single_events evs)"
  have "claims_ok tm mp ?es" by (rule claims_ok_mono [OF assms(1)]) (simp add: mentioned_single)
  moreover have "d \<in> mentioned ?es" using assms(2) by (simp only: mentioned_single)
  moreover have "slot_holds tm mp ?es = slot_holds tm mp evs"
    by (simp add: slot_holds_def mentioned_single replay_single fun_eq_iff)
  ultimately show ?thesis
    using spec_presence_single [OF singles, where evs = ?es and tm = tm and mp = mp and d = d] assms(3)
    by (simp add: fold_spec_single replay_single)
qed

section \<open>Mappings of the devices that occur\<close>

text \<open>A run depends on the mapping of the devices it mentions only.\<close>

lemma scatter_added_cong:
  "tm d = tm' d \<Longrightarrow> mp d = mp' d \<Longrightarrow> scatter_added tm mp add (Some d) = scatter_added tm' mp' add (Some d)"
  "tm d = tm' d \<Longrightarrow> mp d = mp' d \<Longrightarrow> scatter_removed tm mp (Some d) = scatter_removed tm' mp' (Some d)"
  by (simp_all add: fun_eq_iff scatter_added_def scatter_removed_def)

lemma scatter_init_cong:
  "(\<And>d. d \<in> set ds \<Longrightarrow> tm d = tm' d \<and> mp d = mp' d) \<Longrightarrow> scatter_init tm mp add ds s = scatter_init tm' mp' add ds s"
proof (induction ds arbitrary: s)
  case (Cons d ds)
  then have "scatter_added tm mp add (Some d) = scatter_added tm' mp' add (Some d)"
    by (intro scatter_added_cong) simp_all
  moreover have "scatter_init tm mp add ds = scatter_init tm' mp' add ds" using Cons by (simp add: fun_eq_iff)
  ultimately show ?case by simp
qed simp

lemma scatter_run_cong:
  "(\<And>d. d \<in> mentioned evs \<Longrightarrow> tm d = tm' d \<and> mp d = mp' d) \<Longrightarrow>
   scatter_run tm mp add evs s = scatter_run tm' mp' add evs s"
proof (induction evs arbitrary: s)
  case (Cons e evs)
  have same: "tm d = tm' d \<and> mp d = mp' d" if "d \<in> set (event_devices e)" for d
    using that by (intro Cons.prems) (simp add: mentioned_def)
  have "scatter_event tm mp add e s = scatter_event tm' mp' add e s"
  proof (cases e)
    case (Init ds)
    with same scatter_init_cong [of ds tm tm' mp mp'] show ?thesis by simp
  next
    case (Added d)
    with same [of d] show ?thesis by (simp add: scatter_added_cong(1) [of tm d tm' mp mp'])
  next
    case (Removed d)
    with same [of d] show ?thesis by (simp add: scatter_added_cong(2) [of tm d tm' mp mp'])
  qed
  moreover have "scatter_run tm mp add evs = scatter_run tm' mp' add evs"
    using Cons.IH Cons.prems by (simp add: fun_eq_iff mentioned_def)
  ultimately show ?case by simp
qed simp

section \<open>The slots of a scatter on a discovery\<close>

lemma route_Some: "route tm mp d = Some (t, is) \<longleftrightarrow> tm d = Return (Inr (Some t)) \<and> mp d = Return (Inr is)"
  by (auto simp: route_def split: outcome.splits sum.splits option.splits)

lemma scatter_run_calm:
  "scatter_run tm mp add evs s = Return s' \<Longrightarrow> d \<in> mentioned evs \<Longrightarrow> calm tm mp d"
  by (induction evs arbitrary: s) (auto simp: mentioned_def elim!: bind_outcome_ReturnE intro: scatter_event_calm)

text \<open>
  What a scatter keeps for a device once it has handled all events of the discovery: in each slot an
  instance of a value of that device, of the one the discovery holds now if it holds one, with the
  health that its presence gives.
\<close>

lemma scatter_slot:
  assumes disc: "removals_ok discovery" "disc_mux discovery s = Some evs"
    and claims: "claims_ok tm mp evs" and add: "\<And>res r. snd (add res r)"
    and calm: "\<forall>d \<in> mentioned evs. \<not> panics (tm d) \<and> \<not> panics (mp d)"
    and plain: "\<forall>d is. mp d = Return (Inr is) \<longrightarrow> (\<forall>i \<in> set is. plain_inst i)"
    and d: "d \<in> mentioned evs" and maps: "tm d = Return (Inr (Some t))" "mp d = Return (Inr is)" and i: "i \<in> set is"
  shows "\<exists>sc res j i' d' is'. scatter_run tm mp add evs (new_scatter r) = Return sc \<and>
    routes sc t = Some res \<and> res_instances res (inst_Id i) = Some j \<and>
    decode j = (i', if disc_DeviceById (dev_Id d) discovery = None then Unhealthy else Healthy) \<and>
    inst_Id i' = inst_Id i \<and> mp d' = Return (Inr is') \<and> i' \<in> set is' \<and> dev_Id d' = dev_Id d \<and>
    disc_DeviceById (dev_Id d) discovery \<in> {None, Some d'}"
proof -
  define D where "D = mentioned evs"
  let ?tm = "\<lambda>d. if d \<in> D then tm d else Return (Inr None)" and ?mp = "\<lambda>d. if d \<in> D then mp d else Return (Inr [])"
  have same: "claims ?tm ?mp d = claims tm mp d" if "d \<in> D" for d using that by (simp add: claims_def route_def)
  have "well_behaved ?tm ?mp add" using calm plain add by (auto simp: well_behaved_def D_def)
  from scatter_run_refines [OF this removals_ok_log(1) [OF disc], of r] obtain sc where
    run: "scatter_run ?tm ?mp add evs (new_scatter r) = Return sc"
    and fleet: "fleet_of sc = fold (spec_event ?tm ?mp) evs (\<lambda>t k. None)" by blast
  have "claims_ok ?tm ?mp evs = claims_ok tm mp evs"
    unfolding claims_ok_def D_def [symmetric] by (intro ball_cong refl) (simp only: same)
  with claims have "claims_ok ?tm ?mp evs" by simp
  moreover have "(t, inst_Id i) \<in> claims ?tm ?mp d" using maps i d by (auto simp: claims_def route_def D_def)
  ultimately have "\<exists>i'. fleet_of sc t (inst_Id i) = Some (i', presence (replay evs Map.empty) d) \<and>
      slot_holds ?tm ?mp evs d t (inst_Id i) i'" unfolding fleet by (intro spec_presence d)
  then obtain i' where i': "fleet_of sc t (inst_Id i) = Some (i', presence (replay evs Map.empty) d)"
    and holds: "slot_holds ?tm ?mp evs d t (inst_Id i) i'" by blast
  from i' obtain res j where "routes sc t = Some res" "res_instances res (inst_Id i) = Some j"
    "decode j = (i', presence (replay evs Map.empty) d)"
    by (auto simp: fleet_of_def split: option.splits)
  moreover from holds obtain d' is' where "dev_Id d' = dev_Id d" "mp d' = Return (Inr is')" "i' \<in> set is'"
    "inst_Id i' = inst_Id i" "replay evs Map.empty (dev_Id d) \<in> {None, Some d'}"
    unfolding slot_holds_def route_Some by (auto split: if_splits)
  moreover have "scatter_run tm mp add evs (new_scatter r) = Return sc"
    unfolding run [symmetric] by (rule scatter_run_cong) (simp add: D_def)
  ultimately show ?thesis using removals_ok_log(2) [OF disc] by (auto simp: presence_def disc_DeviceById_def)
qed

lemma partition_slot:
  assumes disc: "removals_ok discovery" "disc_mux discovery s = Some evs"
    and claims: "claims_ok (partition_templater domain matcher) (partition_mapper domain matcher disable) evs"
    and add: "\<And>res r. snd (add res r)" and d: "d \<in> mentioned evs"
    and maps: "PartitionLabelMatcherTemplater domain matcher d = Return (Inr (Some t))"
      "PartitionLabelMatcherInstances domain matcher disable d = Return (Inr [p])"
  shows "\<exists>sc res j q. scatter_run (partition_templater domain matcher)
      (partition_mapper domain matcher disable) add evs (new_scatter r) = Return sc \<and>
    routes sc t = Some res \<and> res_instances res (partition_Id p) = Some j \<and>
    decode j = (PartitionInstance q,
      if disc_DeviceById (dev_Id d) discovery = None then Unhealthy else Healthy) \<and>
    partition_Id q = partition_Id p \<and> part_domain q = domain \<and> dev_Id (part_dev q) = dev_Id d \<and>
    disc_DeviceById (dev_Id d) discovery \<in> {None, Some (part_dev q)}"
proof -
  let ?tm = "partition_templater domain matcher" and ?mp = "partition_mapper domain matcher disable"
  have mp: "?mp d = Return (Inr [PartitionInstance p])" using maps(2) by (simp add: partition_mapper_def as_insts_def)
  have wb: "well_behaved ?tm ?mp add" by (rule partition_well_behaved) (rule add)
  then have calm: "\<forall>d \<in> mentioned evs. \<not> panics (?tm d) \<and> \<not> panics (?mp d)"
    and plain: "\<forall>d is. ?mp d = Return (Inr is) \<longrightarrow> (\<forall>i \<in> set is. plain_inst i)"
    by (simp_all add: well_behaved_def)
  from scatter_slot [where add = add and tm = ?tm and mp = ?mp and i = "PartitionInstance p" and r = r,
      OF disc claims add calm plain d maps(1) mp]
  obtain sc res j i' d' is' where sc: "scatter_run ?tm ?mp add evs (new_scatter r) = Return sc"
    "routes sc t = Some res" "res_instances res (partition_Id p) = Some j"
    and j: "decode j = (i', if disc_DeviceById (dev_Id d) discovery = None then Unhealthy else Healthy)"
      "inst_Id i' = partition_Id p"
    and d': "?mp d' = Return (Inr is')" "i' \<in> set is'" "dev_Id d' = dev_Id d"
      "disc_DeviceById (dev_Id d) discovery \<in> {None, Some d'}" by auto
  from d'(1,2) obtain q where "i' = PartitionInstance q" "part_domain q = domain" "part_dev q = d'"
    by (auto simp: partition_mapper_def as_insts_def partition_mappings split: option.splits prod.splits)
  with sc j d'(3,4) show ?thesis
    by (intro exI [of _ sc] exI [of _ res] exI [of _ j] exI [of _ q]) simp
qed

section \<open>Properties\<close>

text \<open>
  Partition resources follow the machine. Let a scatter for partitions handle all that its
  subscription to the discovery brought, when no two devices claim one resource slot. Then every
  partition that was ever announced and matches has its resource with its label as an instance,
  and that instance is healthy exactly if the device is there now.
\<close>
theorem partitions_follow_discovery:
  assumes "discovery_inputs_ok devs is" and "disc_mux (discovery_run devs is) s = Some evs"
    and "claims_ok (partition_templater domain matcher) (partition_mapper domain matcher disable) evs"
    and "\<And>res r. snd (add res r)"
    and "d \<in> mentioned evs"
    and "PartitionLabelMatcherTemplater domain matcher d = Return (Inr (Some t))"
    and "PartitionLabelMatcherInstances domain matcher disable d = Return (Inr [p])"
  shows "\<exists>sc res j. scatter_run (partition_templater domain matcher)
      (partition_mapper domain matcher disable) add evs (new_scatter r) = Return sc \<and>
    routes sc t = Some res \<and> res_instances res (partition_Id p) = Some j \<and>
    inst_Health w j =
      (if disc_DeviceById (dev_Id d) (discovery_run devs is) = None then Unhealthy else Healthy)"
  using partition_slot [OF discovery_run_removals_ok [OF assms(1)] assms(2,3) _ assms(5-7), of add r] assms(4)
    partition_present_health [of _ "PartitionInstance _" _ w] by (fastforce simp: partition_Health_def)

text \<open>A partition of a machine, its discovery and the events a subscriber gets when it goes away.\<close>

definition demo_part :: libudev_device where
  "demo_part = LibudevDevice \<lparr>Syspath = ''sda1'', lu_Subsystem = ''block'', Devtype = ''partition'',
     Devnode = ''/dev/sda1'', Devlinks = {}, PropertyValue = (\<lambda>_. []),
     lu_Properties = [''PARTNAME'' \<mapsto> ''ydb_disk1''],
     SysattrValue = (\<lambda>_. []), Sysattrs = {}, lu_Tags = {}\<rparr> None"

lemma demo_part_simps:
  "Syspath (lu_values demo_part) = ''sda1''"
  "partition_matches demo_matcher (Generic demo_part) = Some (''ydb_disk1'', [''ydb_disk1'', ''disk1''])"
  by (simp_all add: demo_part_def partition_matches_def udev_names demo_matcher_match)

lemma demo_part_removed:
  "discovery_inputs_ok [Some demo_part] [NewSub (7::nat) [''sda1''], DeviceEvent ''remove'' demo_part True]"
  "disc_mux (discovery_run [Some demo_part] [NewSub (7::nat) [''sda1''], DeviceEvent ''remove'' demo_part True]) 7 =
     Some [Init [Generic demo_part], Removed (Generic demo_part)]"
  "disc_DeviceById ''sda1'' (discovery_run [Some demo_part]
     [NewSub (7::nat) [''sda1''], DeviceEvent ''remove'' demo_part True]) = None"
  by (simp_all add: discovery_inputs_ok_def discovery_run_def monitor_start_def NewDiscovery_def range_order_def
      discovery_step_def demo_part_simps heard_before_def disc_DeviceById_def)

lemma partitions_follow_discovery_witness:
  "\<exists>sc res j. scatter_run (partition_templater ''d'' demo_matcher)
      (partition_mapper ''d'' demo_matcher False) (\<lambda>res n. (Suc n, True))
      [Init [Generic demo_part], Removed (Generic demo_part)] (new_scatter (0::nat)) = Return sc \<and>
    routes sc \<lparr>Domain = ''d'', Prefix = ''part-disk1''\<rparr> = Some res \<and>
    res_instances res ''disk1'' = Some j \<and> inst_Health (\<lambda>_. new_pool ''d'') j = Unhealthy"
proof -
  let ?evs = "[Init [Generic demo_part], Removed (Generic demo_part)]"
  let ?p = "\<lparr>part_domain = ''d'', part_label = ''disk1'', part_dev = Generic demo_part,
    part_disableTopologyHints = False\<rparr>"
  have t: "PartitionLabelMatcherTemplater ''d'' demo_matcher (Generic demo_part) =
      Return (Inr (Some \<lparr>Domain = ''d'', Prefix = ''part-disk1''\<rparr>))"
    and i: "PartitionLabelMatcherInstances ''d'' demo_matcher False (Generic demo_part) = Return (Inr [?p])"
    by (simp_all add: partition_mappings demo_part_simps)
  have claims: "claims_ok (partition_templater ''d'' demo_matcher) (partition_mapper ''d'' demo_matcher False) ?evs"
    by (simp add: claims_ok_def mentioned_def)
  have mentioned: "Generic demo_part \<in> mentioned ?evs" by (simp add: mentioned_def)
  from partitions_follow_discovery [OF demo_part_removed(1,2) claims _ mentioned t i, of "\<lambda>res n. (Suc n, True)" 0
    "\<lambda>_. new_pool ''d''"] demo_part_removed(3)
  show ?thesis by (simp add: partition_Id_def demo_part_simps)
qed

end
