(* ===== verification/Plugin_Batch.thy ===== *)
theory Plugin_Batch
  imports Plugin_Presence Udev_Slice
begin

text \<open>
  Batch resources, \<open>internal/plugin/batch_partition.go\<close>: the construction of the resource with its
  seats, and the goroutine \<open>runBatchPartitionScatter\<close> that keeps the pool and reports the health.
\<close>

section \<open>The batch\<close>

text \<open>The pool that all seats share, the resource, and the seats that every update names.\<close>

record batch =
  bt_pool :: pool
  bt_res :: resource
  bt_seats :: "inst list"

text \<open>The loop that makes the seats, with ids 0, 1 and so on; all refer to pool 0.\<close>

definition batch_seat :: "int \<Rightarrow> inst" where
  "batch_seat i = BatchSeat (show_int i) 0"

text \<open>
  \<open>NewBatchPartitionScatter\<close> up to the registration; a negative count panics in \<open>make\<close>. The
  registry is a parameter with its own state; when it refuses, there is no batch.
\<close>

definition NewBatchPartitionScatter ::
    "'r registry_add \<Rightarrow> string \<Rightarrow> string \<Rightarrow> int \<Rightarrow> 'r \<Rightarrow> ('r \<times> batch option) outcome" where
  "NewBatchPartitionScatter add domain name count r =
     bind_outcome (make_instances interface_size batch_seat count) (\<lambda>seats.
       let res = newResource \<lparr>Domain = domain, Prefix = ''batch-'' @ name\<rparr>
                   (store_all inst_Id (\<lambda>i. i) seats Map.empty);
           (r', ok) = add res r
       in Return (r', if ok then Some \<lparr>bt_pool = new_pool domain, bt_res = res, bt_seats = seats\<rparr>
                      else None))"

definition batch_submit :: "health \<Rightarrow> batch \<Rightarrow> batch" where
  "batch_submit h b = b\<lparr>bt_res := res_Submit (bt_seats b) h (bt_res b)\<rparr>"

fun batch_init :: "regexp \<Rightarrow> device list \<Rightarrow> batch \<Rightarrow> batch" where
  "batch_init matcher [] b = b"
| "batch_init matcher (d # ds) b =
     batch_init matcher ds (case matchBatchPartitionDevice (Some d) matcher of
        None \<Rightarrow> b
      | Some (i, label) \<Rightarrow> b\<lparr>bt_pool := pool_add d label (bt_pool b)\<rparr>)"

fun batch_event :: "regexp \<Rightarrow> event \<Rightarrow> batch \<Rightarrow> batch" where
  "batch_event matcher (Init ds) b =
     (let b' = batch_init matcher ds b
      in if \<not> pool_empty (bt_pool b') then batch_submit Healthy b' else b')"
| "batch_event matcher (Added d) b =
     (case matchBatchPartitionDevice (Some d) matcher of
        None \<Rightarrow> b
      | Some (i, label) \<Rightarrow>
          (let wasEmpty = pool_empty (bt_pool b);
               b' = b\<lparr>bt_pool := pool_add d label (bt_pool b)\<rparr>
           in if wasEmpty then batch_submit Healthy b' else b'))"
| "batch_event matcher (Removed d) b =
     (case matchBatchPartitionDevice (Some d) matcher of
        None \<Rightarrow> b
      | Some (i, label) \<Rightarrow>
          (let b' = b\<lparr>bt_pool := pool_remove i (bt_pool b)\<rparr>
           in if pool_empty (bt_pool b') then batch_submit Unhealthy b' else b'))"

fun runBatchPartitionScatter :: "regexp \<Rightarrow> event list \<Rightarrow> batch \<Rightarrow> batch" where
  "runBatchPartitionScatter matcher [] b = b"
| "runBatchPartitionScatter matcher (e # es) b =
     runBatchPartitionScatter matcher es (batch_event matcher e b)"

section \<open>The pool follows the events\<close>

definition batch_matches :: "regexp \<Rightarrow> device filter_func" where
  "batch_matches matcher d \<longleftrightarrow> matchBatchPartitionDevice (Some d) matcher \<noteq> None"

lemma match_Some_Id: "matchBatchPartitionDevice (Some d) matcher = Some (i, l) \<Longrightarrow> i = dev_Id d"
  by (auto simp: matchBatchPartitionDevice_def split: option.splits)

lemma batch_submit_pool [simp]: "bt_pool (batch_submit h b) = bt_pool b"
  by (simp add: batch_submit_def)

lemma batch_submit_seats [simp]: "bt_seats (batch_submit h b) = bt_seats b"
  by (simp add: batch_submit_def)

lemma batch_init_same [simp]:
  "bt_seats (batch_init matcher ds b) = bt_seats b" "bt_res (batch_init matcher ds b) = bt_res b"
  by (induction ds arbitrary: b) (simp_all split: option.split)

lemma batch_init_finite: "pool_finite (bt_pool b) \<Longrightarrow> pool_finite (bt_pool (batch_init matcher ds b))"
  by (induction ds arbitrary: b) (simp_all split: option.split)

lemma batch_init_parts:
  "pool_parts (bt_pool (batch_init matcher ds b)) =
     init_devices (batch_matches matcher) ds (pool_parts (bt_pool b))"
  by (induction ds arbitrary: b) (auto simp: batch_matches_def pool_add_def split: option.split)

lemma batch_event_seats [simp]: "bt_seats (batch_event matcher e b) = bt_seats b"
  by (cases e) (auto simp: Let_def split: option.split)

lemma batch_event_finite: "pool_finite (bt_pool b) \<Longrightarrow> pool_finite (bt_pool (batch_event matcher e b))"
  by (cases e) (auto simp: Let_def batch_init_finite split: option.split)

lemma batch_event_parts:
  "pool_parts (bt_pool (batch_event matcher e b)) =
     (case e of Removed d \<Rightarrow> if batch_matches matcher d then (pool_parts (bt_pool b))(dev_Id d := None)
        else pool_parts (bt_pool b)
      | _ \<Rightarrow> slice_view (batch_matches matcher) e (pool_parts (bt_pool b)))"
  by (cases e) (auto simp: Let_def batch_init_parts batch_matches_def pool_add_def pool_remove_def
    split: option.split dest: match_Some_Id)

lemma run_batch_append:
  "runBatchPartitionScatter m (xs @ ys) b = runBatchPartitionScatter m ys (runBatchPartitionScatter m xs b)"
  by (induction xs arbitrary: b) simp_all

lemma run_batch_parts:
  assumes "filter_stable (batch_matches matcher) evs" and "pool_parts (bt_pool b) = Map.empty"
  shows "pool_parts (bt_pool (runBatchPartitionScatter matcher evs b)) =
    slice_states (batch_matches matcher) evs"
  using assms(1)
proof (induction evs rule: rev_induct)
  case Nil
  then show ?case using assms(2) by (simp add: slice_states_def)
next
  case (snoc e evs)
  let ?f = "batch_matches matcher"
  have stable: "filter_stable ?f evs" using snoc.prems by (auto simp: filter_stable_def)
  have gone: "slice_states ?f evs (dev_Id d) = None" if "e = Removed d" "\<not> ?f d" for d
  proof (rule ccontr)
    assume "slice_states ?f evs (dev_Id d) \<noteq> None"
    then obtain d' where "replay evs Map.empty (dev_Id d) = Some d'" "?f d'"
      by (auto simp: slice_states_replay [OF stable] filter_map_Some_iff)
    moreover from replay_from_events [OF this(1)]
    have "d' \<in> set (concat (map event_devices (evs @ [e])))" "dev_Id d' = dev_Id d" by auto
    moreover have "d \<in> set (concat (map event_devices (evs @ [e])))" using that by simp
    ultimately show False using snoc.prems that(2) unfolding filter_stable_def by blast
  qed
  have "slice_states ?f (evs @ [e]) = slice_view ?f e (slice_states ?f evs)"
    by (simp add: slice_states_def)
  moreover have "pool_parts (bt_pool (runBatchPartitionScatter matcher (evs @ [e]) b)) =
      (case e of Removed d \<Rightarrow> if ?f d then (slice_states ?f evs)(dev_Id d := None) else slice_states ?f evs
       | _ \<Rightarrow> slice_view ?f e (slice_states ?f evs))"
    by (cases e) (simp_all add: run_batch_append batch_event_parts snoc.IH [OF stable]
        del: batch_event.simps)
  ultimately show ?case using gone by (cases e) (auto simp: fun_eq_iff)
qed

section \<open>The health of the seats\<close>

text \<open>
  Every seat is stored bare or overridden, and an unhealthy override only while the pool is empty.
\<close>

definition seats_ok :: "batch \<Rightarrow> bool" where
  "seats_ok b \<longleftrightarrow> pool_finite (bt_pool b) \<and> (\<forall>s \<in> set (bt_seats b). \<exists>k. s = BatchSeat k 0) \<and>
     (\<forall>s \<in> set (bt_seats b). \<exists>h. res_instances (bt_res b) (inst_Id s) \<in> {Some s, Some (HealthOverride s h)} \<and>
        (res_instances (bt_res b) (inst_Id s) = Some (HealthOverride s Unhealthy) \<longrightarrow> pool_empty (bt_pool b)))"

lemma submit_seat:
  assumes "s \<in> set seats" and "\<forall>s \<in> set seats. \<exists>k. s = BatchSeat k 0"
  shows "submit_instances seats h m (inst_Id s) = Some (HealthOverride s h)"
proof -
  have "inst_Id s \<in> inst_Id ` set seats" using assms(1) by simp
  from store_all_in [OF this, of "\<lambda>i. HealthOverride i h" m] obtain x where
    "x \<in> set seats" "inst_Id x = inst_Id s" "submit_instances seats h m (inst_Id s) = Some (HealthOverride x h)"
    by (auto simp: submit_instances_def)
  moreover from assms \<open>x \<in> set seats\<close> obtain k k' where "s = BatchSeat k 0" "x = BatchSeat k' 0" by blast
  ultimately show ?thesis by simp
qed

lemma seats_ok_submit:
  assumes "seats_ok b" and "h = Unhealthy \<Longrightarrow> pool_empty p" and "pool_finite p"
  shows "seats_ok (batch_submit h (b\<lparr>bt_pool := p\<rparr>))"
  using assms submit_seat [of _ "bt_seats b" h "res_instances (bt_res b)"]
  by (auto simp: seats_ok_def batch_submit_def res_Submit_def)

text \<open>A change of the pool that keeps it empty or leaves it non-empty needs no update.\<close>

lemma seats_ok_keep:
  "seats_ok b \<Longrightarrow> pool_finite p \<Longrightarrow> (pool_empty (bt_pool b) \<Longrightarrow> pool_empty p) \<Longrightarrow> seats_ok (b\<lparr>bt_pool := p\<rparr>)"
  by (auto simp: seats_ok_def)

lemma batch_init_state: "batch_init matcher ds b = b\<lparr>bt_pool := bt_pool (batch_init matcher ds b)\<rparr>"
  by (cases b; cases "batch_init matcher ds b")
    (metis batch.select_convs(2,3) batch.surjective batch.update_convs(1) batch_init_same old.unit.exhaust)

lemma seats_ok_event:
  assumes "seats_ok b"
  shows "seats_ok (batch_event matcher e b)"
proof (cases e)
  case (Init ds)
  let ?b = "batch_init matcher ds b"
  have fin: "pool_finite (bt_pool ?b)" using assms by (simp add: seats_ok_def batch_init_finite)
  show ?thesis
  proof (cases "pool_empty (bt_pool ?b)")
    case True
    have "seats_ok (b\<lparr>bt_pool := bt_pool ?b\<rparr>)" by (rule seats_ok_keep [OF assms fin]) (rule True)
    with Init True show ?thesis by (simp add: batch_init_state [symmetric])
  next
    case False
    have "seats_ok (batch_submit Healthy (b\<lparr>bt_pool := bt_pool ?b\<rparr>))"
      by (rule seats_ok_submit [OF assms _ fin]) simp
    with Init False show ?thesis by (simp add: batch_init_state [symmetric])
  qed
next
  case (Added d)
  have fin: "pool_finite (bt_pool b)" using assms by (simp add: seats_ok_def)
  with Added assms show ?thesis
    by (auto simp: Let_def split: option.split intro: seats_ok_submit seats_ok_keep)
next
  case (Removed d)
  have fin: "pool_finite (bt_pool b)" using assms by (simp add: seats_ok_def)
  have keep: "pool_empty (pool_remove i (bt_pool b))" if "pool_empty (bt_pool b)" for i
    using that fin by (simp add: pool_empty_iff) (simp add: pool_remove_def)
  from Removed assms fin keep show ?thesis
    by (auto simp: Let_def split: option.split intro: seats_ok_submit seats_ok_keep)
qed

lemma seats_ok_run: "seats_ok b \<Longrightarrow> seats_ok (runBatchPartitionScatter matcher evs b)"
  by (induction evs arbitrary: b) (simp_all add: seats_ok_event)

lemma seats_ok_health:
  assumes "seats_ok b" and "s \<in> set (bt_seats b)"
  shows "map_option (inst_Health (\<lambda>_. bt_pool b)) (res_instances (bt_res b) (inst_Id s)) =
    Some (pool_health (bt_pool b))"
proof -
  from assms obtain k h where s: "s = BatchSeat k 0"
    and stored: "res_instances (bt_res b) (inst_Id s) \<in> {Some s, Some (HealthOverride s h)}"
    and empty: "res_instances (bt_res b) (inst_Id s) = Some (HealthOverride s Unhealthy) \<longrightarrow> pool_empty (bt_pool b)"
    unfolding seats_ok_def by metis
  from stored empty s show ?thesis by (cases h) (auto simp: pool_health_eq)
qed

lemma seats_of_new:
  assumes "NewBatchPartitionScatter add domain name count r = Return (r', Some b)"
  shows "bt_seats b = map (\<lambda>k. BatchSeat (show_nat k) 0) [0..<nat count]" and "bt_pool b = new_pool domain"
    and "seats_ok b"
proof -
  have "0 \<le> count \<and> interface_size * count \<le> maxAlloc"
    using assms by (cases "count < 0 \<or> maxAlloc < interface_size * count")
      (simp_all add: NewBatchPartitionScatter_def make_instances_def)
  then have b: "b = \<lparr>bt_pool = new_pool domain, bt_res = newResource \<lparr>Domain = domain, Prefix = ''batch-'' @ name\<rparr>
      (store_all inst_Id (\<lambda>i. i) (map (\<lambda>k. batch_seat (int k)) [0..<nat count]) Map.empty),
      bt_seats = map (\<lambda>k. batch_seat (int k)) [0..<nat count]\<rparr>"
    using assms by (auto simp: NewBatchPartitionScatter_def make_instances_Return Let_def
      split: prod.splits if_splits)
  then show seats: "bt_seats b = map (\<lambda>k. BatchSeat (show_nat k) 0) [0..<nat count]"
    and "bt_pool b = new_pool domain"
    by (simp_all add: batch_seat_def)
  have "distinct (map inst_Id (bt_seats b))"
    unfolding seats by (simp add: comp_def distinct_map inj_on_def)
  then have "res_instances (bt_res b) (inst_Id s) = Some s" if "s \<in> set (bt_seats b)" for s
    using that store_all_distinct [of inst_Id "bt_seats b" s "\<lambda>i. i" Map.empty]
    unfolding b by (simp add: newResource_def)
  with seats b show "seats_ok b" by (auto simp: seats_ok_def)
qed

section \<open>A batch on a discovery\<close>

lemma run_batch_seats [simp]: "bt_seats (runBatchPartitionScatter matcher evs b) = bt_seats b"
  by (induction evs arbitrary: b) simp_all

text \<open>The pool has the label that the matcher gives to the device it holds, and keeps its domain.\<close>

definition batch_label :: "regexp \<Rightarrow> device \<Rightarrow> string" where
  "batch_label matcher d = snd (the (matchBatchPartitionDevice (Some d) matcher))"

definition pool_labelled :: "regexp \<Rightarrow> pool \<Rightarrow> bool" where
  "pool_labelled matcher p \<longleftrightarrow> pool_labels p = map_option (batch_label matcher) \<circ> pool_parts p"

lemma pool_labelled_new: "pool_labelled matcher (new_pool domain)"
  by (simp add: pool_labelled_def new_pool_def fun_eq_iff)

lemma pool_labelled_add:
  "pool_labelled matcher p \<Longrightarrow> matchBatchPartitionDevice (Some d) matcher = Some (i, l) \<Longrightarrow>
   pool_labelled matcher (pool_add d l p)"
  by (simp add: pool_labelled_def pool_add_def batch_label_def fun_eq_iff)

lemma pool_labelled_remove: "pool_labelled matcher p \<Longrightarrow> pool_labelled matcher (pool_remove i p)"
  by (simp add: pool_labelled_def pool_remove_def fun_eq_iff)

lemma batch_init_labelled:
  "pool_labelled matcher (bt_pool b) \<Longrightarrow> pool_labelled matcher (bt_pool (batch_init matcher ds b))"
  by (induction ds arbitrary: b) (auto simp: pool_labelled_add split: option.split)

lemma batch_event_labelled:
  "pool_labelled matcher (bt_pool b) \<Longrightarrow> pool_labelled matcher (bt_pool (batch_event matcher e b))"
  by (cases e) (auto simp: Let_def batch_init_labelled intro: pool_labelled_add pool_labelled_remove split: option.split)

lemma batch_init_domain: "pool_domain (bt_pool (batch_init matcher ds b)) = pool_domain (bt_pool b)"
  by (induction ds arbitrary: b) (auto simp: pool_add_def split: option.split)

lemma batch_event_domain: "pool_domain (bt_pool (batch_event matcher e b)) = pool_domain (bt_pool b)"
  by (cases e) (auto simp: Let_def batch_init_domain pool_add_def pool_remove_def split: option.split)

lemma run_batch_pool:
  "pool_labelled matcher (bt_pool b) \<Longrightarrow> pool_labelled matcher (bt_pool (runBatchPartitionScatter matcher evs b))"
  "pool_domain (bt_pool (runBatchPartitionScatter matcher evs b)) = pool_domain (bt_pool b)"
  by (induction evs arbitrary: b) (simp_all add: batch_event_labelled batch_event_domain)

lemma pool_allocate_labelled:
  assumes "pool_labelled matcher p"
  shows "pool_allocate order p = mergeResponses (map (\<lambda>dev.
    Some (allocatePartitionDevice dev (pool_domain p) (batch_label matcher dev))) (range_values (pool_parts p) order))"
proof -
  have "pool_snapshot order p = map (\<lambda>dev. (dev, batch_label matcher dev)) (range_values (pool_parts p) order)"
    unfolding pool_snapshot_def range_values_def
    by (induction order) (use assms in \<open>auto simp: List.map_filter_def pool_labelled_def map_index_def split: option.splits\<close>)
  then show ?thesis by (simp add: pool_allocate_def comp_def)
qed

text \<open>
  A batch that handled all that a subscription to a discovery brought: its pool is the view of the
  discovery, and a seat is stored bare or overridden with the health of the pool.
\<close>

lemma batch_pool_present:
  assumes new: "NewBatchPartitionScatter add domain name count r = Return (r', Some b)"
    and disc: "removals_ok d" "disc_mux d s = Some evs" "\<not> disc_done d"
    and stable: "filter_stable (batch_matches matcher) evs"
  shows "pool_parts (bt_pool (runBatchPartitionScatter matcher evs b)) = disc_State (batch_matches matcher) d"
proof -
  have "pool_parts (bt_pool b) = Map.empty" using seats_of_new(2) [OF new] by (simp add: new_pool_def)
  with run_batch_parts [OF stable] slice_states_replay [OF stable] removals_ok_log(2) [OF disc(1,2)]
  show ?thesis by (simp add: disc_State_open [OF disc(3)])
qed

lemma batch_seat_stored:
  fixes matcher b defines "b' \<equiv> \<lambda>evs. runBatchPartitionScatter matcher evs b"
  assumes new: "NewBatchPartitionScatter add domain name count r = Return (r', Some b)" and k: "k < nat count"
  shows "\<exists>j. res_instances (bt_res (b' evs)) (show_nat k) = Some j \<and>
    inst_Health (\<lambda>_. bt_pool (b' evs)) j = (if pool_parts (bt_pool (b' evs)) = Map.empty then Unhealthy else Healthy) \<and>
    (\<forall>w order. inst_Allocate w order j = Inr (Some (pool_allocate (order 0) (w 0))))"
proof -
  let ?s = "BatchSeat (show_nat k) 0"
  have ok: "seats_ok (b' evs)" unfolding b'_def by (rule seats_ok_run [OF seats_of_new(3) [OF new]])
  have seat: "?s \<in> set (bt_seats (b' evs))" using k by (simp add: b'_def seats_of_new(1) [OF new])
  have "pool_empty (bt_pool (b' evs)) \<longleftrightarrow> pool_parts (bt_pool (b' evs)) = Map.empty"
    using ok by (simp add: seats_ok_def pool_empty_iff)
  with seats_ok_health [OF ok seat] obtain j where "res_instances (bt_res (b' evs)) (show_nat k) = Some j"
    "inst_Health (\<lambda>_. bt_pool (b' evs)) j = (if pool_parts (bt_pool (b' evs)) = Map.empty then Unhealthy else Healthy)"
    by (auto simp: pool_health_eq)
  moreover from this(1) ok seat have "\<exists>h. j \<in> {?s, HealthOverride ?s h}" unfolding seats_ok_def by fastforce
  ultimately show ?thesis by auto
qed

section \<open>Properties\<close>

text \<open>
  C8: A batch follows the machine. Let a batch that the registry accepted handle all that its
  subscription to the discovery brought, with a matcher that keeps its verdict on a device. Then
  the pool is exactly the set of matching partitions that the discovery reports, every one of the
  configured seats is offered, and each reports healthy exactly if there is such a partition.
\<close>
theorem batch_follows_discovery:
  assumes "NewBatchPartitionScatter add domain name count r = Return (r', Some b)"
    and "discovery_inputs_ok devs is" and "disc_mux (discovery_run devs is) s = Some evs"
    and "\<not> disc_done (discovery_run devs is)" and "filter_stable (batch_matches matcher) evs"
    and "k < nat count"
  shows "let b' = runBatchPartitionScatter matcher evs b;
      present = disc_State (batch_matches matcher) (discovery_run devs is)
    in pool_parts (bt_pool b') = present \<and>
      map_option (inst_Health (\<lambda>_. bt_pool b')) (res_instances (bt_res b') (show_nat k)) =
        Some (if present = Map.empty then Unhealthy else Healthy)"
proof -
  from batch_pool_present [OF assms(1) discovery_run_removals_ok [OF assms(2)] assms(3-5)]
    batch_seat_stored [OF assms(1,6), of matcher evs]
  show ?thesis by (auto simp: Let_def)
qed

lemma batch_follows_discovery_witness:
  "\<exists>b. NewBatchPartitionScatter (\<lambda>res n. (Suc n, True)) ''d'' ''all'' 2 (0::nat) = Return (1, Some b) \<and>
    map_option (inst_Health (\<lambda>_. bt_pool (runBatchPartitionScatter demo_matcher [Init [Generic demo_part]] b)))
      (res_instances (bt_res (runBatchPartitionScatter demo_matcher [Init [Generic demo_part]] b)) (show_nat 1)) =
    Some Healthy"
proof -
  let ?is = "[NewSub (7::nat) [''sda1'']]" and ?evs = "[Init [Generic demo_part]]"
  obtain b where new: "NewBatchPartitionScatter (\<lambda>res n. (Suc n, True)) ''d'' ''all'' 2 (0::nat) = Return (1, Some b)"
    by (simp add: NewBatchPartitionScatter_def make_instances_Return maxAlloc_def Let_def)
  have ok: "discovery_inputs_ok [Some demo_part] ?is"
    by (simp add: discovery_inputs_ok_def monitor_start_def NewDiscovery_def range_order_def
        discovery_step_def demo_part_simps)
  have run: "discovery_run [Some demo_part] ?is = \<lparr>disc_state = [''sda1'' \<mapsto> Generic demo_part],
      disc_mux = [7 \<mapsto> ?evs], disc_done = False, disc_retrying = False\<rparr>"
    by (simp add: discovery_run_def monitor_start_def NewDiscovery_def discovery_step_def
        demo_part_simps heard_before_def join_member_def)
  have "filter_stable (batch_matches demo_matcher) ?evs" by (simp add: filter_stable_def)
  from batch_follows_discovery [OF new ok _ _ this, of 7 1] run
  have "let b' = runBatchPartitionScatter demo_matcher ?evs b;
      present = disc_State (batch_matches demo_matcher) (discovery_run [Some demo_part] ?is)
    in map_option (inst_Health (\<lambda>_. bt_pool b')) (res_instances (bt_res b') (show_nat 1)) =
        Some (if present = Map.empty then Unhealthy else Healthy)"
    by (simp add: Let_def)
  moreover have "disc_State (batch_matches demo_matcher) (discovery_run [Some demo_part] ?is) ''sda1'' =
      Some (Generic demo_part)"
    by (simp add: run disc_State_def filter_map_def batch_matches_def matchBatchPartitionDevice_def
        demo_part_simps)
  then have "disc_State (batch_matches demo_matcher) (discovery_run [Some demo_part] ?is) \<noteq> Map.empty"
    by (metis option.distinct(1))
  ultimately show ?thesis using new by (intro exI [of _ b]) (simp only: Let_def if_False simp_thms)
qed

text \<open>
  The label of a batch partition. Without a capture group the label is the text that the expression
  matched, and not the partition name when the expression matches only a part of it; so partitions
  with different names can get one label.
\<close>
lemma batch_label_is_match:
  assumes "partition_matches matcher d = Some (partlabel, [m])"
  shows "matchBatchPartitionDevice (Some d) matcher = Some (dev_Id d, m)"
  using assms by (simp add: matchBatchPartitionDevice_def)

text \<open>The expression \<open>disk\<close>.\<close>

definition disk_matcher :: regexp where
  "disk_matcher = MustCompile (literal ''disk'')"

lemma batch_label_is_match_witness:
  "Properties (Generic demo_part) PropertyPartName = Some ''ydb_disk1'' \<and>
   matchBatchPartitionDevice (Some (Generic demo_part)) disk_matcher = Some (''sda1'', ''disk'')"
proof -
  have "partition_matches disk_matcher (Generic demo_part) = Some (''ydb_disk1'', [''disk''])"
    by (simp add: demo_part_def partition_matches_def udev_names disk_matcher_def MustCompile_def
        literal_def search.simps)
  from batch_label_is_match [OF this] show ?thesis
    by (simp add: demo_part_simps) (simp add: demo_part_def udev_names)
qed

end
