(* ===== verification/App_Domain.thy ===== *)
theory App_Domain
  imports Go_Path Go_Regex
begin

text \<open>
  The domain expression of \<open>cmd/udev-manager/main.go\<close> and what it accepts: at least two labels
  between dots, each of 1 to 63 letters, digits and hyphens that neither starts nor ends with a
  hyphen.
\<close>

section \<open>The expression\<close>

definition in_range :: "nat \<Rightarrow> nat \<Rightarrow> char \<Rightarrow> bool" where
  "in_range lo hi c \<longleftrightarrow> lo \<le> of_char c \<and> of_char c \<le> hi"

text \<open>The classes \<open>[a-zA-Z0-9]\<close> and \<open>[a-zA-Z0-9-]\<close>.\<close>

definition alnum :: "char \<Rightarrow> bool" where
  "alnum c \<longleftrightarrow> in_range 97 122 c \<or> in_range 65 90 c \<or> in_range 48 57 c"

definition alnum_hyphen :: "char \<Rightarrow> bool" where
  "alnum_hyphen c \<longleftrightarrow> alnum c \<or> c = CHR ''-''"

text \<open>\<open>[a-zA-Z0-9]([a-zA-Z0-9-]{0,61}[a-zA-Z0-9])?\<close>, with the number of its group.\<close>

definition label_regex :: "nat \<Rightarrow> regex" where
  "label_regex k = Seq (Class alnum)
     (Alt (Group k (Seq (Repeat (Class alnum_hyphen) 0 61) (Class alnum))) Eps)"

definition dotted_label :: regex where
  "dotted_label = Group 1 (Seq (label_regex 2) (Class (\<lambda>c. c = CHR ''.'')))"

definition deviceDomainRegex :: regexp where
  "deviceDomainRegex = MustCompile (Seq BeginText
     (Seq (Seq (Seq dotted_label (Star dotted_label)) (label_regex 3)) EndText))"

section \<open>What it accepts\<close>

definition valid_label :: "string \<Rightarrow> bool" where
  "valid_label l \<longleftrightarrow> l \<noteq> [] \<and> length l \<le> 63 \<and> list_all alnum_hyphen l \<and> alnum (hd l) \<and> alnum (last l)"

definition valid_domain :: "string \<Rightarrow> bool" where
  "valid_domain s \<longleftrightarrow> (let labels = split_on CHR ''.'' s in 2 \<le> length labels \<and> list_all valid_label labels)"

lemma power_set_Class: "power_set n {[c] |c. p c} = {w. length w = n \<and> list_all p w}"
proof (induction n)
  case (Suc n)
  show ?case unfolding power_set.simps Suc by (auto simp: length_Suc_conv intro: concI [of "[_]", simplified] elim!: concE)
qed auto

lemma lang_label_tail:
  "lang (Seq (Repeat (Class alnum_hyphen) 0 61) (Class alnum)) =
     {w @ [d] |w d. length w \<le> 61 \<and> list_all alnum_hyphen w \<and> alnum d}"
proof -
  have "lang (Repeat (Class alnum_hyphen) 0 61) = {w. length w \<le> 61 \<and> list_all alnum_hyphen w}"
    by (simp add: power_set_Class) auto
  then show ?thesis by (auto intro: concI elim!: concE)
qed

lemma valid_label_cases:
  "valid_label l \<longleftrightarrow> (\<exists>c. l = [c] \<and> alnum c) \<or>
     (\<exists>c w d. l = c # w @ [d] \<and> alnum c \<and> length w \<le> 61 \<and> list_all alnum_hyphen w \<and> alnum d)"
proof (cases l)
  case l: (Cons c t)
  show ?thesis
  proof (cases t rule: rev_cases)
    case Nil
    with l show ?thesis by (auto simp: valid_label_def alnum_hyphen_def)
  next
    case (snoc w d)
    with l show ?thesis by (auto simp: valid_label_def alnum_hyphen_def)
  qed
qed (simp add: valid_label_def)

lemma lang_label: "lang (label_regex k) = Collect valid_label"
proof (intro set_eqI iffI)
  fix l assume "l \<in> lang (label_regex k)"
  then have "l \<in> conc (lang (Class alnum))
      (lang (Seq (Repeat (Class alnum_hyphen) 0 61) (Class alnum)) \<union> {[]})"
    by (simp add: label_regex_def)
  then obtain u v where "l = u @ v" "u \<in> lang (Class alnum)"
    "v \<in> lang (Seq (Repeat (Class alnum_hyphen) 0 61) (Class alnum)) \<union> {[]}"
    by (rule concE)
  then show "l \<in> Collect valid_label"
    unfolding lang_label_tail mem_Collect_eq valid_label_cases by auto
next
  fix l assume "l \<in> Collect valid_label"
  then consider c where "l = [c] @ []" "alnum c"
    | c w d where "l = [c] @ (w @ [d])" "alnum c" "length w \<le> 61" "list_all alnum_hyphen w" "alnum d"
    unfolding mem_Collect_eq valid_label_cases by auto
  then show "l \<in> lang (label_regex k)"
  proof cases
    case 1
    have "[c] @ [] \<in> conc (lang (Class alnum)) (lang (Seq (Repeat (Class alnum_hyphen) 0 61) (Class alnum)) \<union> {[]})"
      by (rule concI) (simp_all add: 1)
    then show ?thesis unfolding 1(1) by (simp add: label_regex_def)
  next
    case 2
    have "w @ [d] \<in> lang (Seq (Repeat (Class alnum_hyphen) 0 61) (Class alnum))"
      unfolding lang_label_tail using 2 by blast
    then have "[c] @ (w @ [d]) \<in> conc (lang (Class alnum)) (lang (Seq (Repeat (Class alnum_hyphen) 0 61) (Class alnum)) \<union> {[]})"
      by (intro concI) (simp_all add: 2)
    then show ?thesis unfolding 2(1) by (simp add: label_regex_def)
  qed
qed

lemma valid_label_no_dot: "valid_label l \<Longrightarrow> CHR ''.'' \<notin> set l"
  by (auto simp: valid_label_def list_all_iff alnum_hyphen_def alnum_def in_range_def)

definition dotted :: "string list \<Rightarrow> string" where
  "dotted ls = concat (map (\<lambda>l. l @ [CHR ''.'']) ls)"

lemma dotted_join: "dotted ls @ l = join (ls @ [l]) ''.''"
proof (induction ls)
  case (Cons x xs)
  then show ?case by (cases xs) (simp_all add: dotted_def)
qed (simp add: dotted_def)

lemma lang_dotted: "lang dotted_label = {l @ ''.'' |l. valid_label l}"
  by (auto simp: dotted_label_def lang_label conc_def)

lemma power_set_dotted:
  "power_set n {l @ ''.'' |l. valid_label l} = {dotted ls |ls. length ls = n \<and> list_all valid_label ls}"
proof (induction n)
  case (Suc n)
  show ?case
  proof (intro set_eqI iffI)
    fix w assume "w \<in> power_set (Suc n) {l @ ''.'' |l. valid_label l}"
    then obtain l ls where "w = (l @ ''.'') @ dotted ls" "valid_label l" "length ls = n"
      "list_all valid_label ls" by (auto simp: Suc conc_def)
    then have "w = dotted (l # ls)" "length (l # ls) = Suc n" "list_all valid_label (l # ls)"
      by (simp_all add: dotted_def)
    then show "w \<in> {dotted ls |ls. length ls = Suc n \<and> list_all valid_label ls}" by blast
  next
    fix w assume "w \<in> {dotted ls |ls. length ls = Suc n \<and> list_all valid_label ls}"
    then obtain l ls where "w = (l @ ''.'') @ dotted ls" "valid_label l" "length ls = n"
      "list_all valid_label ls" by (auto simp: length_Suc_conv dotted_def)
    then show "w \<in> power_set (Suc n) {l @ ''.'' |l. valid_label l}"
      unfolding power_set.simps Suc by (simp only:) (rule concI, blast+)
  qed
qed (auto simp: dotted_def)

lemma lang_domain:
  "lang (Seq (Seq dotted_label (Star dotted_label)) (label_regex k)) =
     {join ls ''.'' |ls. 2 \<le> length ls \<and> list_all valid_label ls}" (is "?L = ?R")
proof -
  have plus: "lang (Seq dotted_label (Star dotted_label)) =
      {dotted ls |ls. ls \<noteq> [] \<and> list_all valid_label ls}"
  proof -
    have "lang (Seq dotted_label (Star dotted_label)) =
        (\<Union>n. power_set (Suc n) {l @ ''.'' |l. valid_label l})"
      by (auto simp: lang_dotted conc_def)
    also have "\<dots> = {dotted ls |ls. ls \<noteq> [] \<and> list_all valid_label ls}"
      unfolding power_set_dotted by (auto simp: neq_Nil_conv length_Suc_conv)
    finally show ?thesis .
  qed
  have "?L = {dotted ls @ l |ls l. ls \<noteq> [] \<and> list_all valid_label ls \<and> valid_label l}"
    using plus by (auto simp: lang_label conc_def)
  also have "\<dots> = ?R"
  proof (intro set_eqI iffI)
    fix w assume "w \<in> {dotted ls @ l |ls l. ls \<noteq> [] \<and> list_all valid_label ls \<and> valid_label l}"
    then obtain ls l where "w = join (ls @ [l]) ''.''" "ls \<noteq> []" "list_all valid_label (ls @ [l])"
      by (auto simp: dotted_join)
    then show "w \<in> ?R" by (cases ls) force+
  next
    fix w assume "w \<in> ?R"
    then obtain ls where ls: "w = join ls ''.''" "2 \<le> length ls" "list_all valid_label ls" by blast
    then obtain ms l where "ls = ms @ [l]" by (metis Zero_not_Suc list.size(3) not_numeral_le_zero rev_exhaust)
    with ls have "w = dotted ms @ l" "ms \<noteq> []" "list_all valid_label ms" "valid_label l"
      by (auto simp: dotted_join)
    then show "w \<in> {dotted ls @ l |ls l. ls \<noteq> [] \<and> list_all valid_label ls \<and> valid_label l}" by blast
  qed
  finally show ?thesis .
qed

lemma valid_domain_join: "valid_domain s \<longleftrightarrow> (\<exists>ls. s = join ls ''.'' \<and> 2 \<le> length ls \<and> list_all valid_label ls)"
proof
  assume "valid_domain s"
  then show "\<exists>ls. s = join ls ''.'' \<and> 2 \<le> length ls \<and> list_all valid_label ls"
    by (intro exI [of _ "split_on CHR ''.'' s"]) (simp add: valid_domain_def join_split_on Let_def)
next
  assume "\<exists>ls. s = join ls ''.'' \<and> 2 \<le> length ls \<and> list_all valid_label ls"
  then obtain ls where ls: "s = join ls ''.''" "2 \<le> length ls" "list_all valid_label ls" by blast
  then have "split_on CHR ''.'' s = ls"
    unfolding ls(1) by (intro split_on_join) (auto simp: list_all_iff valid_label_no_dot)
  with ls show "valid_domain s" by (simp add: valid_domain_def Let_def)
qed

lemma deviceDomainRegex_matches: "MatchString deviceDomainRegex s \<longleftrightarrow> valid_domain s"
proof -
  have "anchor_free (Seq (Seq dotted_label (Star dotted_label)) (label_regex 3))"
    by (simp add: dotted_label_def label_regex_def)
  from MatchString_anchored [OF this, of s] show ?thesis
    by (simp only: deviceDomainRegex_def lang_domain valid_domain_join mem_Collect_eq)
qed

section \<open>Property\<close>

lemma alnum_iff: "alnum c \<longleftrightarrow> alnum_hyphen c \<and> c \<noteq> CHR ''-''"
  by (auto simp: alnum_hyphen_def alnum_def in_range_def)

text \<open>
  C39: The domain expression accepts exactly the dotted names of at least two labels of 1 to 63
  letters, digits and hyphens, the first and the last of which is no hyphen. The length of the
  whole name is not bounded.
\<close>

theorem domain_regex_labels:
  "MatchString deviceDomainRegex s \<longleftrightarrow>
     (\<exists>labels. s = join labels ''.'' \<and> 2 \<le> length labels \<and>
        list_all (\<lambda>l. 1 \<le> length l \<and> length l \<le> 63 \<and> list_all alnum_hyphen l \<and>
          hd l \<noteq> CHR ''-'' \<and> last l \<noteq> CHR ''-'') labels)"
proof -
  have "valid_label l \<longleftrightarrow> 1 \<le> length l \<and> length l \<le> 63 \<and> list_all alnum_hyphen l \<and>
      hd l \<noteq> CHR ''-'' \<and> last l \<noteq> CHR ''-''" for l
    by (cases "l = []") (auto simp: valid_label_def alnum_iff list_all_iff Suc_le_eq)
  then have "valid_label = (\<lambda>l. 1 \<le> length l \<and> length l \<le> 63 \<and> list_all alnum_hyphen l \<and>
      hd l \<noteq> CHR ''-'' \<and> last l \<noteq> CHR ''-'')" by blast
  then show ?thesis by (simp only: deviceDomainRegex_matches valid_domain_join)
qed

end
