(* ===== verification/App_Config.thy ===== *)
theory App_Config
  imports App_Domain "HOL-Library.Word"
begin

text \<open>
  The configuration of \<open>cmd/udev-manager/main.go\<close>: the sources a configuration is read from, the
  entries with their validation, \<open>parseConfig\<close> and the loading done by \<open>initFlags\<close>. The YAML decoder
  and \<open>regexp.Compile\<close> are parameters; an error text of theirs is kept as a string.
\<close>

section \<open>Where the configuration comes from\<close>

datatype configSource = FileSource string | EnvSource string | StdinSource

definition file_String :: "string \<Rightarrow> string" where "file_String path = ''file:'' @ path"
definition env_String :: "string \<Rightarrow> string" where "env_String variable = ''env:'' @ variable"
definition stdin_String :: string where "stdin_String = ''stdin''"

text \<open>The dispatch of the interface on the kind of source.\<close>

fun source_String :: "configSource \<Rightarrow> string" where
  "source_String (FileSource path) = file_String path"
| "source_String (EnvSource variable) = env_String variable"
| "source_String StdinSource = stdin_String"

lemmas source_texts = file_String_def env_String_def stdin_String_def

text \<open>
  What the process can read: files, which may fail to open, variables, which are empty when unset,
  and standard input.
\<close>

record process_env =
  env_file :: "string \<Rightarrow> string option"
  env_var :: "string \<Rightarrow> string"
  env_stdin :: string

datatype open_error = CannotOpen string | NotSet string

definition file_open :: "process_env \<Rightarrow> string \<Rightarrow> open_error + string" where
  "file_open w path = (case env_file w path of None \<Rightarrow> Inl (CannotOpen path) | Some text \<Rightarrow> Inr text)"

definition env_open :: "process_env \<Rightarrow> string \<Rightarrow> open_error + string" where
  "env_open w variable =
     (let data = env_var w variable in if data = [] then Inl (NotSet variable) else Inr data)"

definition stdin_open :: "process_env \<Rightarrow> open_error + string" where
  "stdin_open w = Inr (env_stdin w)"

fun source_open :: "process_env \<Rightarrow> configSource \<Rightarrow> open_error + string" where
  "source_open w (FileSource path) = file_open w path"
| "source_open w (EnvSource variable) = env_open w variable"
| "source_open w StdinSource = stdin_open w"

text \<open>\<open>configFlag\<close> is the source set so far; \<open>Set\<close> returns it and the text it refused, if it did.\<close>

definition flag_Set :: "string \<Rightarrow> configSource option \<Rightarrow> configSource option \<times> string option" where
  "flag_Set value cf =
     (if has_prefix value ''file:'' then (Some (FileSource (trim_prefix value ''file:'')), None)
      else if has_prefix value ''env:'' then (Some (EnvSource (trim_prefix value ''env:'')), None)
      else if has_prefix value ''stdin'' then (Some StdinSource, None)
      else (cf, Some value))"

fun flag_String :: "configSource option \<Rightarrow> string" where
  "flag_String None = []"
| "flag_String (Some src) = source_String src"

section \<open>Entries and their validation\<close>

datatype entry_error =
    InvalidDomain string
  | InvalidMatcher string string
  | TooManyGroups string
  | EmptyName
  | NegativeCount int

type_synonym compile = "string \<Rightarrow> string + regexp"

record partitionsConfig =
  pc_Matcher :: string
  pc_DomainOverride :: string
  pc_matcher :: "regexp option"

definition pc_validate :: "compile \<Rightarrow> partitionsConfig \<Rightarrow> partitionsConfig \<times> entry_error option" where
  "pc_validate Compile pc =
     (if pc_DomainOverride pc \<noteq> [] \<and> \<not> MatchString deviceDomainRegex (pc_DomainOverride pc)
      then (pc, Some (InvalidDomain (pc_DomainOverride pc)))
      else case Compile (pc_Matcher pc) of
          Inl err \<Rightarrow> (pc, Some (InvalidMatcher (pc_Matcher pc) err))
        | Inr m \<Rightarrow>
            if NumSubexp m > 1 then (pc, Some (TooManyGroups (pc_Matcher pc)))
            else (pc\<lparr>pc_matcher := Some m\<rparr>, None))"

record batchPartitionsConfig =
  bc_Name :: string
  bc_Matcher :: string
  bc_Count :: "64 word"
  bc_DomainOverride :: string
  bc_matcher :: "regexp option"

definition bc_validate :: "compile \<Rightarrow> batchPartitionsConfig \<Rightarrow> batchPartitionsConfig \<times> entry_error option" where
  "bc_validate Compile bc =
     (if bc_Name bc = [] then (bc, Some EmptyName)
      else if bc_DomainOverride bc \<noteq> [] \<and> \<not> MatchString deviceDomainRegex (bc_DomainOverride bc)
      then (bc, Some (InvalidDomain (bc_DomainOverride bc)))
      else case Compile (bc_Matcher bc) of
          Inl err \<Rightarrow> (bc, Some (InvalidMatcher (bc_Matcher bc) err))
        | Inr m \<Rightarrow>
            let bc' = bc\<lparr>bc_matcher := Some m\<rparr>
            in if sint (bc_Count bc') < 0 then (bc', Some (NegativeCount (sint (bc_Count bc'))))
               else if bc_Count bc' = 0 then (bc'\<lparr>bc_Count := 1\<rparr>, None)
               else (bc', None))"

record hostDevConfig =
  hc_Matcher :: string
  hc_Prefix :: string
  hc_matcher :: "regexp option"

definition hc_validate :: "compile \<Rightarrow> hostDevConfig \<Rightarrow> hostDevConfig \<times> entry_error option" where
  "hc_validate Compile hc =
     (case Compile (hc_Matcher hc) of
        Inl err \<Rightarrow> (hc, Some (InvalidMatcher (hc_Matcher hc) err))
      | Inr m \<Rightarrow> (hc\<lparr>hc_matcher := Some m\<rparr>, None))"

record netBWConfig =
  nbc_Matcher :: string
  nbc_MbpsPerShare :: "64 word"
  nbc_matcher :: "regexp option"

definition nbc_validate :: "compile \<Rightarrow> netBWConfig \<Rightarrow> netBWConfig \<times> entry_error option" where
  "nbc_validate Compile nbc =
     (case Compile (nbc_Matcher nbc) of
        Inl err \<Rightarrow> (nbc, Some (InvalidMatcher (nbc_Matcher nbc) err))
      | Inr m \<Rightarrow> (nbc\<lparr>nbc_matcher := Some m\<rparr>, None))"

record netRdmaConfig =
  nrc_Matcher :: string
  nrc_ResourceCount :: "64 word"
  nrc_matcher :: "regexp option"

definition nrc_validate :: "compile \<Rightarrow> netRdmaConfig \<Rightarrow> netRdmaConfig \<times> entry_error option" where
  "nrc_validate Compile nrc =
     (case Compile (nrc_Matcher nrc) of
        Inl err \<Rightarrow> (nrc, Some (InvalidMatcher (nrc_Matcher nrc) err))
      | Inr m \<Rightarrow> (nrc\<lparr>nrc_matcher := Some m\<rparr>, None))"

section \<open>The whole configuration\<close>

record appConfig =
  DeviceDomain :: string
  DisableTopologyHints :: bool
  HealthCheckPort :: "16 word"
  Partitions :: "partitionsConfig list"
  BatchPartitions :: "batchPartitionsConfig list"
  HostDevs :: "hostDevConfig list"
  NetworkBandwidth :: "netBWConfig list"
  NetworkRdma :: "netRdmaConfig list"

datatype config_section = PartitionsList | BatchPartitionsList | HostDevsList | NetworkBandwidthList | NetworkRdmaList

datatype config_error =
    DomainNotSet
  | DomainInvalid string
  | EntryError config_section nat entry_error

text \<open>The sections in the order of the fields, and the order of the errors in a report.\<close>

fun section_rank :: "config_section \<Rightarrow> nat" where
  "section_rank PartitionsList = 0"
| "section_rank BatchPartitionsList = 1"
| "section_rank HostDevsList = 2"
| "section_rank NetworkBandwidthList = 3"
| "section_rank NetworkRdmaList = 4"

lemma section_rank_inject: "section_rank s = section_rank t \<Longrightarrow> s = t"
  by (cases s; cases t) simp_all

instantiation config_section :: linorder
begin

definition less_eq_config_section :: "config_section \<Rightarrow> config_section \<Rightarrow> bool" where
  "s \<le> t \<longleftrightarrow> section_rank s \<le> section_rank t"

definition less_config_section :: "config_section \<Rightarrow> config_section \<Rightarrow> bool" where
  "s < t \<longleftrightarrow> section_rank s < section_rank t"

instance
  by standard (auto simp: less_eq_config_section_def less_config_section_def intro: section_rank_inject)

end

fun reported_before :: "config_error \<Rightarrow> config_error \<Rightarrow> bool" where
  "reported_before (EntryError s i e) (EntryError t j f) = (s < t \<or> s = t \<and> i < j)"
| "reported_before (EntryError s i e) y = False"
| "reported_before x (EntryError t j f) = True"
| "reported_before x y = (x = DomainNotSet \<and> y \<noteq> DomainNotSet)"

definition defaultHealthcheckPort :: "16 word" where "defaultHealthcheckPort = 8080"

text \<open>One of the loops of \<open>validate\<close>: entries are validated in place, errors are joined in order.\<close>

fun validate_entries ::
    "('c \<Rightarrow> 'c \<times> entry_error option) \<Rightarrow> config_section \<Rightarrow> nat \<Rightarrow> 'c list \<Rightarrow> config_error list \<Rightarrow>
     'c list \<times> config_error list" where
  "validate_entries validate sec i [] errs = ([], errs)"
| "validate_entries validate sec i (c # cs) errs =
     (let (c', e) = validate c;
          errs' = (case e of None \<Rightarrow> errs | Some err \<Rightarrow> errs @ [EntryError sec i err]);
          (cs', errs'') = validate_entries validate sec (Suc i) cs errs'
      in (c' # cs', errs''))"

definition appConfig_validate :: "compile \<Rightarrow> appConfig \<Rightarrow> appConfig \<times> config_error list" where
  "appConfig_validate Compile c =
     (let errs = (if DeviceDomain c = [] then [DomainNotSet] else []);
          errs = (if \<not> MatchString deviceDomainRegex (DeviceDomain c)
                  then errs @ [DomainInvalid (DeviceDomain c)] else errs);
          c = (if HealthCheckPort c = 0 then c\<lparr>HealthCheckPort := defaultHealthcheckPort\<rparr> else c);
          (ps, errs) = validate_entries (pc_validate Compile) PartitionsList 0 (Partitions c) errs;
          (bs, errs) = validate_entries (bc_validate Compile) BatchPartitionsList 0 (BatchPartitions c) errs;
          (hs, errs) = validate_entries (hc_validate Compile) HostDevsList 0 (HostDevs c) errs;
          (ns, errs) = validate_entries (nbc_validate Compile) NetworkBandwidthList 0 (NetworkBandwidth c) errs;
          (rs, errs) = validate_entries (nrc_validate Compile) NetworkRdmaList 0 (NetworkRdma c) errs
      in (c\<lparr>Partitions := ps, BatchPartitions := bs, HostDevs := hs, NetworkBandwidth := ns,
           NetworkRdma := rs\<rparr>, errs))"

datatype parse_error = DecodeError string | ConfigInvalid "config_error list"

definition parseConfig :: "(string \<Rightarrow> string + appConfig) \<Rightarrow> compile \<Rightarrow> string \<Rightarrow> parse_error + appConfig" where
  "parseConfig Decode Compile text =
     (case Decode text of
        Inl err \<Rightarrow> Inl (DecodeError err)
      | Inr config \<Rightarrow>
          (let (config', errs) = appConfig_validate Compile config
           in if errs \<noteq> [] then Inl (ConfigInvalid errs) else Inr config'))"

text \<open>
  \<open>initFlags\<close> with the values given to \<open>--config\<close>, in order: the flag package calls \<open>Set\<close> for each and
  exits with code 2 when it refuses one; the later failures end the process.
\<close>

datatype load_failure = BadFlag string | FlagMissing | OpenFailed open_error | ParseFailed parse_error

fun set_flags :: "string list \<Rightarrow> configSource option \<Rightarrow> string + configSource option" where
  "set_flags [] cf = Inr cf"
| "set_flags (v # vs) cf =
     (case flag_Set v cf of (cf', None) \<Rightarrow> set_flags vs cf' | (cf', Some err) \<Rightarrow> Inl err)"

definition initFlags ::
    "process_env \<Rightarrow> (string \<Rightarrow> string + appConfig) \<Rightarrow> compile \<Rightarrow> string list \<Rightarrow> load_failure + appConfig" where
  "initFlags w Decode Compile values =
     (case set_flags values None of
        Inl err \<Rightarrow> Inl (BadFlag err)
      | Inr None \<Rightarrow> Inl FlagMissing
      | Inr (Some src) \<Rightarrow>
          (case source_open w src of
             Inl err \<Rightarrow> Inl (OpenFailed err)
           | Inr text \<Rightarrow>
               (case parseConfig Decode Compile text of
                  Inl err \<Rightarrow> Inl (ParseFailed err)
                | Inr config \<Rightarrow> Inr config)))"

section \<open>The contract of the validators\<close>

lemma snd_validate_entries_Cons:
  "snd (validate_entries validate sec i (c # cs) errs) =
     snd (validate_entries validate sec (Suc i) cs
       (case snd (validate c) of None \<Rightarrow> errs | Some err \<Rightarrow> errs @ [EntryError sec i err]))"
  by (simp add: Let_def case_prod_beta)

text \<open>
  What the loops of \<open>validate\<close> rely on: an entry that meets its condition is accepted and brought to
  its normal form, which is accepted again as it is; any other entry is refused.
\<close>

locale entry_validator =
  fixes validate :: "'c \<Rightarrow> 'c \<times> entry_error option"
    and ok :: "'c \<Rightarrow> bool"
    and normal :: "'c \<Rightarrow> 'c"
  assumes accepts: "ok c \<Longrightarrow> validate c = (normal c, None)"
    and refuses: "\<not> ok c \<Longrightarrow> snd (validate c) \<noteq> None"
    and settled: "ok c \<Longrightarrow> ok (normal c) \<and> normal (normal c) = normal c"
begin

definition reports :: "config_section \<Rightarrow> nat \<Rightarrow> 'c list \<Rightarrow> config_error list" where
  "reports sec i cs = snd (validate_entries validate sec i cs [])"

lemma error_iff: "snd (validate c) = None \<longleftrightarrow> ok c"
  using accepts [of c] refuses [of c] by (cases "ok c") auto

lemma entries_errors: "snd (validate_entries validate sec i cs errs) = errs @ reports sec i cs"
proof (induction cs arbitrary: i errs)
  case (Cons c cs)
  have step: "snd (validate_entries validate sec i (c # cs) es) =
      (case snd (validate c) of None \<Rightarrow> es | Some err \<Rightarrow> es @ [EntryError sec i err]) @ reports sec (Suc i) cs"
    for es by (rule trans [OF snd_validate_entries_Cons Cons.IH])
  show ?case
    unfolding reports_def [of sec i "c # cs"] step by (simp split: option.split)
qed (simp add: reports_def)

lemma reports_Nil [simp]: "reports sec i [] = []"
  by (simp add: reports_def)

lemma reports_Cons [simp]:
  "reports sec i (c # cs) =
     (case snd (validate c) of None \<Rightarrow> [] | Some e \<Rightarrow> [EntryError sec i e]) @ reports sec (Suc i) cs"
  unfolding reports_def [of _ _ "c # cs"] snd_validate_entries_Cons entries_errors
  by (simp split: option.split)

lemma reports_Nil_iff: "reports sec i cs = [] \<longleftrightarrow> list_all ok cs"
  by (induction cs arbitrary: i) (auto simp: error_iff accepts split: option.split)

lemma reports_section: "EntryError sec' j e \<in> set (reports sec i cs) \<Longrightarrow> sec' = sec \<and> i \<le> j"
  by (induction cs arbitrary: i) (force split: option.splits)+

lemma reports_entry_errors: "x \<in> set (reports sec i cs) \<Longrightarrow> \<exists>j e. x = EntryError sec j e"
  by (induction cs arbitrary: i) (force split: option.splits)+

lemma reports_distinct: "distinct (reports sec i cs)"
  by (induction cs arbitrary: i) (auto split: option.split dest: reports_section)

lemma reports_sorted: "sorted_wrt reported_before (reports sec i cs)"
proof (induction cs arbitrary: i)
  case (Cons c cs)
  have "reported_before (EntryError sec i e) x" if "x \<in> set (reports sec (Suc i) cs)" for e x
    using that reports_entry_errors [OF that] reports_section by fastforce
  with Cons.IH show ?case by (simp split: option.split)
qed simp

lemma reports_iff:
  "(\<exists>e. EntryError sec (i + j) e \<in> set (reports sec i cs)) \<longleftrightarrow> j < length cs \<and> \<not> ok (cs ! j)"
proof (induction cs arbitrary: i j)
  case (Cons c cs)
  show ?case
  proof (cases j)
    case 0
    have "EntryError sec i e \<notin> set (reports sec (Suc i) cs)" for e
      using reports_section [of sec i e sec "Suc i" cs] by auto
    then show ?thesis using 0 error_iff [of c] by (auto split: option.splits)
  next
    case (Suc k)
    then show ?thesis using Cons.IH [of "Suc i" k] by (auto split: option.splits)
  qed
qed simp

lemma reported_iff:
  "(\<exists>e. EntryError sec j e \<in> set (reports sec 0 cs)) \<longleftrightarrow> j < length cs \<and> \<not> ok (cs ! j)"
  using reports_iff [of sec 0 j cs] by simp

lemma accept_entries: "list_all ok cs \<Longrightarrow> validate_entries validate sec i cs errs = (map normal cs, errs)"
  by (induction cs arbitrary: i) (simp_all add: accepts)

lemma settled_entries: "list_all ok cs \<Longrightarrow> list_all ok (map normal cs) \<and> map (normal \<circ> normal) cs = map normal cs"
  by (induction cs) (simp_all add: settled)

end

text \<open>The conditions: an override is absent or valid, and the matcher compiles to one with few groups.\<close>

definition override_ok :: "string \<Rightarrow> bool" where
  "override_ok d \<longleftrightarrow> d = [] \<or> valid_domain d"

definition compiles :: "compile \<Rightarrow> (regexp \<Rightarrow> bool) \<Rightarrow> string \<Rightarrow> bool" where
  "compiles Compile P s \<longleftrightarrow> (case Compile s of Inl err \<Rightarrow> False | Inr m \<Rightarrow> P m)"

definition compiled :: "compile \<Rightarrow> string \<Rightarrow> regexp option" where
  "compiled Compile s = (case Compile s of Inl err \<Rightarrow> None | Inr m \<Rightarrow> Some m)"

definition pc_ok :: "compile \<Rightarrow> partitionsConfig \<Rightarrow> bool" where
  "pc_ok Compile pc \<longleftrightarrow> override_ok (pc_DomainOverride pc) \<and>
     compiles Compile (\<lambda>m. NumSubexp m \<le> 1) (pc_Matcher pc)"

definition pc_normal :: "compile \<Rightarrow> partitionsConfig \<Rightarrow> partitionsConfig" where
  "pc_normal Compile pc = pc\<lparr>pc_matcher := compiled Compile (pc_Matcher pc)\<rparr>"

definition bc_ok :: "compile \<Rightarrow> batchPartitionsConfig \<Rightarrow> bool" where
  "bc_ok Compile bc \<longleftrightarrow> bc_Name bc \<noteq> [] \<and> override_ok (bc_DomainOverride bc) \<and>
     compiles Compile (\<lambda>m. True) (bc_Matcher bc) \<and> 0 \<le> sint (bc_Count bc)"

definition bc_normal :: "compile \<Rightarrow> batchPartitionsConfig \<Rightarrow> batchPartitionsConfig" where
  "bc_normal Compile bc = bc\<lparr>bc_matcher := compiled Compile (bc_Matcher bc),
     bc_Count := (if bc_Count bc = 0 then 1 else bc_Count bc)\<rparr>"

definition hc_normal :: "compile \<Rightarrow> hostDevConfig \<Rightarrow> hostDevConfig" where
  "hc_normal Compile hc = hc\<lparr>hc_matcher := compiled Compile (hc_Matcher hc)\<rparr>"

definition nbc_normal :: "compile \<Rightarrow> netBWConfig \<Rightarrow> netBWConfig" where
  "nbc_normal Compile nbc = nbc\<lparr>nbc_matcher := compiled Compile (nbc_Matcher nbc)\<rparr>"

definition nrc_normal :: "compile \<Rightarrow> netRdmaConfig \<Rightarrow> netRdmaConfig" where
  "nrc_normal Compile nrc = nrc\<lparr>nrc_matcher := compiled Compile (nrc_Matcher nrc)\<rparr>"

abbreviation hc_ok :: "compile \<Rightarrow> hostDevConfig \<Rightarrow> bool" where
  "hc_ok Compile hc \<equiv> compiles Compile (\<lambda>m. True) (hc_Matcher hc)"

abbreviation nbc_ok :: "compile \<Rightarrow> netBWConfig \<Rightarrow> bool" where
  "nbc_ok Compile nbc \<equiv> compiles Compile (\<lambda>m. True) (nbc_Matcher nbc)"

abbreviation nrc_ok :: "compile \<Rightarrow> netRdmaConfig \<Rightarrow> bool" where
  "nrc_ok Compile nrc \<equiv> compiles Compile (\<lambda>m. True) (nrc_Matcher nrc)"

lemmas validators =
  pc_validate_def bc_validate_def hc_validate_def nbc_validate_def nrc_validate_def
  pc_ok_def bc_ok_def override_ok_def compiles_def
  pc_normal_def bc_normal_def hc_normal_def nbc_normal_def nrc_normal_def compiled_def
  deviceDomainRegex_matches

interpretation pc: entry_validator "pc_validate Compile" "pc_ok Compile" "pc_normal Compile" for Compile
  by unfold_locales (auto simp: validators Let_def split: sum.splits)

interpretation bc: entry_validator "bc_validate Compile" "bc_ok Compile" "bc_normal Compile" for Compile
  by unfold_locales (auto simp: validators Let_def split: sum.splits)

interpretation hc: entry_validator "hc_validate Compile" "hc_ok Compile" "hc_normal Compile" for Compile
  by unfold_locales (auto simp: validators split: sum.splits)

interpretation nbc: entry_validator "nbc_validate Compile" "nbc_ok Compile" "nbc_normal Compile" for Compile
  by unfold_locales (auto simp: validators split: sum.splits)

interpretation nrc: entry_validator "nrc_validate Compile" "nrc_ok Compile" "nrc_normal Compile" for Compile
  by unfold_locales (auto simp: validators split: sum.splits)

section \<open>The whole configuration against its specification\<close>

definition config_ok :: "compile \<Rightarrow> appConfig \<Rightarrow> bool" where
  "config_ok Compile c \<longleftrightarrow> valid_domain (DeviceDomain c) \<and>
     list_all (pc_ok Compile) (Partitions c) \<and> list_all (bc_ok Compile) (BatchPartitions c) \<and>
     list_all (hc_ok Compile) (HostDevs c) \<and> list_all (nbc_ok Compile) (NetworkBandwidth c) \<and>
     list_all (nrc_ok Compile) (NetworkRdma c)"

definition config_normal :: "compile \<Rightarrow> appConfig \<Rightarrow> appConfig" where
  "config_normal Compile c = c\<lparr>
     HealthCheckPort := (if HealthCheckPort c = 0 then 8080 else HealthCheckPort c),
     Partitions := map (pc_normal Compile) (Partitions c),
     BatchPartitions := map (bc_normal Compile) (BatchPartitions c),
     HostDevs := map (hc_normal Compile) (HostDevs c),
     NetworkBandwidth := map (nbc_normal Compile) (NetworkBandwidth c),
     NetworkRdma := map (nrc_normal Compile) (NetworkRdma c)\<rparr>"

definition domain_errors :: "string \<Rightarrow> config_error list" where
  "domain_errors d = (if d = [] then [DomainNotSet] else []) @ (if valid_domain d then [] else [DomainInvalid d])"

lemma not_valid_domain_Nil: "\<not> valid_domain []"
  by (simp add: valid_domain_def)

lemma domain_errors_Nil_iff: "domain_errors d = [] \<longleftrightarrow> valid_domain d"
  by (auto simp: domain_errors_def not_valid_domain_Nil)

lemma domain_errors_set:
  "x \<in> set (domain_errors d) \<longleftrightarrow> x = DomainNotSet \<and> d = [] \<or> x = DomainInvalid d \<and> \<not> valid_domain d"
  by (auto simp: domain_errors_def)

lemma domain_errors_distinct: "distinct (domain_errors d)"
  by (simp add: domain_errors_def)

lemma appConfig_validate_errors:
  "snd (appConfig_validate Compile c) = domain_errors (DeviceDomain c) @
     pc.reports Compile PartitionsList 0 (Partitions c) @
     bc.reports Compile BatchPartitionsList 0 (BatchPartitions c) @
     hc.reports Compile HostDevsList 0 (HostDevs c) @
     nbc.reports Compile NetworkBandwidthList 0 (NetworkBandwidth c) @
     nrc.reports Compile NetworkRdmaList 0 (NetworkRdma c)"
  by (simp add: appConfig_validate_def Let_def case_prod_beta pc.entries_errors bc.entries_errors
      hc.entries_errors nbc.entries_errors nrc.entries_errors domain_errors_def deviceDomainRegex_matches)

lemmas entry_reports =
  pc.reports_entry_errors bc.reports_entry_errors hc.reports_entry_errors
  nbc.reports_entry_errors nrc.reports_entry_errors

lemma validate_errors_distinct: "distinct (snd (appConfig_validate Compile c))"
  unfolding appConfig_validate_errors
  by (auto simp: pc.reports_distinct bc.reports_distinct hc.reports_distinct nbc.reports_distinct
      nrc.reports_distinct domain_errors_distinct domain_errors_set dest!: entry_reports)

lemma validate_errors_sorted: "sorted_wrt reported_before (snd (appConfig_validate Compile c))"
  unfolding appConfig_validate_errors
  by (auto simp: sorted_wrt_append pc.reports_sorted bc.reports_sorted hc.reports_sorted
      nbc.reports_sorted nrc.reports_sorted domain_errors_def less_config_section_def
      dest!: entry_reports)

lemma validate_domain_errors:
  "DomainNotSet \<in> set (snd (appConfig_validate Compile c)) \<longleftrightarrow> DeviceDomain c = []"
  "DomainInvalid d \<in> set (snd (appConfig_validate Compile c)) \<longleftrightarrow>
     d = DeviceDomain c \<and> \<not> valid_domain d"
  unfolding appConfig_validate_errors by (auto simp: domain_errors_set dest!: entry_reports)

lemma validate_errors_of_section:
  "EntryError PartitionsList i e \<in> set (snd (appConfig_validate Compile c)) \<longleftrightarrow>
     EntryError PartitionsList i e \<in> set (pc.reports Compile PartitionsList 0 (Partitions c))"
  "EntryError BatchPartitionsList i e \<in> set (snd (appConfig_validate Compile c)) \<longleftrightarrow>
     EntryError BatchPartitionsList i e \<in> set (bc.reports Compile BatchPartitionsList 0 (BatchPartitions c))"
  "EntryError HostDevsList i e \<in> set (snd (appConfig_validate Compile c)) \<longleftrightarrow>
     EntryError HostDevsList i e \<in> set (hc.reports Compile HostDevsList 0 (HostDevs c))"
  "EntryError NetworkBandwidthList i e \<in> set (snd (appConfig_validate Compile c)) \<longleftrightarrow>
     EntryError NetworkBandwidthList i e \<in> set (nbc.reports Compile NetworkBandwidthList 0 (NetworkBandwidth c))"
  "EntryError NetworkRdmaList i e \<in> set (snd (appConfig_validate Compile c)) \<longleftrightarrow>
     EntryError NetworkRdmaList i e \<in> set (nrc.reports Compile NetworkRdmaList 0 (NetworkRdma c))"
  unfolding appConfig_validate_errors by (auto simp: domain_errors_set dest: entry_reports)

lemma appConfig_validate_accepts:
  assumes "config_ok Compile c"
  shows "appConfig_validate Compile c = (config_normal Compile c, [])"
proof -
  from assms have "valid_domain (DeviceDomain c)" and "DeviceDomain c \<noteq> []"
    by (auto simp: config_ok_def not_valid_domain_Nil)
  with assms show ?thesis
    by (simp add: appConfig_validate_def config_ok_def config_normal_def deviceDomainRegex_matches
        pc.accept_entries bc.accept_entries hc.accept_entries nbc.accept_entries nrc.accept_entries
        defaultHealthcheckPort_def)
qed

lemma appConfig_validate_Nil_iff: "snd (appConfig_validate Compile c) = [] \<longleftrightarrow> config_ok Compile c"
  by (simp add: appConfig_validate_errors config_ok_def domain_errors_Nil_iff pc.reports_Nil_iff
      bc.reports_Nil_iff hc.reports_Nil_iff nbc.reports_Nil_iff nrc.reports_Nil_iff)

lemma config_ok_normal: "config_ok Compile c \<Longrightarrow> config_ok Compile (config_normal Compile c)"
  using pc.settled_entries bc.settled_entries hc.settled_entries nbc.settled_entries nrc.settled_entries
  by (simp add: config_ok_def config_normal_def)

lemma config_normal_idem:
  "config_ok Compile c \<Longrightarrow> config_normal Compile (config_normal Compile c) = config_normal Compile c"
  using pc.settled_entries [of Compile "Partitions c"] bc.settled_entries [of Compile "BatchPartitions c"]
    hc.settled_entries [of Compile "HostDevs c"] nbc.settled_entries [of Compile "NetworkBandwidth c"]
    nrc.settled_entries [of Compile "NetworkRdma c"]
  by (simp add: config_ok_def config_normal_def comp_def)

lemma parseConfig_Inr_iff:
  "parseConfig Decode Compile text = Inr c \<longleftrightarrow>
     (\<exists>c0. Decode text = Inr c0 \<and> config_ok Compile c0 \<and> c = config_normal Compile c0)"
proof (cases "Decode text")
  case (Inr c0)
  show ?thesis
  proof (cases "config_ok Compile c0")
    case True
    with Inr show ?thesis by (auto simp: parseConfig_def appConfig_validate_accepts)
  next
    case False
    then have "snd (appConfig_validate Compile c0) \<noteq> []" by (simp add: appConfig_validate_Nil_iff)
    with Inr False show ?thesis by (auto simp: parseConfig_def split: prod.split)
  qed
qed (simp add: parseConfig_def)

section \<open>A configuration to try\<close>

text \<open>A compiler for literal texts, which refuses the empty text.\<close>

definition demo_compile :: compile where
  "demo_compile s = (if s = [] then Inl ''empty'' else Inr (MustCompile (literal s)))"

definition demo_config :: appConfig where
  "demo_config = \<lparr>DeviceDomain = ''ydb.tech'', DisableTopologyHints = False, HealthCheckPort = 0,
     Partitions = [\<lparr>pc_Matcher = ''disk'', pc_DomainOverride = ''a.b'', pc_matcher = None\<rparr>],
     BatchPartitions = [\<lparr>bc_Name = ''all'', bc_Matcher = ''nvme'', bc_Count = 0, bc_DomainOverride = [],
       bc_matcher = None\<rparr>],
     HostDevs = [], NetworkBandwidth = [], NetworkRdma = []\<rparr>"

lemma demo_domains: "valid_domain ''ydb.tech''" "valid_domain ''a.b''"
  by code_simp+

lemma num_groups_literal: "num_groups (literal s) = 0"
  by (induction s) (simp_all add: literal_def)

lemma demo_compiles: "s \<noteq> [] \<Longrightarrow> P (MustCompile (literal s)) \<Longrightarrow> compiles demo_compile P s"
  by (simp add: compiles_def demo_compile_def)

lemma config_ok_demo: "config_ok demo_compile demo_config"
  by (simp add: config_ok_def demo_config_def demo_domains pc_ok_def bc_ok_def override_ok_def
      demo_compiles MustCompile_def num_groups_literal)

section \<open>Properties\<close>

text \<open>
  C21: The configuration is accepted exactly when its domain is a domain of at least two labels and
  every entry meets its condition: overrides absent or valid, matchers that compile, at most one
  group for partitions, a name and no negative count for batches. An accepted configuration gets
  its default port and count and its compiled matchers, and validating it again changes nothing.
\<close>

theorem config_accepts_valid:
  "(snd (appConfig_validate Compile c) = [] \<longleftrightarrow> config_ok Compile c) \<and>
   (config_ok Compile c \<longrightarrow>
      fst (appConfig_validate Compile c) = config_normal Compile c \<and>
      appConfig_validate Compile (config_normal Compile c) = (config_normal Compile c, []))"
  by (simp add: appConfig_validate_Nil_iff appConfig_validate_accepts config_ok_normal config_normal_idem)

lemma config_accepts_valid_witness:
  "appConfig_validate demo_compile (config_normal demo_compile demo_config) =
     (config_normal demo_compile demo_config, []) \<and>
   HealthCheckPort (fst (appConfig_validate demo_compile demo_config)) = 8080"
  using config_accepts_valid [of demo_compile demo_config] config_ok_demo
  by (simp add: config_normal_def demo_config_def)

text \<open>
  C38: A refused configuration reports every mistake once, in the order of the fields: the missing
  and the invalid domain, and one error, with its list and index, for exactly the entries that do not meet their condition.
\<close>

theorem config_reports_every_error:
  "distinct (snd (appConfig_validate Compile c)) \<and>
   sorted_wrt reported_before (snd (appConfig_validate Compile c)) \<and>
   (DomainNotSet \<in> set (snd (appConfig_validate Compile c)) \<longleftrightarrow> DeviceDomain c = []) \<and>
   (DomainInvalid d \<in> set (snd (appConfig_validate Compile c)) \<longleftrightarrow>
      d = DeviceDomain c \<and> \<not> valid_domain d) \<and>
   ((\<exists>e. EntryError PartitionsList i e \<in> set (snd (appConfig_validate Compile c))) \<longleftrightarrow>
      i < length (Partitions c) \<and> \<not> pc_ok Compile (Partitions c ! i)) \<and>
   ((\<exists>e. EntryError BatchPartitionsList i e \<in> set (snd (appConfig_validate Compile c))) \<longleftrightarrow>
      i < length (BatchPartitions c) \<and> \<not> bc_ok Compile (BatchPartitions c ! i)) \<and>
   ((\<exists>e. EntryError HostDevsList i e \<in> set (snd (appConfig_validate Compile c))) \<longleftrightarrow>
      i < length (HostDevs c) \<and> \<not> hc_ok Compile (HostDevs c ! i)) \<and>
   ((\<exists>e. EntryError NetworkBandwidthList i e \<in> set (snd (appConfig_validate Compile c))) \<longleftrightarrow>
      i < length (NetworkBandwidth c) \<and> \<not> nbc_ok Compile (NetworkBandwidth c ! i)) \<and>
   ((\<exists>e. EntryError NetworkRdmaList i e \<in> set (snd (appConfig_validate Compile c))) \<longleftrightarrow>
      i < length (NetworkRdma c) \<and> \<not> nrc_ok Compile (NetworkRdma c ! i))"
  by (intro conjI)
    (simp_all add: validate_errors_distinct validate_errors_sorted validate_domain_errors validate_errors_of_section
      pc.reported_iff bc.reported_iff hc.reported_iff nbc.reported_iff nrc.reported_iff)

text \<open>
  C40: The configuration flag reads what it prints: setting the text of a source gives the source
  back, and a text that is accepted prints as itself unless it only starts with stdin. A refused
  text leaves the flag as it was.
\<close>

theorem config_flag_roundtrip:
  "flag_Set (flag_String (Some src)) cf = (Some src, None) \<and>
   (case flag_Set value cf of
      (cf', Some refused) \<Rightarrow> cf' = cf \<and> refused = value
    | (cf', None) \<Rightarrow> flag_String cf' = value \<or> cf' = Some StdinSource \<and> has_prefix value ''stdin'')"
proof (intro conjI)
  show "flag_Set (flag_String (Some src)) cf = (Some src, None)"
    by (cases src) (simp_all add: flag_Set_def source_texts has_prefix_def trim_prefix_def)
  have "has_prefix value p \<Longrightarrow> p @ trim_prefix value p = value" for p
    by (auto simp: has_prefix_def trim_prefix_def prefix_def)
  from this [of "''file:''"] this [of "''env:''"]
  show "case flag_Set value cf of
      (cf', Some refused) \<Rightarrow> cf' = cf \<and> refused = value
    | (cf', None) \<Rightarrow> flag_String cf' = value \<or> cf' = Some StdinSource \<and> has_prefix value ''stdin''"
    by (simp add: flag_Set_def source_texts)
qed

end
