(* ===== verification/Plugin_Names.thy ===== *)
theory Plugin_Names
  imports Plugin_Registry
begin

text \<open>
  What a scatter does to a registry that it shares with others: the cases of one step, and that its
  routes have different names, all taken in the registry, and that the names it takes were free.
\<close>

section \<open>The steps of a scatter\<close>

lemma res_Name_newResource [simp]: "res_Name (newResource t m) = template_Name t"
  by (simp add: res_Name_def newResource_def template_Name_def)

lemma scatter_unmatched:
  assumes "\<not> (\<exists>k is. templater d = Return (Inr (Some k)) \<and> mapper d = Return (Inr is))"
  shows "scatter_added templater mapper add (Some d) s = Return s' \<Longrightarrow> s' = s"
    and "scatter_removed templater mapper (Some d) s = Return s' \<Longrightarrow> s' = s"
  using assms
  by (auto simp: scatter_added_def scatter_removed_def split: sum.splits option.splits
      elim!: bind_outcome_ReturnE)

text \<open>
  An event that matches either updates the resource that its template has, or offers a new one to
  the registry, which accepts or refuses it.
\<close>

lemma scatter_added_cases:
  assumes added: "scatter_added templater mapper add dev s = Return s'"
  obtains (unchanged) "s' = s"
  | (resubmitted) d k "is" res where "templater d = Return (Inr (Some k))" and "mapper d = Return (Inr is)"
      and "routes s k = Some res" and "s' = s\<lparr>routes := (routes s)(k \<mapsto> res_Submit is Healthy res)\<rparr>"
  | (accepted) d k "is" m r' where "templater d = Return (Inr (Some k))" and "mapper d = Return (Inr is)"
      and "routes s k = None" and "m = store_all inst_Id (\<lambda>i. i) is Map.empty"
      and "add (newResource k m) (registry_state s) = (r', True)"
      and "s' = s\<lparr>routes := (routes s)(k \<mapsto> newResource k m), registry_state := r'\<rparr>"
  | (refused) d k m r' where "templater d = Return (Inr (Some k))" and "routes s k = None"
      and "add (newResource k m) (registry_state s) = (r', False)" and "s' = s\<lparr>registry_state := r'\<rparr>"
proof (cases dev)
  case None
  with added show thesis by (intro unchanged) (simp add: scatter_added_def)
next
  case (Some d)
  show thesis
  proof (cases "\<exists>k is. templater d = Return (Inr (Some k)) \<and> mapper d = Return (Inr is)")
    case False
    with added Some show thesis by (intro unchanged scatter_unmatched(1) [of templater d mapper]) auto
  next
    case True
    then obtain k "is" where match: "templater d = Return (Inr (Some k))" "mapper d = Return (Inr is)" by blast
    let ?m = "store_all inst_Id (\<lambda>i. i) is Map.empty"
    obtain r' ok where add: "add (newResource k ?m) (registry_state s) = (r', ok)"
      by (cases "add (newResource k ?m) (registry_state s)")
    show thesis
    proof (cases "routes s k")
      case res: (Some res)
      show thesis
        by (rule resubmitted [OF match res]) (use added Some match res in \<open>simp add: scatter_added_def\<close>)
    next
      case None
      show thesis
      proof (cases ok)
        case True
        with add have yes: "add (newResource k ?m) (registry_state s) = (r', True)" by simp
        show thesis
          by (rule accepted [OF match None refl yes])
            (use added Some match None yes in \<open>simp add: scatter_added_def\<close>)
      next
        case False
        with add have no: "add (newResource k ?m) (registry_state s) = (r', False)" by simp
        show thesis
          by (rule refused [OF match(1) None no])
            (use added Some match None no in \<open>simp add: scatter_added_def\<close>)
      qed
    qed
  qed
qed

lemma scatter_removed_cases:
  assumes removed: "scatter_removed templater mapper dev s = Return s'"
  obtains (unchanged) "s' = s"
  | (resubmitted) d k "is" res where "templater d = Return (Inr (Some k))" and "mapper d = Return (Inr is)"
      and "routes s k = Some res" and "s' = s\<lparr>routes := (routes s)(k \<mapsto> res_Submit is Unhealthy res)\<rparr>"
proof (cases dev)
  case None
  with removed show thesis by (intro unchanged) (simp add: scatter_removed_def)
next
  case (Some d)
  show thesis
  proof (cases "\<exists>k is. templater d = Return (Inr (Some k)) \<and> mapper d = Return (Inr is)")
    case False
    with removed Some show thesis by (intro unchanged scatter_unmatched(2) [of templater d mapper]) auto
  next
    case True
    then obtain k "is" where match: "templater d = Return (Inr (Some k))" "mapper d = Return (Inr is)" by blast
    show thesis
    proof (cases "routes s k")
      case None
      with removed Some match show thesis by (intro unchanged) (simp add: scatter_removed_def)
    next
      case res: (Some res)
      show thesis
        by (rule resubmitted [OF match res]) (use removed Some match res in \<open>simp add: scatter_removed_def\<close>)
    qed
  qed
qed

text \<open>
  What a scatter keeps of the registry it shares: its routes have different names, all taken, and
  the names it takes were free.
\<close>

context resource_registry
begin

definition routes_ok :: "'r scatter \<Rightarrow> bool" where
  "routes_ok s \<longleftrightarrow> inj_on template_Name (dom (routes s)) \<and>
     template_Name ` dom (routes s) \<subseteq> taken (registry_state s)"

definition takes_free_names :: "'r scatter \<Rightarrow> 'r scatter \<Rightarrow> bool" where
  "takes_free_names s s' \<longleftrightarrow> routes_ok s' \<and> dom (routes s) \<subseteq> dom (routes s') \<and>
     taken (registry_state s) \<subseteq> taken (registry_state s') \<and>
     template_Name ` (dom (routes s') - dom (routes s)) \<inter> taken (registry_state s) = {}"

lemma takes_free_names_refl: "routes_ok s \<Longrightarrow> takes_free_names s s"
  by (simp add: takes_free_names_def)

lemma takes_free_names_ok: "takes_free_names s s' \<Longrightarrow> routes_ok s'"
  by (simp add: takes_free_names_def)

lemma takes_free_names_trans:
  assumes 1: "takes_free_names s s'" and 2: "takes_free_names s' s''"
  shows "takes_free_names s s''"
proof -
  have "template_Name k \<notin> taken (registry_state s)" if "k \<in> dom (routes s'')" "k \<notin> dom (routes s)" for k
  proof (cases "k \<in> dom (routes s')")
    case True
    with that(2) 1 show ?thesis unfolding takes_free_names_def by blast
  next
    case False
    with that(1) 2 have "template_Name k \<notin> taken (registry_state s')"
      unfolding takes_free_names_def by blast
    moreover have "taken (registry_state s) \<subseteq> taken (registry_state s')"
      using 1 by (simp add: takes_free_names_def)
    ultimately show ?thesis by (rule contra_subsetD [rotated])
  qed
  moreover have "routes_ok s''" using 2 by (rule takes_free_names_ok)
  moreover have "dom (routes s) \<subseteq> dom (routes s'')" "taken (registry_state s) \<subseteq> taken (registry_state s'')"
    using 1 2 unfolding takes_free_names_def by (meson subset_trans)+
  ultimately show ?thesis unfolding takes_free_names_def by (intro conjI) (simp, simp, simp, blast)
qed

lemma resubmitted_takes:
  assumes "routes_ok s" and "routes s t = Some res"
  shows "takes_free_names s (s\<lparr>routes := (routes s)(t \<mapsto> res')\<rparr>)"
proof -
  have "dom ((routes s)(t \<mapsto> res')) = dom (routes s)" using assms(2) by auto
  with assms(1) show ?thesis by (simp only: takes_free_names_def routes_ok_def) simp
qed

lemma accepted_takes:
  assumes ok: "routes_ok s" and add: "add (newResource t m) (registry_state s) = (r', True)"
  shows "takes_free_names s (s\<lparr>routes := (routes s)(t \<mapsto> newResource t m), registry_state := r'\<rparr>)"
proof -
  let ?r = "registry_state s" and ?D = "dom (routes s)"
  have free: "template_Name t \<notin> taken ?r"
    using add_taken [of "newResource t m" ?r] add by auto
  have t: "template_Name t \<in> taken r'" and mono: "taken ?r \<subseteq> taken r'"
    using add_accepted [of "newResource t m" ?r] taken_mono [of ?r "newResource t m"] add by simp_all
  have inj: "inj_on template_Name ?D" and sub: "template_Name ` ?D \<subseteq> taken ?r"
    using ok by (simp_all add: routes_ok_def)
  have "template_Name ` insert t ?D \<subseteq> taken r'" using t mono sub by auto
  moreover have "inj_on template_Name (insert t ?D)"
    using inj free sub by (simp add: inj_on_insert) blast
  moreover have "template_Name ` (insert t ?D - ?D) \<inter> taken ?r = {}" using free by auto
  ultimately show ?thesis using mono by (simp add: takes_free_names_def routes_ok_def subset_insertI)
qed

lemma refused_takes:
  assumes "routes_ok s" and "add res (registry_state s) = (r', ok)"
  shows "takes_free_names s (s\<lparr>registry_state := r'\<rparr>)"
proof -
  have "taken (registry_state s) \<subseteq> taken r'" using taken_mono [of "registry_state s" res] assms(2) by simp
  with assms(1) show ?thesis by (auto simp: takes_free_names_def routes_ok_def subset_iff)
qed

lemma added_takes:
  assumes "routes_ok s" and "scatter_added t m add dev s = Return s'"
  shows "takes_free_names s s'"
  using assms(2)
proof (cases rule: scatter_added_cases)
  case unchanged
  with assms(1) show ?thesis by (simp add: takes_free_names_refl)
next
  case (resubmitted d k "is" res)
  with assms(1) show ?thesis by (simp add: resubmitted_takes)
next
  case (accepted d k "is" m r')
  with assms(1) show ?thesis by (simp add: accepted_takes)
next
  case (refused d k m r')
  with assms(1) show ?thesis by (simp add: refused_takes)
qed

lemma removed_takes:
  assumes "routes_ok s" and "scatter_removed t m dev s = Return s'"
  shows "takes_free_names s s'"
  using assms(2)
proof (cases rule: scatter_removed_cases)
  case unchanged
  with assms(1) show ?thesis by (simp add: takes_free_names_refl)
next
  case (resubmitted d k "is" res)
  with assms(1) show ?thesis by (simp add: resubmitted_takes)
qed

lemma init_takes: "routes_ok s \<Longrightarrow> scatter_init t m add ds s = Return s' \<Longrightarrow> takes_free_names s s'"
proof (induction ds arbitrary: s)
  case (Cons d ds)
  from Cons.prems(2) obtain s1 where s1: "scatter_added t m add (Some d) s = Return s1"
    and rest: "scatter_init t m add ds s1 = Return s'" by (auto simp: bind_outcome_Return_iff)
  have first: "takes_free_names s s1" by (rule added_takes [OF Cons.prems(1) s1])
  show ?case
    by (rule takes_free_names_trans [OF first Cons.IH [OF takes_free_names_ok [OF first] rest]])
qed (simp add: takes_free_names_refl)

lemma event_takes: "routes_ok s \<Longrightarrow> scatter_event t m add e s = Return s' \<Longrightarrow> takes_free_names s s'"
  by (cases e) (auto intro: init_takes added_takes removed_takes)

end

section \<open>A registry whose external calls succeed\<close>

text \<open>
  Such a registry refuses a resource only because its name is taken, and a refusal changes no name.
\<close>

locale reliable_registry = resource_registry add taken
    for add :: "resource \<Rightarrow> 'r \<Rightarrow> 'r \<times> bool" and taken :: "'r \<Rightarrow> string set" +
  assumes accept_fresh: "res_Name res \<notin> taken r \<Longrightarrow> snd (add res r)"
    and taken_exact: "taken (fst (add res r)) = (if snd (add res r) then insert (res_Name res) (taken r) else taken r)"

text \<open>A registry that accepts everything, for a scatter on its own.\<close>

definition always_add :: "unit registry_add" where
  "always_add res u = ((), True)"

definition alone :: "'r scatter \<Rightarrow> unit scatter" where
  "alone s = \<lparr>routes = routes s, registry_state = ()\<rparr>"

lemma alone_simps [simp]:
  "routes (alone s) = routes s" "alone (s\<lparr>registry_state := r\<rparr>) = alone s"
  "alone (s\<lparr>routes := rts\<rparr>) = (alone s)\<lparr>routes := rts\<rparr>"
  by (simp_all add: alone_def)

lemma alone_new [simp]: "alone (new_scatter r) = new_scatter ()"
  by (simp add: alone_def new_scatter_def)

lemma removed_alone:
  "scatter_removed tm mp dev s = Return s' \<Longrightarrow> scatter_removed tm mp dev (alone s) = Return (alone s')"
  by (auto simp: scatter_removed_def split: option.splits sum.splits elim!: bind_outcome_ReturnE)

lemma added_alone:
  assumes "scatter_added tm mp add dev s = Return s'"
    and "\<And>d k m. tm d = Return (Inr (Some k)) \<Longrightarrow> routes s k = None \<Longrightarrow> snd (add (newResource k m) (registry_state s))"
  shows "scatter_added tm mp always_add dev (alone s) = Return (alone s')"
proof (cases dev)
  case None
  with assms(1) show ?thesis by (simp add: scatter_added_def)
next
  case (Some d)
  show ?thesis
  proof (cases "\<exists>k is. tm d = Return (Inr (Some k)) \<and> mp d = Return (Inr is)")
    case False
    with assms(1) Some show ?thesis
      by (auto simp: scatter_added_def split: sum.splits option.splits elim!: bind_outcome_ReturnE)
  next
    case True
    then obtain k "is" where match: "tm d = Return (Inr (Some k))" "mp d = Return (Inr is)" by blast
    let ?res = "newResource k (store_all inst_Id (\<lambda>i. i) is Map.empty)"
    obtain r' ok where add: "add ?res (registry_state s) = (r', ok)" by (cases "add ?res (registry_state s)")
    show ?thesis
    proof (cases "routes s k")
      case res: (Some res)
      with assms(1) Some match show ?thesis by (auto simp: scatter_added_def)
    next
      case None
      with assms(2) [OF match(1) None, of "store_all inst_Id (\<lambda>i. i) is Map.empty"] add have ok by simp
      with assms(1) Some match None add show ?thesis
        by (auto simp: scatter_added_def always_add_def alone_def)
    qed
  qed
qed

text \<open>The names that a templater makes are different and nobody else's.\<close>

definition made_templates :: "templater \<Rightarrow> resource_template set" where
  "made_templates tm = {k. \<exists>d. tm d = Return (Inr (Some k))}"

definition exclusive :: "templater \<Rightarrow> string set \<Rightarrow> bool" where
  "exclusive tm others \<longleftrightarrow> inj_on template_Name (made_templates tm) \<and>
     template_Name ` made_templates tm \<inter> others = {}"

context reliable_registry
begin

definition accounted :: "templater \<Rightarrow> string set \<Rightarrow> 'r scatter \<Rightarrow> bool" where
  "accounted tm others s \<longleftrightarrow> dom (routes s) \<subseteq> made_templates tm \<and>
     taken (registry_state s) \<subseteq> template_Name ` dom (routes s) \<union> others"

lemma exclusive_accepts:
  assumes "exclusive tm others" and "accounted tm others s" and "tm d = Return (Inr (Some k))"
    and "routes s k = None"
  shows "snd (add (newResource k m) (registry_state s))"
proof (rule accept_fresh, rule notI)
  have k: "k \<in> made_templates tm" using assms(3) by (auto simp: made_templates_def)
  assume "res_Name (newResource k m) \<in> taken (registry_state s)"
  moreover have "template_Name k \<notin> others" using assms(1) k by (auto simp: exclusive_def)
  ultimately have "template_Name k \<in> template_Name ` dom (routes s)"
    using assms(2) by (auto simp: accounted_def subset_iff)
  then obtain k' where k': "k' \<in> dom (routes s)" "template_Name k' = template_Name k" by force
  moreover from k'(1) assms(2) have "k' \<in> made_templates tm" by (auto simp: accounted_def)
  ultimately have "k' = k" using assms(1) k by (auto simp: exclusive_def dest: inj_onD)
  with k'(1) assms(4) show False by auto
qed

lemma added_accounted:
  assumes acc: "accounted tm others s" and added: "scatter_added tm mp add dev s = Return s'"
  shows "accounted tm others s'"
  using added
proof (cases rule: scatter_added_cases)
  case (resubmitted d k "is" res)
  moreover from this have "insert k (dom (routes s)) = dom (routes s)" by auto
  ultimately show ?thesis using acc by (simp add: accounted_def)
next
  case (accepted d k "is" m r')
  then have "taken r' = insert (template_Name k) (taken (registry_state s))"
    using taken_exact [of "newResource k m" "registry_state s"] by simp
  moreover have "k \<in> made_templates tm" using accepted(1) by (auto simp: made_templates_def)
  ultimately show ?thesis using acc accepted by (auto simp: accounted_def)
next
  case (refused d k m r')
  then have "taken r' = taken (registry_state s)"
    using taken_exact [of "newResource k m" "registry_state s"] by simp
  with acc refused show ?thesis by (simp add: accounted_def)
qed (use acc in simp)

lemma removed_accounted:
  assumes acc: "accounted tm others s" and removed: "scatter_removed tm mp dev s = Return s'"
  shows "accounted tm others s'"
  using removed
proof (cases rule: scatter_removed_cases)
  case (resubmitted d k "is" res)
  moreover from this have "insert k (dom (routes s)) = dom (routes s)" by auto
  ultimately show ?thesis using acc by (simp add: accounted_def)
qed (use acc in simp)

lemma init_accounted:
  "accounted tm others s \<Longrightarrow> scatter_init tm mp add ds s = Return s' \<Longrightarrow> accounted tm others s'"
proof (induction ds arbitrary: s)
  case (Cons d ds)
  from Cons.prems(2) obtain s1 where s1: "scatter_added tm mp add (Some d) s = Return s1"
    and rest: "scatter_init tm mp add ds s1 = Return s'" by (auto elim!: bind_outcome_ReturnE)
  from added_accounted [OF Cons.prems(1) s1] rest show ?case by (rule Cons.IH)
qed simp

lemma event_accounted:
  "accounted tm others s \<Longrightarrow> scatter_event tm mp add e s = Return s' \<Longrightarrow> accounted tm others s'"
  by (cases e) (auto intro: init_accounted added_accounted removed_accounted)

lemma init_alone:
  assumes excl: "exclusive tm others"
  shows "accounted tm others s \<Longrightarrow> scatter_init tm mp add ds s = Return s' \<Longrightarrow>
    scatter_init tm mp always_add ds (alone s) = Return (alone s')"
proof (induction ds arbitrary: s)
  case (Cons d ds)
  from Cons.prems(2) obtain s1 where s1: "scatter_added tm mp add (Some d) s = Return s1"
    and rest: "scatter_init tm mp add ds s1 = Return s'" by (auto elim!: bind_outcome_ReturnE)
  have "scatter_added tm mp always_add (Some d) (alone s) = Return (alone s1)"
    by (rule added_alone [OF s1]) (rule exclusive_accepts [OF excl Cons.prems(1)])
  with Cons.IH [OF added_accounted [OF Cons.prems(1) s1] rest] show ?case by simp
qed simp

text \<open>A scatter whose names nobody else takes acts as it would on its own.\<close>

lemma event_alone:
  assumes excl: "exclusive tm others" and acc: "accounted tm others s"
    and event: "scatter_event tm mp add e s = Return s'"
  shows "scatter_event tm mp always_add e (alone s) = Return (alone s')"
proof (cases e)
  case (Init ds)
  with init_alone [OF excl acc] event show ?thesis by simp
next
  case (Added d)
  with event have "scatter_added tm mp add (Some d) s = Return s'" by simp
  from added_alone [OF this exclusive_accepts [OF excl acc]] Added show ?thesis by simp
next
  case (Removed d)
  with removed_alone event show ?thesis by fastforce
qed

end

text \<open>The registry with external calls that succeed.\<close>

definition reliable :: "reg_env \<Rightarrow> reg_env" where
  "reliable env = env\<lparr>env_remove_fails := \<lambda>_. False, env_listen_fails := \<lambda>_. False,
     env_register_fails := \<lambda>_. False\<rparr>"

lemma nothing_fails_reliable: "nothing_fails env \<Longrightarrow> reliable env = env"
  unfolding reliable_def nothing_fails_def by (cases env) (simp add: fun_eq_iff)

lemma reliable_Add:
  "registry_Add (reliable env) res r =
     (case reg_plugins r (res_Name res) of
        Some _ \<Rightarrow> (started (reliable env) res r, Some (AlreadyExists (res_Name res)))
      | None \<Rightarrow> register (reliable env) (new_handle (reliable env) res r)
          ((started (reliable env) res r)\<lparr>reg_plugins := (reg_plugins r)(res_Name res \<mapsto> new_handle (reliable env) res r)\<rparr>))"
proof -
  have "newPlugin (reliable env) res r = (started (reliable env) res r, Inr (new_handle (reliable env) res r))"
    by (rule newPlugin_started) (simp_all add: reliable_def)
  then show ?thesis by (simp add: registry_Add_def split: option.split)
qed

lemma reliable_register: "snd (register (reliable env) p r) = None"
  by (simp add: register_def reliable_def Let_def)

interpretation reliable: reliable_registry "registry_add (reliable env)" "\<lambda>r. dom (reg_plugins r)" for env
proof unfold_locales
  fix res :: resource and r
  let ?out = "registry_add (reliable env) res r"
  show "snd ?out" if "res_Name res \<notin> dom (reg_plugins r)"
    using that by (auto simp: registry_add_def reliable_Add reliable_register Let_def split: option.split)
  show "dom (reg_plugins (fst ?out)) =
      (if snd ?out then insert (res_Name res) (dom (reg_plugins r)) else dom (reg_plugins r))"
    by (auto simp: registry_add_def reliable_Add reliable_register Let_def split: option.split)
qed

end
