(* ===== verification/App_Main.thy ===== *)
theory App_Main
  imports App_Config Plugin_Batch Plugin_Names
begin

text \<open>
  The wiring of \<open>startApp\<close> in \<open>cmd/udev-manager/main.go\<close>: one pipeline per entry of the
  configuration, all on one registry, and the cleanup function that cancels their subscriptions.
  The pipelines then handle their events concurrently; every interleaving is a run of \<open>app_step\<close>.
\<close>

section \<open>Pipelines\<close>

text \<open>
  A scatter with its routes, or a batch; \<open>NoPipeline\<close> is a batch whose resource the registry
  refused, which has no goroutine and no subscription.
\<close>

datatype pipeline =
    ScatterPipeline templater mapper "resource_template \<rightharpoonup> resource"
  | BatchPipeline regexp batch
  | NoPipeline

record app =
  app_registry :: registry
  app_pipelines :: "pipeline list"
  app_cancelled :: "nat list"

text \<open>The application under construction with the cleanup function built so far.\<close>

type_synonym started_app = "app \<times> (app \<Rightarrow> app)"

text \<open>The cancel function that the subscription of pipeline \<open>n\<close> returned.\<close>

definition cancel_subscription :: "nat \<Rightarrow> app \<Rightarrow> app" where
  "cancel_subscription n a = a\<lparr>app_cancelled := app_cancelled a @ [n]\<rparr>"

definition pipeline_cancel :: "pipeline \<Rightarrow> nat \<Rightarrow> app \<Rightarrow> app" where
  "pipeline_cancel p n = (case p of NoPipeline \<Rightarrow> (\<lambda>a. a) | _ \<Rightarrow> cancel_subscription n)"

definition chain_pipeline :: "pipeline \<Rightarrow> registry \<Rightarrow> started_app \<Rightarrow> started_app" where
  "chain_pipeline p r st =
     (let (a, cancel) = st
      in (a\<lparr>app_registry := r, app_pipelines := app_pipelines a @ [p]\<rparr>,
          ChainCancelFunc (pipeline_cancel p (length (app_pipelines a))) cancel []))"

section \<open>The loops of \<open>startApp\<close>\<close>

text \<open>Validated entries have their matcher; the model reads it as the code dereferences it.\<close>

definition effective_domain :: "string \<Rightarrow> string \<Rightarrow> string" where
  "effective_domain override domain = (if override = [] then domain else override)"

definition start_partition :: "appConfig \<Rightarrow> partitionsConfig \<Rightarrow> started_app \<Rightarrow> started_app" where
  "start_partition c pc st =
     (let partDomain = effective_domain (pc_DomainOverride pc) (DeviceDomain c);
          m = the (pc_matcher pc)
      in chain_pipeline (ScatterPipeline (PartitionLabelMatcherTemplater partDomain m)
           (as_insts PartitionInstance (PartitionLabelMatcherInstances partDomain m (DisableTopologyHints c)))
           Map.empty) (app_registry (fst st)) st)"

definition start_batch ::
    "reg_env \<Rightarrow> appConfig \<Rightarrow> batchPartitionsConfig \<Rightarrow> started_app \<Rightarrow> started_app outcome" where
  "start_batch env c bc st =
     bind_outcome (NewBatchPartitionScatter (registry_add env)
         (effective_domain (bc_DomainOverride bc) (DeviceDomain c)) (bc_Name bc) (sint (bc_Count bc))
         (app_registry (fst st)))
       (\<lambda>(r, made). Return (chain_pipeline
          (case made of None \<Rightarrow> NoPipeline | Some b \<Rightarrow> BatchPipeline (the (bc_matcher bc)) b) r st))"

definition start_netbw :: "appConfig \<Rightarrow> netBWConfig \<Rightarrow> started_app \<Rightarrow> started_app" where
  "start_netbw c nbc st =
     chain_pipeline (ScatterPipeline (NetBWMatcherTemplater (DeviceDomain c) (the (nbc_matcher nbc)))
       (as_insts BandwidthInstance
         (NetBWMatcherInstances (DeviceDomain c) (the (nbc_matcher nbc)) (nbc_MbpsPerShare nbc)))
       Map.empty) (app_registry (fst st)) st"

text \<open>The unsigned resource count is converted to \<open>int\<close> with wrap-around.\<close>

definition start_netrdma :: "rdmamap \<Rightarrow> appConfig \<Rightarrow> netRdmaConfig \<Rightarrow> started_app \<Rightarrow> started_app" where
  "start_netrdma rdma c nrc st =
     chain_pipeline (ScatterPipeline (NetRdmaMatcherTemplater (DeviceDomain c) (the (nrc_matcher nrc)))
       (as_insts RdmaInstance
         (NetRdmaMatcherInstances rdma (DeviceDomain c) (the (nrc_matcher nrc)) (sint (nrc_ResourceCount nrc))))
       Map.empty) (app_registry (fst st)) st"

datatype entry =
    PartitionEntry partitionsConfig
  | BatchEntry batchPartitionsConfig
  | NetBWEntry netBWConfig
  | NetRdmaEntry netRdmaConfig

text \<open>The order in which the four loops visit the entries; the host devices are in none of them.\<close>

definition config_entries :: "appConfig \<Rightarrow> entry list" where
  "config_entries c = map PartitionEntry (Partitions c) @ map BatchEntry (BatchPartitions c) @
     map NetBWEntry (NetworkBandwidth c) @ map NetRdmaEntry (NetworkRdma c)"

fun start_entry :: "reg_env \<Rightarrow> rdmamap \<Rightarrow> appConfig \<Rightarrow> entry \<Rightarrow> started_app \<Rightarrow> started_app outcome" where
  "start_entry env rdma c (PartitionEntry pc) st = Return (start_partition c pc st)"
| "start_entry env rdma c (BatchEntry bc) st = start_batch env c bc st"
| "start_entry env rdma c (NetBWEntry nbc) st = Return (start_netbw c nbc st)"
| "start_entry env rdma c (NetRdmaEntry nrc) st = Return (start_netrdma rdma c nrc st)"

fun start_entries :: "reg_env \<Rightarrow> rdmamap \<Rightarrow> appConfig \<Rightarrow> entry list \<Rightarrow> started_app \<Rightarrow> started_app outcome" where
  "start_entries env rdma c [] st = Return st"
| "start_entries env rdma c (e # es) st =
     bind_outcome (start_entry env rdma c e st) (start_entries env rdma c es)"

definition empty_app :: "registry \<Rightarrow> started_app" where
  "empty_app registry = (\<lparr>app_registry = registry, app_pipelines = [], app_cancelled = []\<rparr>, \<lambda>a. a)"

text \<open>The only error of \<open>startApp\<close> is that of \<open>NewRegistry\<close>.\<close>

definition startApp :: "reg_env \<Rightarrow> rdmamap \<Rightarrow> appConfig \<Rightarrow> (reg_error + started_app) outcome" where
  "startApp env rdma c =
     (case NewRegistry env of
        Inl err \<Rightarrow> Return (Inl err)
      | Inr registry \<Rightarrow> bind_outcome (start_entries env rdma c (config_entries c) (empty_app registry))
          (\<lambda>st. Return (Inr st)))"

section \<open>The running application\<close>

text \<open>The goroutine of pipeline \<open>n\<close> handles one event.\<close>

definition pipeline_event :: "reg_env \<Rightarrow> nat \<Rightarrow> event \<Rightarrow> app \<Rightarrow> app outcome" where
  "pipeline_event env n ev a =
     (case app_pipelines a ! n of
        ScatterPipeline t m rts \<Rightarrow>
          bind_outcome (scatter_event t m (registry_add env) ev
              \<lparr>routes = rts, registry_state = app_registry a\<rparr>)
            (\<lambda>s. Return (a\<lparr>app_registry := registry_state s,
               app_pipelines := (app_pipelines a)[n := ScatterPipeline t m (routes s)]\<rparr>))
      | BatchPipeline m b \<Rightarrow>
          Return (a\<lparr>app_pipelines := (app_pipelines a)[n := BatchPipeline m (batch_event m ev b)]\<rparr>)
      | NoPipeline \<Rightarrow> Return a)"

text \<open>
  A step starts the next entry, lets a started pipeline handle an event while \<open>startApp\<close> may still
  be running, handles an event of the file watcher, ends a plugin server, or runs the cleanup function
  that \<open>startApp\<close> returned. An \<open>Init\<close> can also be taken as its devices
  added one by one, so other goroutines may run between two of them.
\<close>

datatype app_label = Starts entry | Handles nat event | Watches bool string "string list"
  | ServerExits nat | CleansUp

inductive app_step :: "reg_env \<Rightarrow> rdmamap \<Rightarrow> appConfig \<Rightarrow> entry list \<times> started_app \<Rightarrow> app_label \<Rightarrow>
    entry list \<times> started_app \<Rightarrow> bool" for env rdma c where
  step_start: "start_entry env rdma c e st = Return st' \<Longrightarrow>
    app_step env rdma c (e # es, st) (Starts e) (es, st')"
| step_event: "n < length (app_pipelines a) \<Longrightarrow> pipeline_event env n ev a = Return a' \<Longrightarrow>
    app_step env rdma c (es, (a, cancel)) (Handles n ev) (es, (a', cancel))"
| step_watch: "app_step env rdma c (es, (a, cancel)) (Watches create name keys)
    (es, (a\<lparr>app_registry := watch_event env create name keys (app_registry a)\<rparr>, cancel))"
| step_exit: "app_step env rdma c (es, (a, cancel)) (ServerExits n)
    (es, (a\<lparr>app_registry := server_exit n (app_registry a)\<rparr>, cancel))"
| step_cleanup: "app_step env rdma c ([], (a, cancel)) CleansUp ([], (cancel a, cancel))"

inductive app_reachable :: "reg_env \<Rightarrow> rdmamap \<Rightarrow> appConfig \<Rightarrow> entry list \<times> started_app \<Rightarrow> bool"
  for env rdma c where
  reach_empty: "app_reachable env rdma c (config_entries c, empty_app empty_registry)"
| reach_step: "app_reachable env rdma c x \<Longrightarrow> app_step env rdma c x l y \<Longrightarrow> app_reachable env rdma c y"

text \<open>The same runs with the steps they took, oldest first.\<close>

inductive app_trace :: "reg_env \<Rightarrow> rdmamap \<Rightarrow> appConfig \<Rightarrow> app_label list \<Rightarrow>
    entry list \<times> started_app \<Rightarrow> bool" for env rdma c where
  trace_empty: "app_trace env rdma c [] (config_entries c, empty_app empty_registry)"
| trace_snoc: "app_trace env rdma c ls x \<Longrightarrow> app_step env rdma c x l y \<Longrightarrow>
    app_trace env rdma c (ls @ [l]) y"

lemma app_trace_reachable: "app_trace env rdma c ls x \<Longrightarrow> app_reachable env rdma c x"
  by (induction rule: app_trace.induct) (auto intro: reach_empty reach_step)

lemma app_reachable_trace: "app_reachable env rdma c x \<Longrightarrow> \<exists>ls. app_trace env rdma c ls x"
  by (induction rule: app_reachable.induct) (auto intro: trace_empty trace_snoc)

lemma start_entries_reachable:
  "app_reachable env rdma c (es @ fs, st) \<Longrightarrow> start_entries env rdma c es st = Return st' \<Longrightarrow>
   app_reachable env rdma c (fs, st')"
proof (induction es arbitrary: st)
  case (Cons e es)
  from Cons.prems(2) obtain st1 where "start_entry env rdma c e st = Return st1"
    and "start_entries env rdma c es st1 = Return st'" by (auto simp: bind_outcome_Return_iff)
  from Cons.prems(1) this(1) have "app_reachable env rdma c (es @ fs, st1)"
    by (auto intro: reach_step step_start)
  then show ?case by (rule Cons.IH) fact
qed simp

lemma startApp_reachable:
  "startApp env rdma c = Return (Inr st) \<Longrightarrow> app_reachable env rdma c ([], st)"
  using start_entries_reachable [of env rdma c "config_entries c" "[]" "empty_app empty_registry"]
  by (auto simp: startApp_def NewRegistry_def Let_def bind_outcome_Return_iff intro: reach_empty
      split: sum.splits if_splits)

end
