(* ===== verification/App_Runs.thy ===== *)
theory App_Runs
  imports App_Main
begin

text \<open>
  The application as a whole: an accepted configuration starts with one pipeline per entry, the
  cleanup cancels them newest first, and no two pipelines ever serve a resource of one name.
\<close>

section \<open>The names a pipeline serves\<close>

fun pipeline_names :: "pipeline \<Rightarrow> string set" where
  "pipeline_names (ScatterPipeline t m rts) = template_Name ` dom rts"
| "pipeline_names (BatchPipeline m b) = {res_Name (bt_res b)}"
| "pipeline_names NoPipeline = {}"

fun routes_distinct :: "pipeline \<Rightarrow> bool" where
  "routes_distinct (ScatterPipeline t m rts) = inj_on template_Name (dom rts)"
| "routes_distinct p = True"

definition owned_once :: "string set \<Rightarrow> pipeline list \<Rightarrow> bool" where
  "owned_once T ps \<longleftrightarrow> list_all routes_distinct ps \<and> (\<forall>i < length ps. pipeline_names (ps ! i) \<subseteq> T) \<and>
     (\<forall>i < length ps. \<forall>j < length ps. i \<noteq> j \<longrightarrow> pipeline_names (ps ! i) \<inter> pipeline_names (ps ! j) = {})"

lemma owned_once_names: "owned_once T ps \<Longrightarrow> i < length ps \<Longrightarrow> pipeline_names (ps ! i) \<subseteq> T"
  by (simp add: owned_once_def)

lemma owned_once_routes: "owned_once T ps \<Longrightarrow> i < length ps \<Longrightarrow> routes_distinct (ps ! i)"
  by (simp add: owned_once_def list_all_length)

lemma owned_once_disjoint:
  "owned_once T ps \<Longrightarrow> i < length ps \<Longrightarrow> j < length ps \<Longrightarrow> i \<noteq> j \<Longrightarrow>
   pipeline_names (ps ! i) \<inter> pipeline_names (ps ! j) = {}"
  by (simp add: owned_once_def)

lemma owned_once_empty: "owned_once T []"
  by (simp add: owned_once_def)

lemma owned_once_update:
  assumes own: "owned_once T ps" and n: "n < length ps" and p: "routes_distinct p"
    and mono: "T \<subseteq> T'" "pipeline_names p \<subseteq> T'"
    and fresh: "(pipeline_names p - pipeline_names (ps ! n)) \<inter> T = {}"
  shows "owned_once T' (ps[n := p])"
proof -
  have apart: "pipeline_names p \<inter> pipeline_names (ps ! i) = {}" if "i < length ps" "i \<noteq> n" for i
    using fresh owned_once_names [OF own that(1)] owned_once_disjoint [OF own n that(1)] that(2) by blast
  have "list_all routes_distinct (ps[n := p])"
    using own p n by (auto simp: list_all_length owned_once_def nth_list_update)
  moreover have "pipeline_names (ps[n := p] ! i) \<subseteq> T'" if "i < length ps" for i
    using owned_once_names [OF own that] mono n by (cases "i = n") auto
  moreover have "pipeline_names (ps[n := p] ! i) \<inter> pipeline_names (ps[n := p] ! j) = {}"
    if "i < length ps" "j < length ps" "i \<noteq> j" for i j
    using that apart [of i] apart [of j] owned_once_disjoint [OF own that] n
    by (cases "i = n"; cases "j = n") (simp_all add: Int_commute)
  ultimately show ?thesis by (simp add: owned_once_def)
qed

lemma owned_once_append:
  assumes own: "owned_once T ps" and p: "routes_distinct p"
    and mono: "T \<subseteq> T'" "pipeline_names p \<subseteq> T'" and fresh: "pipeline_names p \<inter> T = {}"
  shows "owned_once T' (ps @ [p])"
proof -
  have apart: "pipeline_names p \<inter> pipeline_names (ps ! i) = {}" if "i < length ps" for i
    using fresh owned_once_names [OF own that] by blast
  have "list_all routes_distinct (ps @ [p])" using own p by (simp add: owned_once_def)
  moreover have "pipeline_names ((ps @ [p]) ! i) \<subseteq> T'" if "i < Suc (length ps)" for i
    using that owned_once_names [OF own, of i] mono by (cases "i = length ps") (auto simp: nth_append)
  moreover have "pipeline_names ((ps @ [p]) ! i) \<inter> pipeline_names ((ps @ [p]) ! j) = {}"
    if "i < Suc (length ps)" "j < Suc (length ps)" "i \<noteq> j" for i j
    using that apart [of i] apart [of j] owned_once_disjoint [OF own, of i j]
    by (cases "i = length ps"; cases "j = length ps") (simp_all add: nth_append Int_commute)
  ultimately show ?thesis by (simp add: owned_once_def)
qed

section \<open>Every step keeps them apart\<close>

abbreviation taken_names :: "registry \<Rightarrow> string set" where
  "taken_names r \<equiv> dom (reg_plugins r)"

definition app_ok :: "app \<Rightarrow> bool" where
  "app_ok a \<longleftrightarrow> owned_once (taken_names (app_registry a)) (app_pipelines a)"

lemma chain_pipeline_ok:
  assumes "app_ok (fst st)" and "routes_distinct p"
    and "taken_names (app_registry (fst st)) \<subseteq> taken_names r"
    and "pipeline_names p \<subseteq> taken_names r" and "pipeline_names p \<inter> taken_names (app_registry (fst st)) = {}"
  shows "app_ok (fst (chain_pipeline p r st))"
  using owned_once_append [OF _ assms(2-5)] assms(1)
  by (simp add: app_ok_def chain_pipeline_def case_prod_beta)

lemma NewBatch_cases:
  assumes "NewBatchPartitionScatter add domain name count r = Return (r', made)"
  obtains (accepted) b where "made = Some b" and "add (bt_res b) r = (r', True)"
      and "res_template (bt_res b) = \<lparr>Domain = domain, Prefix = ''batch-'' @ name\<rparr>"
  | (refused) res where "made = None" and "add res r = (r', False)"
proof -
  from assms obtain seats where seats: "make_instances interface_size batch_seat count = Return seats"
    unfolding NewBatchPartitionScatter_def by (auto elim: bind_outcome_ReturnE)
  let ?res = "newResource \<lparr>Domain = domain, Prefix = ''batch-'' @ name\<rparr>
    (store_all inst_Id (\<lambda>i. i) seats Map.empty)"
  obtain r1 ok where add: "add ?res r = (r1, ok)" by (cases "add ?res r")
  show thesis
  proof (cases ok)
    case True
    let ?b = "\<lparr>bt_pool = new_pool domain, bt_res = ?res, bt_seats = seats\<rparr>"
    from True assms seats add have "r1 = r'" "made = Some ?b"
      by (simp_all add: NewBatchPartitionScatter_def)
    with True add show thesis by (intro accepted [of ?b]) (simp_all add: newResource_def)
  next
    case False
    with assms seats add have "r1 = r'" "made = None" by (simp_all add: NewBatchPartitionScatter_def)
    with False add show thesis by (intro refused) simp_all
  qed
qed

lemma NewBatch_returns:
  "0 \<le> count \<Longrightarrow> interface_size * count \<le> maxAlloc \<Longrightarrow> \<exists>r' made. NewBatchPartitionScatter add domain name count r = Return (r', made)"
  by (simp add: NewBatchPartitionScatter_def make_instances_Return Let_def case_prod_beta)

lemma batch_event_name: "res_Name (bt_res (batch_event matcher e b)) = res_Name (bt_res b)"
  by (cases e) (auto simp: Let_def batch_submit_def res_Submit_def res_Name_def split: option.split)

lemma start_entry_ok:
  assumes ok: "app_ok (fst st)" and start: "start_entry env rdma c e st = Return st'"
  shows "app_ok (fst st')"
proof (cases e)
  case (BatchEntry bc)
  with start obtain r made where
    new: "NewBatchPartitionScatter (registry_add env) (effective_domain (bc_DomainOverride bc) (DeviceDomain c))
        (bc_Name bc) (sint (bc_Count bc)) (app_registry (fst st)) = Return (r, made)"
    and st': "st' = chain_pipeline
        (case made of None \<Rightarrow> NoPipeline | Some b \<Rightarrow> BatchPipeline (the (bc_matcher bc)) b) r st"
    by (auto simp: start_batch_def elim!: bind_outcome_ReturnE)
  from new show ?thesis
  proof (cases rule: NewBatch_cases)
    case (accepted b)
    then have "res_Name (bt_res b) \<notin> taken_names (app_registry (fst st))"
      and "res_Name (bt_res b) \<in> taken_names r" and "taken_names (app_registry (fst st)) \<subseteq> taken_names r"
      using registry.add_taken [of "bt_res b" "app_registry (fst st)" env]
        registry.add_accepted [of env "bt_res b" "app_registry (fst st)"]
        registry.taken_mono [of "app_registry (fst st)" env "bt_res b"] by auto
    with ok show ?thesis unfolding st' accepted(1) by (intro chain_pipeline_ok) simp_all
  next
    case (refused res)
    then have "taken_names (app_registry (fst st)) \<subseteq> taken_names r"
      using registry.taken_mono [of "app_registry (fst st)" env res] by simp
    with ok show ?thesis unfolding st' refused(1) by (intro chain_pipeline_ok) simp_all
  qed
qed (use assms in \<open>auto simp: start_partition_def start_netbw_def start_netrdma_def Let_def
  intro!: chain_pipeline_ok\<close>)

lemma pipeline_event_ok:
  assumes ok: "app_ok a" and n: "n < length (app_pipelines a)" and ev: "pipeline_event env n ev a = Return a'"
  shows "app_ok a'"
proof (cases "app_pipelines a ! n")
  case p: (ScatterPipeline t m rts)
  let ?r = "app_registry a"
  from ev p obtain s where
    s: "scatter_event t m (registry_add env) ev \<lparr>routes = rts, registry_state = ?r\<rparr> = Return s"
    and a': "a' = a\<lparr>app_registry := registry_state s,
        app_pipelines := (app_pipelines a)[n := ScatterPipeline t m (routes s)]\<rparr>"
    by (auto simp: pipeline_event_def elim!: bind_outcome_ReturnE)
  note own = ok [unfolded app_ok_def]
  have "registry.routes_ok \<lparr>routes = rts, registry_state = ?r\<rparr>"
    using owned_once_names [OF own n] owned_once_routes [OF own n] p by (simp add: registry.routes_ok_def)
  from registry.event_takes [OF this s]
  have takes: "inj_on template_Name (dom (routes s))"
      "template_Name ` dom (routes s) \<subseteq> taken_names (registry_state s)"
      "taken_names ?r \<subseteq> taken_names (registry_state s)"
      "template_Name ` (dom (routes s) - dom rts) \<inter> taken_names ?r = {}"
    unfolding registry.takes_free_names_def registry.routes_ok_def by simp_all
  have "owned_once (taken_names (registry_state s))
      ((app_pipelines a)[n := ScatterPipeline t m (routes s)])"
  proof (rule owned_once_update [OF own n])
    have "template_Name ` dom (routes s) - template_Name ` dom rts \<subseteq> template_Name ` (dom (routes s) - dom rts)"
      by blast
    with takes(4) show "(pipeline_names (ScatterPipeline t m (routes s)) -
        pipeline_names (app_pipelines a ! n)) \<inter> taken_names ?r = {}"
      unfolding p pipeline_names.simps by blast
  qed (use takes in simp_all)
  then show ?thesis by (simp add: app_ok_def a')
next
  case p: (BatchPipeline m b)
  note own = ok [unfolded app_ok_def]
  have "owned_once (taken_names (app_registry a)) ((app_pipelines a)[n := BatchPipeline m (batch_event m ev b)])"
    by (rule owned_once_update [OF own n]) (use owned_once_names [OF own n] p in \<open>auto simp: batch_event_name\<close>)
  with ev p show ?thesis by (auto simp: app_ok_def pipeline_event_def)
next
  case NoPipeline
  with ev ok show ?thesis by (simp add: pipeline_event_def)
qed

lemma hup_one_names: "taken_names (hup_one env k r) = taken_names r"
proof (cases "reg_plugins r k")
  case (Some old)
  have same: "reg_plugins (plugin_stop old r) = reg_plugins r" by (simp add: plugin_stop_def)
  show ?thesis
    by (cases rule: newPlugin_cases [of env "plug_resource old" "plugin_stop old r"])
      (auto simp: hup_one_def Some same)
qed (simp add: hup_one_def)

lemma hup_names: "taken_names (hup env ks r) = taken_names r"
  by (induction ks arbitrary: r) (simp_all add: hup_one_names)

lemma watch_names: "taken_names (watch_event env create name ks r) = taken_names r"
  by (simp add: watch_event_def hup_names)

section \<open>The cleanup function\<close>

text \<open>The cleanup function of an application in the making: newest subscription first.\<close>

definition subscriptions :: "pipeline list \<Rightarrow> nat list" where
  "subscriptions ps = filter (\<lambda>n. ps ! n \<noteq> NoPipeline) [0..<length ps]"

definition cleanup_ok :: "started_app \<Rightarrow> bool" where
  "cleanup_ok st \<longleftrightarrow> (\<forall>a. snd st a =
     a\<lparr>app_cancelled := app_cancelled a @ rev (subscriptions (app_pipelines (fst st)))\<rparr>)"

lemma subscriptions_snoc:
  "subscriptions (ps @ [p]) = subscriptions ps @ (if p = NoPipeline then [] else [length ps])"
  by (auto simp: subscriptions_def nth_append intro!: filter_cong)

lemma chain_pipeline_cleanup: "cleanup_ok st \<Longrightarrow> cleanup_ok (chain_pipeline p r st)"
  by (cases p)
    (simp_all add: cleanup_ok_def chain_pipeline_def case_prod_beta ChainCancelFunc_def
      pipeline_cancel_def cancel_subscription_def subscriptions_snoc)

lemma chain_pipeline_appends:
  "app_pipelines (fst (chain_pipeline p r st)) = app_pipelines (fst st) @ [p]"
  by (simp add: chain_pipeline_def case_prod_beta)

lemma start_entry_appends:
  assumes "start_entry env rdma c e st = Return st'"
  shows "\<exists>p r. st' = chain_pipeline p r st"
  using assms
  by (cases e) (auto simp: start_partition_def start_netbw_def start_netrdma_def start_batch_def Let_def
      elim!: bind_outcome_ReturnE)

lemma pipeline_event_shape:
  assumes "pipeline_event env n ev a = Return a'"
  obtains q r where "a' = a\<lparr>app_registry := r, app_pipelines := (app_pipelines a)[n := q]\<rparr>"
    and "q = NoPipeline \<longleftrightarrow> app_pipelines a ! n = NoPipeline"
proof (cases "app_pipelines a ! n")
  case (ScatterPipeline tm mp rts)
  with assms obtain s where
    "scatter_event tm mp (registry_add env) ev \<lparr>routes = rts, registry_state = app_registry a\<rparr> = Return s"
    and "a' = a\<lparr>app_registry := registry_state s,
      app_pipelines := (app_pipelines a)[n := ScatterPipeline tm mp (routes s)]\<rparr>"
    by (auto simp: pipeline_event_def elim!: bind_outcome_ReturnE)
  with ScatterPipeline show thesis
    by (intro that [of "ScatterPipeline tm mp (routes s)" "registry_state s"]) simp_all
next
  case (BatchPipeline m b)
  with assms have "a' = a\<lparr>app_registry := app_registry a,
      app_pipelines := (app_pipelines a)[n := BatchPipeline m (batch_event m ev b)]\<rparr>"
    by (simp add: pipeline_event_def)
  with BatchPipeline show thesis
    by (intro that [of "BatchPipeline m (batch_event m ev b)" "app_registry a"]) simp_all
next
  case NoPipeline
  then have "(app_pipelines a)[n := NoPipeline] = app_pipelines a" using list_update_id [of "app_pipelines a" n] by simp
  with NoPipeline assms show thesis
    by (intro that [of NoPipeline "app_registry a"]) (simp_all add: pipeline_event_def)
qed

lemma subscriptions_update:
  "(q = NoPipeline \<longleftrightarrow> ps ! n = NoPipeline) \<Longrightarrow> subscriptions (ps[n := q]) = subscriptions ps"
  unfolding subscriptions_def length_list_update
  by (rule filter_cong [OF refl]) (metis list_update_beyond not_le nth_list_update_eq nth_list_update_neq)

lemma pipeline_event_subscriptions:
  assumes "pipeline_event env n ev a = Return a'"
  shows "subscriptions (app_pipelines a') = subscriptions (app_pipelines a)" and "app_cancelled a' = app_cancelled a"
  using assms by (auto elim!: pipeline_event_shape simp: subscriptions_update)

lemma cleanup_okD: "cleanup_ok (a, cancel) \<Longrightarrow>
  cancel b = b\<lparr>app_cancelled := app_cancelled b @ rev (subscriptions (app_pipelines a))\<rparr>"
  by (simp add: cleanup_ok_def)

lemma app_step_cleanup: "app_step env rdma c x l y \<Longrightarrow> cleanup_ok (snd x) \<Longrightarrow> cleanup_ok (snd y)"
proof (induction rule: app_step.induct)
  case (step_start e st st' es)
  from start_entry_appends [OF step_start(1)] obtain p r where "st' = chain_pipeline p r st" by blast
  with step_start(2) show ?case by (simp add: chain_pipeline_cleanup)
next
  case (step_event n a ev a' es cancel)
  then show ?case by (simp add: cleanup_ok_def pipeline_event_subscriptions)
next
  case (step_cleanup a cancel)
  then show ?case using cleanup_okD [of a cancel a] by (simp add: cleanup_ok_def)
qed (simp_all add: cleanup_ok_def)

lemma app_reachable_cleanup: "app_reachable env rdma c x \<Longrightarrow> cleanup_ok (snd x)"
proof (induction rule: app_reachable.induct)
  case reach_empty
  show ?case by (simp add: cleanup_ok_def empty_app_def subscriptions_def)
next
  case (reach_step x l y)
  from reach_step.hyps(2) reach_step.IH show ?case by (rule app_step_cleanup)
qed

lemma app_step_ok:
  "app_step env rdma c x l y \<Longrightarrow> cleanup_ok (snd x) \<Longrightarrow> app_ok (fst (snd x)) \<Longrightarrow> app_ok (fst (snd y))"
proof (induction rule: app_step.induct)
  case (step_start e st st' es)
  then show ?case using start_entry_ok by simp
next
  case (step_event n a ev a' es cancel)
  then show ?case using pipeline_event_ok by simp
next
  case step_watch
  then show ?case by (simp add: app_ok_def watch_names)
next
  case (step_exit es a cancel n)
  then show ?case by (simp add: app_ok_def server_exit_def)
next
  case (step_cleanup a cancel)
  then show ?case using cleanup_okD [of a cancel a] by (simp add: app_ok_def)
qed

lemma app_reachable_ok: "app_reachable env rdma c x \<Longrightarrow> app_ok (fst (snd x))"
proof (induction rule: app_reachable.induct)
  case reach_empty
  show ?case by (simp add: app_ok_def empty_app_def owned_once_empty)
next
  case (reach_step x l y)
  from reach_step.hyps(2) app_reachable_cleanup [OF reach_step.hyps(1)] reach_step.IH
  show ?case by (rule app_step_ok)
qed

section \<open>What an accepted configuration starts\<close>

text \<open>
  The pipeline of an entry: the matcher that its text compiles to, the override or the domain of
  the configuration, and for a batch one seat per count, or nothing when the registry refused it.
\<close>

fun wired :: "rdmamap \<Rightarrow> compile \<Rightarrow> appConfig \<Rightarrow> entry \<Rightarrow> pipeline \<Rightarrow> bool" where
  "wired rdma Compile c (PartitionEntry pc) p \<longleftrightarrow> (\<exists>d m. Compile (pc_Matcher pc) = Inr m \<and>
     d = effective_domain (pc_DomainOverride pc) (DeviceDomain c) \<and> valid_domain d \<and> NumSubexp m \<le> 1 \<and>
     p = ScatterPipeline (PartitionLabelMatcherTemplater d m)
       (as_insts PartitionInstance (PartitionLabelMatcherInstances d m (DisableTopologyHints c))) Map.empty)"
| "wired rdma Compile c (BatchEntry bc) p \<longleftrightarrow> p = NoPipeline \<or>
     (\<exists>d m b. Compile (bc_Matcher bc) = Inr m \<and> valid_domain d \<and>
       d = effective_domain (bc_DomainOverride bc) (DeviceDomain c) \<and>
       p = BatchPipeline m b \<and> res_Name (bt_res b) = d @ ''/batch-'' @ bc_Name bc \<and>
       map inst_Id (bt_seats b) = map show_nat [0..<nat (sint (bc_Count bc))] \<and> 1 \<le> sint (bc_Count bc))"
| "wired rdma Compile c (NetBWEntry nbc) p \<longleftrightarrow> (\<exists>m. Compile (nbc_Matcher nbc) = Inr m \<and>
     p = ScatterPipeline (NetBWMatcherTemplater (DeviceDomain c) m)
       (as_insts BandwidthInstance (NetBWMatcherInstances (DeviceDomain c) m (nbc_MbpsPerShare nbc))) Map.empty)"
| "wired rdma Compile c (NetRdmaEntry nrc) p \<longleftrightarrow> (\<exists>m. Compile (nrc_Matcher nrc) = Inr m \<and>
     p = ScatterPipeline (NetRdmaMatcherTemplater (DeviceDomain c) m)
       (as_insts RdmaInstance (NetRdmaMatcherInstances rdma (DeviceDomain c) m (sint (nrc_ResourceCount nrc))))
       Map.empty)"

text \<open>An entry as validation leaves it.\<close>

fun entry_ready :: "compile \<Rightarrow> entry \<Rightarrow> bool" where
  "entry_ready Compile (PartitionEntry pc) \<longleftrightarrow> pc_ok Compile pc \<and> pc_normal Compile pc = pc"
| "entry_ready Compile (BatchEntry bc) \<longleftrightarrow> bc_ok Compile bc \<and> bc_normal Compile bc = bc"
| "entry_ready Compile (NetBWEntry nbc) \<longleftrightarrow> nbc_ok Compile nbc \<and> nbc_normal Compile nbc = nbc"
| "entry_ready Compile (NetRdmaEntry nrc) \<longleftrightarrow> nrc_ok Compile nrc \<and> nrc_normal Compile nrc = nrc"

text \<open>The seats of a batch fit into a slice: validation has no upper bound for the count.\<close>

fun entry_fits :: "entry \<Rightarrow> bool" where
  "entry_fits (BatchEntry bc) \<longleftrightarrow> interface_size * sint (bc_Count bc) \<le> maxAlloc"
| "entry_fits _ \<longleftrightarrow> True"

lemma entries_ready:
  assumes "config_ok Compile c0"
  shows "list_all (entry_ready Compile) (config_entries (config_normal Compile c0))"
  using assms pc.settled bc.settled nbc.settled nrc.settled
  by (auto simp: config_ok_def config_normal_def config_entries_def list_all_iff)

lemma compiles_matcher: "compiles Compile P s \<Longrightarrow> compiled Compile s = Some m \<Longrightarrow> Compile s = Inr m \<and> P m"
  by (auto simp: compiles_def compiled_def split: sum.splits)

lemma compiles_Some: "compiles Compile P s \<Longrightarrow> \<exists>m. compiled Compile s = Some m"
  by (auto simp: compiles_def compiled_def split: sum.splits)

lemma effective_valid: "override_ok d \<Longrightarrow> valid_domain e \<Longrightarrow> valid_domain (effective_domain d e)"
  by (auto simp: override_ok_def effective_domain_def)

lemma start_batch_wired:
  assumes ready: "entry_ready Compile (BatchEntry bc)" and fits: "entry_fits (BatchEntry bc)" and domain: "valid_domain (DeviceDomain c)"
  shows "\<exists>p r. start_batch env c bc st = Return (chain_pipeline p r st) \<and> wired rdma Compile c (BatchEntry bc) p"
proof -
  let ?d = "effective_domain (bc_DomainOverride bc) (DeviceDomain c)"
  from ready have ok: "override_ok (bc_DomainOverride bc)" "compiles Compile (\<lambda>m. True) (bc_Matcher bc)"
    and matcher: "bc_matcher bc = compiled Compile (bc_Matcher bc)"
    and count: "1 \<le> sint (bc_Count bc)"
    by (auto simp: bc_ok_def bc_normal_def batchPartitionsConfig.equality
        dest: arg_cong [of _ _ bc_matcher] arg_cong [of _ _ bc_Count] split: if_splits)
      (metis linorder_not_le order_antisym signed_eq_0_iff zless_imp_add1_zle add_0)
  obtain m where m: "compiled Compile (bc_Matcher bc) = Some m" using compiles_Some [OF ok(2)] by blast
  obtain r made where new: "NewBatchPartitionScatter (registry_add env) ?d (bc_Name bc) (sint (bc_Count bc))
      (app_registry (fst st)) = Return (r, made)"
    using NewBatch_returns [of "sint (bc_Count bc)" "registry_add env" ?d "bc_Name bc" "app_registry (fst st)"] count fits
    by auto
  let ?p = "case made of None \<Rightarrow> NoPipeline | Some b \<Rightarrow> BatchPipeline (the (bc_matcher bc)) b"
  have "wired rdma Compile c (BatchEntry bc) ?p"
  proof (cases made)
    case (Some b)
    have "res_Name (bt_res b) = ?d @ ''/batch-'' @ bc_Name bc"
      using new Some by (cases rule: NewBatch_cases) (auto simp: res_Name_def)
    moreover have "map inst_Id (bt_seats b) = map show_nat [0..<nat (sint (bc_Count bc))]"
      using seats_of_new(1) [OF new [unfolded Some]] by (simp add: comp_def)
    ultimately show ?thesis
      using Some m matcher count effective_valid [OF ok(1) domain] compiles_matcher [OF ok(2) m] by auto
  qed simp
  moreover have "start_batch env c bc st = Return (chain_pipeline ?p r st)"
    by (simp add: start_batch_def new)
  ultimately show ?thesis by blast
qed

lemma start_entry_wired:
  assumes ready: "entry_ready Compile e" and fits: "entry_fits e" and domain: "valid_domain (DeviceDomain c)"
  shows "\<exists>p r. start_entry env rdma c e st = Return (chain_pipeline p r st) \<and> wired rdma Compile c e p"
proof (cases e)
  case (PartitionEntry pc)
  with ready have ok: "override_ok (pc_DomainOverride pc)"
      "compiles Compile (\<lambda>m. NumSubexp m \<le> 1) (pc_Matcher pc)"
    and matcher: "pc_matcher pc = compiled Compile (pc_Matcher pc)"
    by (auto simp: pc_ok_def pc_normal_def dest: arg_cong [of _ _ pc_matcher])
  obtain m where m: "compiled Compile (pc_Matcher pc) = Some m" using compiles_Some [OF ok(2)] by blast
  have "\<exists>r. start_entry env rdma c e st = Return (chain_pipeline
      (ScatterPipeline (PartitionLabelMatcherTemplater (effective_domain (pc_DomainOverride pc) (DeviceDomain c)) m)
       (as_insts PartitionInstance (PartitionLabelMatcherInstances
         (effective_domain (pc_DomainOverride pc) (DeviceDomain c)) m (DisableTopologyHints c))) Map.empty) r st)"
    by (simp add: PartitionEntry start_partition_def matcher m Let_def) blast
  with compiles_matcher [OF ok(2) m] effective_valid [OF ok(1) domain] show ?thesis
    unfolding PartitionEntry wired.simps by blast
next
  case (BatchEntry bc)
  with start_batch_wired [OF ready [unfolded BatchEntry] fits [unfolded BatchEntry] domain] show ?thesis by simp
next
  case (NetBWEntry nbc)
  with ready have ok: "compiles Compile (\<lambda>m. True) (nbc_Matcher nbc)"
    and matcher: "nbc_matcher nbc = compiled Compile (nbc_Matcher nbc)"
    by (auto simp: nbc_normal_def dest: arg_cong [of _ _ nbc_matcher])
  obtain m where m: "compiled Compile (nbc_Matcher nbc) = Some m" using compiles_Some [OF ok] by blast
  have "\<exists>r. start_entry env rdma c e st = Return (chain_pipeline
      (ScatterPipeline (NetBWMatcherTemplater (DeviceDomain c) m) (as_insts BandwidthInstance
        (NetBWMatcherInstances (DeviceDomain c) m (nbc_MbpsPerShare nbc))) Map.empty) r st)"
    by (simp add: NetBWEntry start_netbw_def matcher m) blast
  with compiles_matcher [OF ok m] show ?thesis unfolding NetBWEntry wired.simps by blast
next
  case (NetRdmaEntry nrc)
  with ready have ok: "compiles Compile (\<lambda>m. True) (nrc_Matcher nrc)"
    and matcher: "nrc_matcher nrc = compiled Compile (nrc_Matcher nrc)"
    by (auto simp: nrc_normal_def dest: arg_cong [of _ _ nrc_matcher])
  obtain m where m: "compiled Compile (nrc_Matcher nrc) = Some m" using compiles_Some [OF ok] by blast
  have "\<exists>r. start_entry env rdma c e st = Return (chain_pipeline
      (ScatterPipeline (NetRdmaMatcherTemplater (DeviceDomain c) m) (as_insts RdmaInstance
        (NetRdmaMatcherInstances rdma (DeviceDomain c) m (sint (nrc_ResourceCount nrc)))) Map.empty) r st)"
    by (simp add: NetRdmaEntry start_netrdma_def matcher m) blast
  with compiles_matcher [OF ok m] show ?thesis unfolding NetRdmaEntry wired.simps by blast
qed

text \<open>An entry that starts fits.\<close>

lemma start_entry_fits:
  assumes "start_entry env rdma c e st = Return st'"
  shows "entry_fits e"
proof (cases e)
  case (BatchEntry bc)
  with assms show ?thesis
    by (auto simp: start_batch_def NewBatchPartitionScatter_def make_instances_def elim!: bind_outcome_ReturnE
        split: if_splits)
qed simp_all

text \<open>The validation accepts a count that fits into no slice, and the entry panics when it starts.\<close>

lemma batch_count_panics:
  assumes "bc_Name bc \<noteq> []" and "bc_DomainOverride bc = []" and "Compile (bc_Matcher bc) = Inr m"
    and "bc_Count bc = 2 ^ 62"
  shows "snd (bc_validate Compile bc) = None \<and>
    start_entry env rdma c (BatchEntry (fst (bc_validate Compile bc))) st = Panic MakeSliceOutOfRange"
  using assms by (simp add: bc_validate_def Let_def start_batch_def NewBatchPartitionScatter_def make_instances_def maxAlloc_def)

lemma start_entries_wired:
  assumes "valid_domain (DeviceDomain c)"
  shows "list_all (entry_ready Compile) es \<Longrightarrow> list_all entry_fits es \<Longrightarrow> cleanup_ok st \<Longrightarrow>
    \<exists>st' ps. start_entries env rdma c es st = Return st' \<and> cleanup_ok st' \<and>
      app_pipelines (fst st') = app_pipelines (fst st) @ ps \<and> list_all2 (wired rdma Compile c) es ps"
proof (induction es arbitrary: st)
  case (Cons e es)
  from Cons.prems(1,2) start_entry_wired [OF _ _ assms] obtain p r where
    start: "start_entry env rdma c e st = Return (chain_pipeline p r st)" and wired: "wired rdma Compile c e p"
    by fastforce
  from Cons.IH [of "chain_pipeline p r st"] Cons.prems chain_pipeline_cleanup [of st p r]
  obtain st' ps where "start_entries env rdma c es (chain_pipeline p r st) = Return st'" "cleanup_ok st'"
    "app_pipelines (fst st') = app_pipelines (fst (chain_pipeline p r st)) @ ps"
    "list_all2 (wired rdma Compile c) es ps" by auto
  with start wired show ?case
    by (intro exI [of _ st'] exI [of _ "p # ps"]) (simp add: chain_pipeline_appends)
qed simp

text \<open>The first entry that does not fit ends the start with a panic.\<close>

lemma start_entries_panic:
  assumes domain: "valid_domain (DeviceDomain c)"
  shows "list_all (entry_ready Compile) es \<Longrightarrow> \<not> list_all entry_fits es \<Longrightarrow>
    start_entries env rdma c es st = Panic MakeSliceOutOfRange"
proof (induction es arbitrary: st)
  case (Cons e es)
  show ?case
  proof (cases "entry_fits e")
    case True
    with start_entry_wired [OF _ True domain] Cons.prems obtain st' where
      "start_entry env rdma c e st = Return st'" by fastforce
    with Cons True show ?thesis by simp
  next
    case False
    then obtain bc where "e = BatchEntry bc" and "\<not> interface_size * sint (bc_Count bc) \<le> maxAlloc" by (cases e) simp_all
    then have "start_entry env rdma c e st = Panic MakeSliceOutOfRange"
      by (simp add: start_batch_def NewBatchPartitionScatter_def make_instances_def)
    then show ?thesis by simp
  qed
qed simp

section \<open>Applications to try\<close>

definition no_rdma :: rdmamap where
  "no_rdma = \<lparr>GetRdmaDeviceForNetdevice = (\<lambda>_. None), GetRdmaCharDevices = (\<lambda>_. [])\<rparr>"

lemma demo_NewRegistry: "NewRegistry demo_env = Inr empty_registry"
  by (simp add: NewRegistry_def demo_env_def)

text \<open>Two entries whose matchers claim the same partition.\<close>

definition overlapping_config :: appConfig where
  "overlapping_config = \<lparr>DeviceDomain = ''d.e'', DisableTopologyHints = False, HealthCheckPort = 8080,
     Partitions = replicate 2 \<lparr>pc_Matcher = ''ydb'', pc_DomainOverride = [], pc_matcher = Some demo_matcher\<rparr>,
     BatchPartitions = [], HostDevs = [], NetworkBandwidth = [], NetworkRdma = []\<rparr>"

abbreviation overlapping_pipeline :: "(resource_template \<rightharpoonup> resource) \<Rightarrow> pipeline" where
  "overlapping_pipeline \<equiv> ScatterPipeline (PartitionLabelMatcherTemplater ''d.e'' demo_matcher)
     (partition_mapper ''d.e'' demo_matcher False)"

lemma overlapping_started:
  "\<exists>cancel. startApp demo_env no_rdma overlapping_config = Return (Inr
     (\<lparr>app_registry = empty_registry, app_pipelines = replicate 2 (overlapping_pipeline Map.empty),
       app_cancelled = []\<rparr>, cancel))"
  by (simp add: startApp_def demo_NewRegistry config_entries_def overlapping_config_def empty_app_def start_partition_def
      chain_pipeline_def effective_domain_def partition_mapper_def numeral_2_eq_2 Let_def)

lemma overlapping_event:
  "\<exists>a rts. pipeline_event demo_env 0 (Added demo_partition)
     \<lparr>app_registry = empty_registry, app_pipelines = replicate 2 (overlapping_pipeline Map.empty),
       app_cancelled = []\<rparr> = Return a \<and>
     app_pipelines a = [overlapping_pipeline rts, overlapping_pipeline Map.empty] \<and>
     template_Name ` dom rts = {''d.e/part-disk1''}"
  by (simp add: pipeline_event_def scatter_added_def partition_mapper_def as_insts_def
      partition_mappings demo_partition_match registry_add_def registry_Add_def newPlugin_def Let_def
      demo_env_def empty_registry_def register_def numeral_2_eq_2 template_Name_def)

lemma overlapping_run:
  "\<exists>a cancel rts. app_reachable demo_env no_rdma overlapping_config ([], (a, cancel)) \<and>
     app_pipelines a = [overlapping_pipeline rts, overlapping_pipeline Map.empty] \<and>
     template_Name ` dom rts = {''d.e/part-disk1''}"
proof -
  from overlapping_started obtain cancel where start:
    "startApp demo_env no_rdma overlapping_config = Return (Inr
       (\<lparr>app_registry = empty_registry, app_pipelines = replicate 2 (overlapping_pipeline Map.empty),
         app_cancelled = []\<rparr>, cancel))" by blast
  from overlapping_event obtain a rts where event: "pipeline_event demo_env 0 (Added demo_partition)
     \<lparr>app_registry = empty_registry, app_pipelines = replicate 2 (overlapping_pipeline Map.empty),
       app_cancelled = []\<rparr> = Return a"
    and a: "app_pipelines a = [overlapping_pipeline rts, overlapping_pipeline Map.empty]"
    and names: "template_Name ` dom rts = {''d.e/part-disk1''}" by (elim exE conjE) (rule that)
  have run: "app_reachable demo_env no_rdma overlapping_config ([], (a, cancel))"
    by (rule reach_step [OF startApp_reachable [OF start] step_event [OF _ event]]) simp
  with a names show ?thesis by (intro exI [of _ a] exI [of _ cancel] exI [of _ rts]) simp
qed

text \<open>
  Validation does not compare the batches. Two batches of one name and domain are accepted, the
  second is refused by the registry, and by then it has taken the socket of the first: kubelet
  requests for the first batch reach a server that no plugin owns.
\<close>

definition twin_config :: appConfig where
  "twin_config = \<lparr>DeviceDomain = ''d.e'', DisableTopologyHints = False, HealthCheckPort = 8080,
     Partitions = [], BatchPartitions = replicate 2 \<lparr>bc_Name = ''all'', bc_Matcher = ''nvme'', bc_Count = 1,
       bc_DomainOverride = [], bc_matcher = compiled demo_compile ''nvme''\<rparr>,
     HostDevs = [], NetworkBandwidth = [], NetworkRdma = []\<rparr>"

lemma twin_batches_steal_socket:
  "parseConfig (\<lambda>_. Inr twin_config) demo_compile text = Inr twin_config"
  "\<exists>a cancel b. startApp demo_env no_rdma twin_config = Return (Inr (a, cancel)) \<and>
     app_pipelines a = [BatchPipeline (MustCompile (literal ''nvme'')) b, NoPipeline] \<and>
     (\<exists>p. reg_plugins (app_registry a) ''d.e/batch-all'' = Some p \<and> \<not> owned p (app_registry a))"
proof -
  have domain: "valid_domain ''d.e''" by code_simp
  have "config_ok demo_compile twin_config"
    by (simp add: config_ok_def twin_config_def domain bc_ok_def override_ok_def demo_compiles
        MustCompile_def num_groups_literal numeral_2_eq_2)
  moreover have "twin_config = config_normal demo_compile twin_config"
    by (simp add: config_normal_def twin_config_def bc_normal_def)
  ultimately show "parseConfig (\<lambda>_. Inr twin_config) demo_compile text = Inr twin_config"
    by (auto simp: parseConfig_Inr_iff)
  show "\<exists>a cancel b. startApp demo_env no_rdma twin_config = Return (Inr (a, cancel)) \<and>
     app_pipelines a = [BatchPipeline (MustCompile (literal ''nvme'')) b, NoPipeline] \<and>
     (\<exists>p. reg_plugins (app_registry a) ''d.e/batch-all'' = Some p \<and> \<not> owned p (app_registry a))"
    unfolding startApp_def demo_NewRegistry sum.case
    by (simp add: config_entries_def twin_config_def empty_app_def start_batch_def
        chain_pipeline_def effective_domain_def numeral_2_eq_2 Let_def NewBatchPartitionScatter_def
        make_instances_Return maxAlloc_def registry_add_def registry_Add_def newPlugin_def demo_env_def
        empty_registry_def register_def template_Name_def compiled_def demo_compile_def owned_def)
qed

section \<open>Properties\<close>

text \<open>
  C15: In every run of the application, whatever the events, the restarts of the kubelet and the
  failures of external calls, a resource name is served by at most one pipeline, and it is a name
  the registry holds.
\<close>

theorem app_names_owned_once:
  assumes "app_reachable env rdma c (es, (a, cancel))"
    and "i < length (app_pipelines a)" and "j < length (app_pipelines a)" and "i \<noteq> j"
  shows "pipeline_names (app_pipelines a ! i) \<inter> pipeline_names (app_pipelines a ! j) = {} \<and>
    pipeline_names (app_pipelines a ! i) \<subseteq> dom (reg_plugins (app_registry a))"
proof -
  have "owned_once (taken_names (app_registry a)) (app_pipelines a)"
    using app_reachable_ok [OF assms(1)] by (simp add: app_ok_def)
  with assms(2-4) show ?thesis by (simp add: owned_once_names owned_once_disjoint)
qed

lemma app_names_owned_once_witness:
  "\<exists>a cancel. app_reachable demo_env no_rdma overlapping_config ([], (a, cancel)) \<and>
     pipeline_names (app_pipelines a ! 0) = {''d.e/part-disk1''} \<and>
     ''d.e/part-disk1'' \<notin> pipeline_names (app_pipelines a ! 1) \<and>
     ''d.e/part-disk1'' \<in> dom (reg_plugins (app_registry a))"
proof -
  from overlapping_run obtain a cancel rts where
    run: "app_reachable demo_env no_rdma overlapping_config ([], (a, cancel))"
    and a: "app_pipelines a = [overlapping_pipeline rts, overlapping_pipeline Map.empty]"
    and names: "template_Name ` dom rts = {''d.e/part-disk1''}" by (elim exE conjE) (rule that)
  have "0 < length (app_pipelines a)" "1 < length (app_pipelines a)" "(0::nat) \<noteq> 1" using a by simp_all
  note own = app_names_owned_once [OF run this]
  have zero: "pipeline_names (app_pipelines a ! 0) = {''d.e/part-disk1''}" using a names by simp
  with own have "''d.e/part-disk1'' \<notin> pipeline_names (app_pipelines a ! 1)"
    "''d.e/part-disk1'' \<in> dom (reg_plugins (app_registry a))" by simp_all
  with run zero show ?thesis by (intro exI [of _ a] exI [of _ cancel]) simp
qed

text \<open>
  C16: A configuration that \<open>parseConfig\<close> accepts starts without a panic, unless the registry cannot
  watch the directory of the kubelet socket: one pipeline per entry in the order of the configuration,
  with the compiled matcher, the valid effective domain and the counts of the entry, and a cleanup
  that cancels every subscription once, the newest first. Only the count of a batch is not bounded by
  the validation: if one is beyond the largest slice, the start panics.
\<close>

theorem startApp_wires_config:
  assumes "parseConfig Decode Compile text = Inr c"
  shows "case NewRegistry env of
      Inl err \<Rightarrow> startApp env rdma c = Return (Inl err)
    | Inr registry \<Rightarrow>
        if \<forall>e \<in> set (config_entries c). entry_fits e then
          \<exists>a cancel. startApp env rdma c = Return (Inr (a, cancel)) \<and>
            list_all2 (wired rdma Compile c) (config_entries c) (app_pipelines a) \<and>
            (\<forall>a'. cancel a' = a'\<lparr>app_cancelled := app_cancelled a' @ rev (subscriptions (app_pipelines a))\<rparr>)
        else startApp env rdma c = Panic MakeSliceOutOfRange"
proof (cases "NewRegistry env")
  case (Inr registry)
  from assms obtain c0 where c0: "config_ok Compile c0" "c = config_normal Compile c0"
    by (auto simp: parseConfig_Inr_iff)
  then have domain: "valid_domain (DeviceDomain c)" by (simp add: config_ok_def config_normal_def)
  note ready = entries_ready [OF c0(1), folded c0(2)]
  show ?thesis
  proof (cases "list_all entry_fits (config_entries c)")
    case True
    have "cleanup_ok (empty_app registry)" by (simp add: cleanup_ok_def empty_app_def subscriptions_def)
    with start_entries_wired [OF domain ready True, of "empty_app registry" env rdma]
    obtain a cancel ps where "start_entries env rdma c (config_entries c) (empty_app registry) = Return (a, cancel)"
      and "cleanup_ok (a, cancel)" and "app_pipelines a = app_pipelines (fst (empty_app registry)) @ ps"
      and "list_all2 (wired rdma Compile c) (config_entries c) ps" by auto
    with Inr True show ?thesis by (simp add: startApp_def cleanup_ok_def empty_app_def list_all_iff)
  next
    case False
    with Inr start_entries_panic [OF domain ready False] show ?thesis by (auto simp: startApp_def list_all_iff)
  qed
qed (simp add: startApp_def)

lemma startApp_wires_config_witness:
  "\<exists>a cancel. startApp demo_env no_rdma (config_normal demo_compile demo_config) = Return (Inr (a, cancel)) \<and>
     length (app_pipelines a) = 2"
proof -
  have "parseConfig (\<lambda>text. Inr demo_config) demo_compile ''text'' = Inr (config_normal demo_compile demo_config)"
    using config_ok_demo by (simp add: parseConfig_Inr_iff)
  have "\<forall>e \<in> set (config_entries (config_normal demo_compile demo_config)). entry_fits e"
    by (simp add: config_entries_def config_normal_def demo_config_def bc_normal_def maxAlloc_def)
  with startApp_wires_config [OF \<open>parseConfig _ _ _ = _\<close>, of demo_env no_rdma] demo_NewRegistry obtain a cancel where
    "startApp demo_env no_rdma (config_normal demo_compile demo_config) = Return (Inr (a, cancel))"
    "list_all2 (wired no_rdma demo_compile (config_normal demo_compile demo_config))
      (config_entries (config_normal demo_compile demo_config)) (app_pipelines a)" by auto
  moreover from this(2) have "length (app_pipelines a) = 2"
    by (auto dest: list_all2_lengthD simp: config_entries_def config_normal_def demo_config_def)
  ultimately show ?thesis by blast
qed

end
