(* ===== verification/App_Types.thy ===== *)
theory App_Types
  imports App_Runs
begin

text \<open>
  The types of what the running application stores: a resource lies under its own template, which
  the templater of its pipeline made, and each of its instances lies under its own id and is one the
  mapper of the pipeline made, or an override of one. A pipeline is that of its entry in every run,
  which also says when it cannot panic.
\<close>

section \<open>Instance maps\<close>

definition instances_of :: "inst set \<Rightarrow> inst_map \<Rightarrow> bool" where
  "instances_of S m \<longleftrightarrow> (\<forall>i x. m i = Some x \<longrightarrow>
     inst_Id x = i \<and> (x \<in> S \<or> (\<exists>y \<in> S. \<exists>h. x = HealthOverride y h)))"

lemma instances_of_new: "set is \<subseteq> S \<Longrightarrow> instances_of S (store_all inst_Id (\<lambda>i. i) is Map.empty)"
  unfolding instances_of_def using store_all_SomeD [of inst_Id "\<lambda>i. i" "is" Map.empty] by fastforce

lemma instances_of_submit:
  assumes "instances_of S m" and "set is \<subseteq> S"
  shows "instances_of S (submit_instances is h m)"
  unfolding instances_of_def
proof (intro allI impI)
  fix i x assume "submit_instances is h m i = Some x"
  then have "store_all inst_Id (\<lambda>i. HealthOverride i h) is m i = Some x" by (simp add: submit_instances_def)
  from store_all_SomeD [OF this] assms
  show "inst_Id x = i \<and> (x \<in> S \<or> (\<exists>y \<in> S. \<exists>h. x = HealthOverride y h))"
    unfolding instances_of_def by auto
qed

text \<open>What a mapper makes.\<close>

definition made_instances :: "mapper \<Rightarrow> inst set" where
  "made_instances mp = {x. \<exists>d is. mp d = Return (Inr is) \<and> x \<in> set is}"

section \<open>Scatters\<close>

definition routes_typed :: "templater \<Rightarrow> mapper \<Rightarrow> (resource_template \<rightharpoonup> resource) \<Rightarrow> bool" where
  "routes_typed tm mp rts \<longleftrightarrow> (\<forall>k res. rts k = Some res \<longrightarrow> k \<in> made_templates tm \<and> res_template res = k \<and>
     instances_of (made_instances mp) (res_instances res))"

lemma routes_typed_empty: "routes_typed tm mp Map.empty"
  by (simp add: routes_typed_def)

lemma routes_typed_submit:
  assumes "routes_typed tm mp rts" and "mp d = Return (Inr is)" and "rts k = Some res"
  shows "routes_typed tm mp (rts(k \<mapsto> res_Submit is h res))"
proof -
  have "set is \<subseteq> made_instances mp" using assms(2) by (auto simp: made_instances_def)
  with assms show ?thesis by (auto simp: routes_typed_def res_Submit_def intro: instances_of_submit)
qed

lemma routes_typed_new:
  assumes "routes_typed tm mp rts" and "tm d = Return (Inr (Some k))" and "mp d = Return (Inr is)"
  shows "routes_typed tm mp (rts(k \<mapsto> newResource k (store_all inst_Id (\<lambda>i. i) is Map.empty)))"
proof -
  have "set is \<subseteq> made_instances mp" "k \<in> made_templates tm"
    using assms(2,3) by (auto simp: made_instances_def made_templates_def)
  with assms(1) show ?thesis by (auto simp: routes_typed_def newResource_def intro: instances_of_new)
qed

lemma added_typed:
  assumes "routes_typed tm mp (routes s)" and "scatter_added tm mp add dev s = Return s'"
  shows "routes_typed tm mp (routes s')"
  using assms(2)
proof (cases rule: scatter_added_cases)
  case (resubmitted d k "is" res)
  with assms(1) show ?thesis by (simp add: routes_typed_submit)
next
  case (accepted d k "is" m r')
  with assms(1) show ?thesis by (simp add: routes_typed_new)
qed (use assms(1) in simp_all)

lemma removed_typed:
  assumes "routes_typed tm mp (routes s)" and "scatter_removed tm mp dev s = Return s'"
  shows "routes_typed tm mp (routes s')"
  using assms(2)
proof (cases rule: scatter_removed_cases)
  case (resubmitted d k "is" res)
  with assms(1) show ?thesis by (simp add: routes_typed_submit)
qed (use assms(1) in simp_all)

lemma init_typed:
  "routes_typed tm mp (routes s) \<Longrightarrow> scatter_init tm mp add ds s = Return s' \<Longrightarrow> routes_typed tm mp (routes s')"
proof (induction ds arbitrary: s)
  case (Cons d ds)
  from Cons.prems(2) obtain s1 where s1: "scatter_added tm mp add (Some d) s = Return s1"
    and rest: "scatter_init tm mp add ds s1 = Return s'" by (auto elim!: bind_outcome_ReturnE)
  from added_typed [OF Cons.prems(1) s1] rest show ?case by (rule Cons.IH)
qed simp

lemma event_typed:
  "routes_typed tm mp (routes s) \<Longrightarrow> scatter_event tm mp add e s = Return s' \<Longrightarrow> routes_typed tm mp (routes s')"
  by (cases e) (auto intro: init_typed added_typed removed_typed)

section \<open>Batches\<close>

text \<open>All instances of a batch are its seats, which are offered whether there are partitions or not.\<close>

definition batch_typed :: "batch \<Rightarrow> bool" where
  "batch_typed b \<longleftrightarrow> instances_of (set (bt_seats b)) (res_instances (bt_res b)) \<and>
     dom (res_instances (bt_res b)) = inst_Id ` set (bt_seats b)"

lemma batch_submit_typed: "batch_typed b \<Longrightarrow> batch_typed (batch_submit h b)"
  by (auto simp: batch_typed_def batch_submit_def res_Submit_def submit_instances_def
      intro: instances_of_submit [unfolded submit_instances_def])

lemma batch_typed_cong:
  "bt_seats b' = bt_seats b \<Longrightarrow> bt_res b' = bt_res b \<Longrightarrow> batch_typed b' = batch_typed b"
  by (simp add: batch_typed_def)

lemma batch_event_typed: "batch_typed b \<Longrightarrow> batch_typed (batch_event m e b)"
proof (cases e)
  case (Init ds)
  assume "batch_typed b"
  then have "batch_typed (batch_init m ds b)" using batch_typed_cong [of "batch_init m ds b" b] by simp
  with Init show ?thesis by (simp add: Let_def batch_submit_typed)
qed (auto simp: Let_def batch_typed_cong [of "b\<lparr>bt_pool := _\<rparr>" b] intro!: batch_submit_typed split: option.split)

lemma new_batch_typed:
  assumes "NewBatchPartitionScatter add domain name count r = Return (r', Some b)"
  shows "batch_typed b"
proof -
  obtain seats where "make_instances interface_size batch_seat count = Return seats"
    using assms unfolding NewBatchPartitionScatter_def by (auto elim: bind_outcome_ReturnE)
  with assms have "bt_seats b = seats" "res_instances (bt_res b) = store_all inst_Id (\<lambda>i. i) seats Map.empty"
    by (auto simp: NewBatchPartitionScatter_def Let_def newResource_def split: prod.splits if_splits)
  then show ?thesis by (simp add: batch_typed_def instances_of_new)
qed

section \<open>The application\<close>

fun pipeline_typed :: "pipeline \<Rightarrow> bool" where
  "pipeline_typed (ScatterPipeline tm mp rts) = routes_typed tm mp rts"
| "pipeline_typed (BatchPipeline m b) = batch_typed b"
| "pipeline_typed NoPipeline = True"

abbreviation app_typed :: "app \<Rightarrow> bool" where
  "app_typed a \<equiv> list_all pipeline_typed (app_pipelines a)"

lemma list_all_update: "list_all P xs \<Longrightarrow> P x \<Longrightarrow> list_all P (xs[n := x])"
  by (auto simp: list_all_iff dest!: set_update_subset_insert [THEN subsetD])

lemma chain_pipeline_typed:
  "app_typed (fst st) \<Longrightarrow> pipeline_typed p \<Longrightarrow> app_typed (fst (chain_pipeline p r st))"
  by (simp add: chain_pipeline_appends)

lemma start_entry_typed:
  assumes "app_typed (fst st)" and "start_entry env rdma c e st = Return st'"
  shows "app_typed (fst st')"
proof (cases e)
  case (BatchEntry bc)
  with assms(2) obtain r made where
    new: "NewBatchPartitionScatter (registry_add env) (effective_domain (bc_DomainOverride bc) (DeviceDomain c))
        (bc_Name bc) (sint (bc_Count bc)) (app_registry (fst st)) = Return (r, made)"
    and st': "st' = chain_pipeline
        (case made of None \<Rightarrow> NoPipeline | Some b \<Rightarrow> BatchPipeline (the (bc_matcher bc)) b) r st"
    by (auto simp: start_batch_def elim!: bind_outcome_ReturnE)
  from new assms(1) st' show ?thesis
    by (cases made) (auto intro!: chain_pipeline_typed dest: new_batch_typed)
qed (use assms in \<open>auto simp: start_partition_def start_netbw_def start_netrdma_def Let_def routes_typed_empty
  intro!: chain_pipeline_typed\<close>)

lemma pipeline_event_typed:
  assumes typed: "app_typed a" and n: "n < length (app_pipelines a)" and ev: "pipeline_event env n ev a = Return a'"
  shows "app_typed a'"
proof -
  have p: "pipeline_typed (app_pipelines a ! n)" using typed n by (simp add: list_all_length)
  show ?thesis
  proof (cases "app_pipelines a ! n")
    case (ScatterPipeline tm mp rts)
    with ev obtain s where
      s: "scatter_event tm mp (registry_add env) ev \<lparr>routes = rts, registry_state = app_registry a\<rparr> = Return s"
      and a': "a' = a\<lparr>app_registry := registry_state s,
          app_pipelines := (app_pipelines a)[n := ScatterPipeline tm mp (routes s)]\<rparr>"
      by (auto simp: pipeline_event_def elim!: bind_outcome_ReturnE)
    from event_typed [OF _ s] p ScatterPipeline have "routes_typed tm mp (routes s)" by simp
    with typed show ?thesis by (simp add: a' list_all_update)
  next
    case (BatchPipeline m b)
    with ev p typed show ?thesis by (auto simp: pipeline_event_def batch_event_typed intro!: list_all_update)
  next
    case NoPipeline
    with ev typed show ?thesis by (simp add: pipeline_event_def)
  qed
qed

lemma app_reachable_typed: "app_reachable env rdma c x \<Longrightarrow> app_typed (fst (snd x))"
proof (induction rule: app_reachable.induct)
  case reach_empty
  show ?case by (simp add: empty_app_def)
next
  case (reach_step x l y)
  note cleanup = app_reachable_cleanup [OF reach_step.hyps(1)]
  from reach_step.hyps(2) cleanup reach_step.IH show ?case
  proof (induction rule: app_step.induct)
    case (step_cleanup a cancel)
    then show ?case using cleanup_okD [of a cancel a] by simp
  qed (auto dest: start_entry_typed pipeline_event_typed)
qed

section \<open>The pipeline of an entry\<close>

text \<open>
  A pipeline keeps the templater and the mapper it was started with, and with the types above this
  determines the form of every name it serves.
\<close>

abbreviation entry_domain :: "appConfig \<Rightarrow> partitionsConfig \<Rightarrow> string" where
  "entry_domain c pc \<equiv> effective_domain (pc_DomainOverride pc) (DeviceDomain c)"

abbreviation partition_pipeline :: "string \<Rightarrow> regexp \<Rightarrow> bool \<Rightarrow> (resource_template \<rightharpoonup> resource) \<Rightarrow> pipeline" where
  "partition_pipeline d m hints \<equiv> ScatterPipeline (PartitionLabelMatcherTemplater d m) (partition_mapper d m hints)"

fun pipeline_of :: "rdmamap \<Rightarrow> compile \<Rightarrow> appConfig \<Rightarrow> entry \<Rightarrow> pipeline \<Rightarrow> bool" where
  "pipeline_of rdma Compile c (PartitionEntry pc) p \<longleftrightarrow> (\<exists>m rts. Compile (pc_Matcher pc) = Inr m \<and>
     valid_domain (entry_domain c pc) \<and> p = partition_pipeline (entry_domain c pc) m (DisableTopologyHints c) rts)"
| "pipeline_of rdma Compile c (BatchEntry bc) p \<longleftrightarrow> p = NoPipeline \<or> (\<exists>m b. p = BatchPipeline m b \<and>
     valid_domain (effective_domain (bc_DomainOverride bc) (DeviceDomain c)) \<and>
     res_Name (bt_res b) = effective_domain (bc_DomainOverride bc) (DeviceDomain c) @ ''/batch-'' @ bc_Name bc)"
| "pipeline_of rdma Compile c (NetBWEntry nbc) p \<longleftrightarrow>
     (\<exists>m rts. Compile (nbc_Matcher nbc) = Inr m \<and> p = ScatterPipeline (NetBWMatcherTemplater (DeviceDomain c) m)
       (as_insts BandwidthInstance (NetBWMatcherInstances (DeviceDomain c) m (nbc_MbpsPerShare nbc))) rts)"
| "pipeline_of rdma Compile c (NetRdmaEntry nrc) p \<longleftrightarrow>
     (\<exists>m rts. Compile (nrc_Matcher nrc) = Inr m \<and> p = ScatterPipeline (NetRdmaMatcherTemplater (DeviceDomain c) m)
       (as_insts RdmaInstance (NetRdmaMatcherInstances rdma (DeviceDomain c) m (sint (nrc_ResourceCount nrc)))) rts)"

lemma wired_pipeline_of: "wired rdma Compile c e p \<Longrightarrow> pipeline_of rdma Compile c e p"
  by (cases e) (auto simp: partition_mapper_def)

lemma pipeline_event_of:
  assumes "list_all2 (pipeline_of rdma Compile c) es (app_pipelines a)" and "pipeline_event env n ev a = Return a'"
    and "n < length (app_pipelines a)"
  shows "list_all2 (pipeline_of rdma Compile c) es (app_pipelines a')"
proof -
  have n: "n < length es" and of: "pipeline_of rdma Compile c (es ! n) (app_pipelines a ! n)"
    using assms(1,3) by (simp_all add: list_all2_lengthD list_all2_nthD2)
  have update: "list_all2 (pipeline_of rdma Compile c) es ((app_pipelines a)[n := p])"
    if "pipeline_of rdma Compile c (es ! n) p" for p
    using list_all2_update_cong [OF assms(1) that, of n] n by simp
  show ?thesis
  proof (cases "app_pipelines a ! n")
    case (ScatterPipeline tm mp rts)
    with assms(2) obtain s where
      "scatter_event tm mp (registry_add env) ev \<lparr>routes = rts, registry_state = app_registry a\<rparr> = Return s"
      and "a' = a\<lparr>app_registry := registry_state s,
        app_pipelines := (app_pipelines a)[n := ScatterPipeline tm mp (routes s)]\<rparr>"
      by (auto simp: pipeline_event_def elim!: bind_outcome_ReturnE)
    then have "app_pipelines a' = (app_pipelines a)[n := ScatterPipeline tm mp (routes s)]" by simp
    moreover have "pipeline_of rdma Compile c (es ! n) (ScatterPipeline tm mp (routes s))"
      using of ScatterPipeline by (cases "es ! n") auto
    ultimately show ?thesis using update by simp
  next
    case (BatchPipeline m b)
    with assms(2) have "a' = a\<lparr>app_pipelines := (app_pipelines a)[n := BatchPipeline m (batch_event m ev b)]\<rparr>"
      by (simp add: pipeline_event_def)
    then have "app_pipelines a' = (app_pipelines a)[n := BatchPipeline m (batch_event m ev b)]" by simp
    moreover have "pipeline_of rdma Compile c (es ! n) (BatchPipeline m (batch_event m ev b))"
      using of BatchPipeline by (cases "es ! n") (auto simp: batch_event_name)
    ultimately show ?thesis using update by simp
  next
    case NoPipeline
    with assms show ?thesis by (simp add: pipeline_event_def)
  qed
qed

text \<open>In every run the pipelines are those of the entries that were started, in order.\<close>

definition pipelines_follow :: "rdmamap \<Rightarrow> compile \<Rightarrow> appConfig \<Rightarrow> entry list \<Rightarrow> app \<Rightarrow> bool" where
  "pipelines_follow rdma Compile c es a \<longleftrightarrow> (\<exists>begun. config_entries c = begun @ es \<and>
     list_all2 (pipeline_of rdma Compile c) begun (app_pipelines a))"

lemma pipelines_follow_nth:
  assumes "pipelines_follow rdma Compile c es a" and "n < length (app_pipelines a)"
  shows "n < length (config_entries c)" and "pipeline_of rdma Compile c (config_entries c ! n) (app_pipelines a ! n)"
proof -
  from assms obtain begun where b: "config_entries c = begun @ es" "list_all2 (pipeline_of rdma Compile c) begun (app_pipelines a)"
    by (auto simp: pipelines_follow_def)
  have "n < length begun" using assms(2) list_all2_lengthD [OF b(2)] by simp
  with b list_all2_nthD2 [OF b(2) assms(2)] show "n < length (config_entries c)"
    "pipeline_of rdma Compile c (config_entries c ! n) (app_pipelines a ! n)" by (simp_all add: nth_append)
qed

lemma pipelines_follow_step:
  assumes step: "app_step env rdma c x l y" and domain: "valid_domain (DeviceDomain c)"
    and ready: "list_all (entry_ready Compile) (config_entries c)" and cleanup: "cleanup_ok (snd x)"
    and old: "pipelines_follow rdma Compile c (fst x) (fst (snd x))"
  shows "pipelines_follow rdma Compile c (fst y) (fst (snd y))"
  using step
proof cases
  case (step_start e st st' es)
  with old obtain begun where b: "config_entries c = begun @ e # es"
    "list_all2 (pipeline_of rdma Compile c) begun (app_pipelines (fst st))" by (auto simp: pipelines_follow_def)
  then have "entry_ready Compile e" using ready by simp
  from start_entry_wired [OF this start_entry_fits domain, of env rdma c st st' env rdma st] step_start obtain p r where
    "st' = chain_pipeline p r st" "wired rdma Compile c e p" by auto
  with b wired_pipeline_of have "list_all2 (pipeline_of rdma Compile c) (begun @ [e]) (app_pipelines (fst st'))"
    by (simp add: chain_pipeline_appends list_all2_appendI)
  with b(1) step_start show ?thesis by (auto simp: pipelines_follow_def intro!: exI [of _ "begun @ [e]"])
next
  case (step_event n a ev a' es cancel)
  with old pipeline_event_of [of rdma Compile c _ a env n ev a'] show ?thesis by (auto simp: pipelines_follow_def)
next
  case (step_cleanup a cancel)
  with old cleanup cleanup_okD [of a cancel a] show ?thesis by (simp add: pipelines_follow_def)
qed (use old in \<open>simp_all add: pipelines_follow_def\<close>)

lemma parsed_ready:
  assumes "parseConfig Decode Compile text = Inr c"
  shows "valid_domain (DeviceDomain c)" and "list_all (entry_ready Compile) (config_entries c)"
proof -
  from assms obtain c0 where c0: "config_ok Compile c0" "c = config_normal Compile c0"
    by (auto simp: parseConfig_Inr_iff)
  then show "valid_domain (DeviceDomain c)" by (simp add: config_ok_def config_normal_def)
  show "list_all (entry_ready Compile) (config_entries c)" using entries_ready [OF c0(1)] c0(2) by simp
qed

lemma app_reachable_follow:
  assumes parsed: "parseConfig Decode Compile text = Inr c"
  shows "app_reachable env rdma c x \<Longrightarrow> pipelines_follow rdma Compile c (fst x) (fst (snd x))"
proof (induction rule: app_reachable.induct)
  case reach_empty
  show ?case by (simp add: pipelines_follow_def empty_app_def)
next
  case (reach_step x l y)
  show ?case
    by (rule pipelines_follow_step [OF reach_step.hyps(2) parsed_ready [OF parsed]
          app_reachable_cleanup [OF reach_step.hyps(1)] reach_step.IH])
qed

section \<open>Panics\<close>

text \<open>
  Shares that fit into the integers of the code, counts that fit into a slice, and speeds as the kernel
  reports them: a 32-bit number of megabits that is printed as a signed one, -1 when it is unknown.
\<close>

fun entry_safe :: "entry \<Rightarrow> bool" where
  "entry_safe (NetBWEntry nbc) \<longleftrightarrow> 2 \<le> unat (nbc_MbpsPerShare nbc) \<and> unat (nbc_MbpsPerShare nbc) < 2 ^ 63"
| "entry_safe (NetRdmaEntry nrc) \<longleftrightarrow>
     0 \<le> sint (nrc_ResourceCount nrc) \<and> pointer_size * sint (nrc_ResourceCount nrc) \<le> maxAlloc"
| "entry_safe e \<longleftrightarrow> entry_fits e"

definition kernel_speed :: "device \<Rightarrow> bool" where
  "kernel_speed d \<longleftrightarrow> (\<forall>s. atoi (SystemAttribute d SysAttrSpeed) = Some s \<longrightarrow> -1 \<le> s \<and> s < 2 ^ 31)"

lemma as_insts_panics [simp]: "panics (as_insts wrap f d) = panics (f d)"
  by (cases "f d") (simp_all add: as_insts_def)

lemma pipeline_of_returns:
  assumes "pipeline_of rdma Compile c e (ScatterPipeline tm mp rts)" and "entry_safe e" and "kernel_speed d"
  shows "\<not> panics (tm d) \<and> \<not> panics (mp d)"
proof (cases e)
  case (PartitionEntry pc)
  with assms show ?thesis
    by (auto simp: partition_mapper_def partition_mappings split: option.splits prod.splits)
next
  case (NetBWEntry nbc)
  have "- int (unat (nbc_MbpsPerShare nbc)) < s \<and> pointer_size * (s div int (unat (nbc_MbpsPerShare nbc))) \<le> maxAlloc"
    if s: "atoi (SystemAttribute d SysAttrSpeed) = Some s" for s
  proof -
    have share: "2 \<le> int (unat (nbc_MbpsPerShare nbc))" using assms(2) NetBWEntry by (simp del: of_nat_unat)
    have range: "-1 \<le> s" "s < 2 ^ 31" using assms(3) s by (simp_all add: kernel_speed_def)
    have "s div int (unat (nbc_MbpsPerShare nbc)) \<le> 2 ^ 31"
    proof (cases "0 \<le> s")
      case True
      then have "s div int (unat (nbc_MbpsPerShare nbc)) \<le> s div 1" using share by (intro zdiv_mono2) linarith+
      with range show ?thesis by simp
    next
      case False
      then have "s div int (unat (nbc_MbpsPerShare nbc)) < 0" using share by (intro div_neg_pos_less0) linarith+
      then show ?thesis by (simp del: of_nat_unat)
    qed
    with share range(1) show ?thesis by (simp add: maxAlloc_def del: of_nat_unat)
  qed
  with assms(2) NetBWEntry have "\<not> panics (NetBWMatcherInstances dom m (nbc_MbpsPerShare nbc) d)" for dom m
    by (intro bandwidth_returns) (auto simp del: of_nat_unat)
  with NetBWEntry assms(1) show ?thesis by (auto simp: NetBWMatcherTemplater_def split: option.splits prod.splits)
next
  case (NetRdmaEntry nrc)
  with assms(2) have "0 \<le> sint (nrc_ResourceCount nrc)" "pointer_size * sint (nrc_ResourceCount nrc) \<le> maxAlloc"
    by simp_all
  with NetRdmaEntry assms(1) rdma_returns show ?thesis
    by (auto simp: NetRdmaMatcherTemplater_def split: option.splits prod.splits)
qed (use assms(1) in simp)

text \<open>A domain has no slash, so the names of different kinds or domains never meet.\<close>

lemma set_join: "c \<in> set (join ls sep) \<Longrightarrow> c \<in> set sep \<or> (\<exists>l \<in> set ls. c \<in> set l)"
  by (induction ls sep rule: join.induct) auto

lemma valid_domain_no_slash:
  assumes "valid_domain d"
  shows "CHR ''/'' \<notin> set d"
proof
  assume "CHR ''/'' \<in> set d"
  then have "CHR ''/'' \<in> set (join (split_on CHR ''.'' d) ''.'')" by (simp add: join_split_on)
  from set_join [OF this] obtain l where l: "l \<in> set (split_on CHR ''.'' d)" "CHR ''/'' \<in> set l" by auto
  with assms have "alnum_hyphen CHR ''/''"
    by (auto simp: valid_domain_def Let_def list_all_iff valid_label_def)
  then show False by (simp add: alnum_hyphen_def alnum_def in_range_def)
qed

lemma slash_names:
  assumes "CHR ''/'' \<notin> set d" and "CHR ''/'' \<notin> set e"
  shows "d @ CHR ''/'' # x = e @ CHR ''/'' # y \<longleftrightarrow> d = e \<and> x = y"
proof
  assume eq: "d @ CHR ''/'' # x = e @ CHR ''/'' # y"
  then have "d # split_on CHR ''/'' x = e # split_on CHR ''/'' y"
    using split_on_append [OF assms(1), of x] split_on_append [OF assms(2), of y] by simp
  with eq show "d = e \<and> x = y" by simp
qed simp

lemma pipeline_event_returns:
  assumes follow: "pipelines_follow rdma Compile c es a" and n: "n < length (app_pipelines a)"
    and safe: "\<forall>e \<in> set (config_entries c). entry_safe e" and speed: "\<forall>d \<in> set (event_devices ev). kernel_speed d"
  shows "\<exists>a'. pipeline_event env n ev a = Return a'"
proof (cases "app_pipelines a ! n")
  case (ScatterPipeline tm mp rts)
  note nth = pipelines_follow_nth [OF follow n]
  from nth(1) safe have "entry_safe (config_entries c ! n)" by simp
  from pipeline_of_returns [OF nth(2) [unfolded ScatterPipeline] this] speed
  have "\<not> panics (tm d) \<and> \<not> panics (mp d)" if "d \<in> set (event_devices ev)" for d using that by blast
  from scatter_event_returns [where tm = tm and mp = mp and e = ev, OF this, where add = "registry_add env"
      and s = "\<lparr>routes = rts, registry_state = app_registry a\<rparr>"] ScatterPipeline
  show ?thesis by (auto simp: pipeline_event_def)
qed (simp_all add: pipeline_event_def)

section \<open>Properties\<close>

text \<open>
  C20: The application does not panic. For an accepted configuration whose bandwidth shares are at least
  two megabits and fit into a signed 64-bit integer, and whose counts of RDMA slots and of batch
  seats fit into the largest slice of their elements, in every state of every run the next entry
  starts, and every pipeline handles every event whose devices report speeds as the kernel does,
  from the -1 of an unknown one to 31 bits. (Using up the memory of the machine is no panic.)
\<close>

theorem app_never_panics:
  assumes "parseConfig Decode Compile text = Inr c" and "\<forall>e \<in> set (config_entries c). entry_safe e"
    and "app_reachable env rdma c (es, (a, cancel))"
  shows "(\<forall>e es'. es = e # es' \<longrightarrow> (\<exists>st. start_entry env rdma c e (a, cancel) = Return st)) \<and>
    (\<forall>n < length (app_pipelines a). \<forall>ev. (\<forall>d \<in> set (event_devices ev). kernel_speed d) \<longrightarrow>
       (\<exists>a'. pipeline_event env n ev a = Return a'))"
proof (intro conjI allI impI)
  have follow: "pipelines_follow rdma Compile c es a" using app_reachable_follow [OF assms(1,3)] by simp
  fix e es' assume "es = e # es'"
  with follow parsed_ready(2) [OF assms(1)] have "entry_ready Compile e" by (auto simp: pipelines_follow_def)
  moreover from follow \<open>es = e # es'\<close> assms(2) have "entry_fits e"
    by (cases e) (fastforce simp: pipelines_follow_def)+
  ultimately have "\<exists>p r. start_entry env rdma c e (a, cancel) = Return (chain_pipeline p r (a, cancel)) \<and> wired rdma Compile c e p"
    using parsed_ready(1) [OF assms(1)] by (rule start_entry_wired)
  then
  show "\<exists>st. start_entry env rdma c e (a, cancel) = Return st" by blast
next
  fix n ev assume "n < length (app_pipelines a)" "\<forall>d \<in> set (event_devices ev). kernel_speed d"
  moreover have "pipelines_follow rdma Compile c es a" using app_reachable_follow [OF assms(1,3)] by simp
  ultimately show "\<exists>a'. pipeline_event env n ev a = Return a'" using assms(2) by (intro pipeline_event_returns)
qed

text \<open>One bandwidth entry with the smallest safe share.\<close>

definition nic_config :: appConfig where
  "nic_config = overlapping_config\<lparr>Partitions := [], NetworkBandwidth :=
     [\<lparr>nbc_Matcher = ''eth(.*)'', nbc_MbpsPerShare = 2, nbc_matcher = Some eth_matcher\<rparr>]\<rparr>"

lemma nic_config_parsed: "parseConfig (\<lambda>_. Inr nic_config) (\<lambda>_. Inr eth_matcher) text = Inr nic_config"
proof -
  have "valid_domain ''d.e''" by code_simp
  then have "config_ok (\<lambda>_. Inr eth_matcher) nic_config"
    by (simp add: config_ok_def nic_config_def overlapping_config_def compiles_def)
  moreover have "nic_config = config_normal (\<lambda>_. Inr eth_matcher) nic_config"
    by (simp add: config_normal_def nic_config_def overlapping_config_def nbc_normal_def compiled_def)
  ultimately show ?thesis by (auto simp: parseConfig_Inr_iff)
qed

lemma app_never_panics_witness:
  "\<exists>st a. start_entry demo_env no_rdma nic_config (hd (config_entries nic_config)) (empty_app empty_registry) = Return st \<and>
     pipeline_event demo_env 0 (Init [demo_nic]) (fst st) = Return a"
proof -
  have entries: "config_entries nic_config = [NetBWEntry (hd (NetworkBandwidth nic_config))]"
    by (simp add: config_entries_def nic_config_def overlapping_config_def)
  have safe: "\<forall>e \<in> set (config_entries nic_config). entry_safe e"
    by (simp add: entries) (simp add: nic_config_def)
  note never = app_never_panics [OF nic_config_parsed safe]
  obtain a0 cancel0 where empty: "empty_app empty_registry = (a0, cancel0)" by (cases "empty_app empty_registry :: started_app")
  have "app_reachable demo_env no_rdma nic_config (config_entries nic_config, (a0, cancel0))"
    using reach_empty [of demo_env no_rdma nic_config] by (simp add: empty)
  from never [OF this] entries obtain st where
    start: "start_entry demo_env no_rdma nic_config (hd (config_entries nic_config)) (a0, cancel0) = Return st" by auto
  obtain a cancel where st: "st = (a, cancel)" by (cases st)
  have "app_reachable demo_env no_rdma nic_config ([], (a, cancel))"
    using reach_step [OF reach_empty [of demo_env no_rdma nic_config]] step_start [OF start, of "[]"] entries
    by (simp add: empty st)
  note never = never [OF this]
  from start_entry_appends [OF start] have "0 < length (app_pipelines a)"
    by (auto simp: st chain_pipeline_appends dest: arg_cong [of _ _ "\<lambda>x. app_pipelines (fst x)"])
  moreover have "kernel_speed demo_nic" by (simp add: kernel_speed_def demo_nic_speed atoi_25)
  ultimately obtain a' where "pipeline_event demo_env 0 (Init [demo_nic]) a = Return a'"
    using never by (metis event_devices.simps(1) list.set(1) list.set(2) empty_iff insert_iff)
  with start empty st show ?thesis by auto
qed


text \<open>
  C19: Everything the running application stores is of its type. In every run, whatever fails, each
  resource of a scatter lies under its own template, which the templater of that scatter made for
  some device; each instance lies under its own id and is one that its mapper made for some device,
  or such an instance with a health on top, never an override of an override; and the instances of
  a batch are its seats, all of them.
\<close>

theorem app_resources_typed:
  assumes "app_reachable env rdma c (es, (a, cancel))" and "n < length (app_pipelines a)"
  shows "pipeline_typed (app_pipelines a ! n)"
  using app_reachable_typed [OF assms(1)] assms(2) by (simp add: list_all_length)

lemma app_resources_typed_witness:
  "\<exists>a cancel rts k res. app_reachable demo_env no_rdma overlapping_config ([], (a, cancel)) \<and>
     app_pipelines a ! 0 = overlapping_pipeline rts \<and> rts k = Some res \<and> res_template res = k \<and>
     k \<in> made_templates (PartitionLabelMatcherTemplater ''d.e'' demo_matcher)"
proof -
  from overlapping_run obtain a cancel rts where
    run: "app_reachable demo_env no_rdma overlapping_config ([], (a, cancel))"
    and a: "app_pipelines a = [overlapping_pipeline rts, overlapping_pipeline Map.empty]"
    and names: "template_Name ` dom rts = {''d.e/part-disk1''}" by (elim exE conjE) (rule that)
  from names have "dom rts \<noteq> {}" by force
  then obtain k res where k: "rts k = Some res" by fast
  from app_resources_typed [OF run, of 0] a
  have "routes_typed (PartitionLabelMatcherTemplater ''d.e'' demo_matcher)
      (partition_mapper ''d.e'' demo_matcher False) rts" by simp
  with k have "res_template res = k" "k \<in> made_templates (PartitionLabelMatcherTemplater ''d.e'' demo_matcher)"
    by (simp_all add: routes_typed_def)
  with run a k show ?thesis
    by (intro exI [of _ a] exI [of _ cancel] exI [of _ rts] exI [of _ k] exI [of _ res]) simp
qed

end
