(* ===== verification/App_Trace.thy ===== *)
theory App_Trace
  imports App_Types Plugin_Server
begin

text \<open>
  The pipelines side by side: when the registry fails nothing and no other entry can take the names
  of a pipeline, that pipeline keeps the resources it would keep on its own, whatever the others do.
  Composed with the configuration, the discovery and the allocation this gives what a partition of
  the machine becomes for the kubelet.
\<close>

section \<open>The events of one pipeline\<close>

fun handled :: "nat \<Rightarrow> app_label list \<Rightarrow> event list" where
  "handled n [] = []"
| "handled n (Handles m e # ls) = (if m = n then e # handled n ls else handled n ls)"
| "handled n (l # ls) = handled n ls"

lemma handled_append [simp]: "handled n (ls @ ls') = handled n ls @ handled n ls'"
  by (induction n ls rule: handled.induct) simp_all

section \<open>The names of an entry\<close>

text \<open>Every name that the pipeline of an entry can ask for.\<close>

fun entry_names :: "appConfig \<Rightarrow> entry \<Rightarrow> string set" where
  "entry_names c (PartitionEntry pc) = {entry_domain c pc @ ''/part-'' @ x |x. True}"
| "entry_names c (BatchEntry bc) =
     {effective_domain (bc_DomainOverride bc) (DeviceDomain c) @ ''/batch-'' @ bc_Name bc}"
| "entry_names c (NetBWEntry nbc) = {DeviceDomain c @ ''/netbw-'' @ x |x. True}"
| "entry_names c (NetRdmaEntry nrc) = {DeviceDomain c @ ''/netrdma-'' @ x |x. True}"

definition own_names :: "appConfig \<Rightarrow> nat \<Rightarrow> bool" where
  "own_names c n \<longleftrightarrow> (\<forall>i < length (config_entries c). i \<noteq> n \<longrightarrow>
     entry_names c (config_entries c ! i) \<inter> entry_names c (config_entries c ! n) = {})"

text \<open>The templater of an entry makes different templates with different names, all of that entry.\<close>

lemma pipeline_of_names:
  assumes "pipeline_of rdma Compile c e (ScatterPipeline tm mp rts)"
  shows "inj_on template_Name (made_templates tm)" and "template_Name ` made_templates tm \<subseteq> entry_names c e"
proof -
  have "\<exists>d x. (\<forall>k \<in> made_templates tm. Domain k = d \<and> (\<exists>y. Prefix k = x @ y)) \<and>
      {d @ ''/'' @ x @ y |y. True} \<subseteq> entry_names c e"
  proof (cases e)
    case (PartitionEntry pc)
    with assms show ?thesis
      by (intro exI [of _ "entry_domain c pc"] exI [of _ "''part-''"])
        (auto simp: made_templates_def PartitionLabelMatcherTemplater_def split: option.splits prod.splits)
  next
    case (NetBWEntry nbc)
    with assms show ?thesis
      by (intro exI [of _ "DeviceDomain c"] exI [of _ "''netbw-''"])
        (auto simp: made_templates_def NetBWMatcherTemplater_def split: option.splits prod.splits)
  next
    case (NetRdmaEntry nrc)
    with assms show ?thesis
      by (intro exI [of _ "DeviceDomain c"] exI [of _ "''netrdma-''"])
        (auto simp: made_templates_def NetRdmaMatcherTemplater_def split: option.splits prod.splits)
  qed (use assms in simp)
  then obtain d x where k: "\<And>k. k \<in> made_templates tm \<Longrightarrow> Domain k = d \<and> (\<exists>y. Prefix k = x @ y)"
    and sub: "{d @ ''/'' @ x @ y |y. True} \<subseteq> entry_names c e" by blast
  show "inj_on template_Name (made_templates tm)"
    by (rule inj_onI) (use k in \<open>auto simp: template_Name_def intro: resource_template.equality\<close>)
  have "template_Name t \<in> {d @ ''/'' @ x @ y |y. True}" if "t \<in> made_templates tm" for t
    using k [OF that] by (auto simp: template_Name_def)
  with sub show "template_Name ` made_templates tm \<subseteq> entry_names c e" by blast
qed

lemma pipeline_names_entry:
  assumes "pipeline_of rdma Compile c e p" and "pipeline_typed p"
  shows "pipeline_names p \<subseteq> entry_names c e"
proof (cases p)
  case (ScatterPipeline tm mp rts)
  with assms(2) have "dom rts \<subseteq> made_templates tm" by (auto simp: routes_typed_def)
  with pipeline_of_names(2) [OF assms(1) [unfolded ScatterPipeline]] ScatterPipeline
  show ?thesis by auto
next
  case (BatchPipeline m b)
  with assms(1) show ?thesis by (cases e) auto
qed simp

section \<open>Every step\<close>

abbreviation served_names :: "app \<Rightarrow> string set" where
  "served_names a \<equiv> (\<Union>p \<in> set (app_pipelines a). pipeline_names p)"

text \<open>The routes of a scatter are those of its own run over the events it handled.\<close>

fun undisturbed :: "event list \<Rightarrow> pipeline \<Rightarrow> bool" where
  "undisturbed evs (ScatterPipeline tm mp rts) \<longleftrightarrow>
     scatter_run tm mp always_add evs (new_scatter ()) = Return \<lparr>routes = rts, registry_state = ()\<rparr>"
| "undisturbed evs p \<longleftrightarrow> True"

definition followed :: "rdmamap \<Rightarrow> compile \<Rightarrow> appConfig \<Rightarrow> app_label list \<Rightarrow> entry list \<times> app \<Rightarrow> bool" where
  "followed rdma Compile c ls x \<longleftrightarrow> (case x of (es, a) \<Rightarrow> \<exists>begun. config_entries c = begun @ es \<and>
     list_all2 (pipeline_of rdma Compile c) begun (app_pipelines a) \<and>
     taken_names (app_registry a) \<subseteq> served_names a \<and>
     (\<forall>n \<ge> length (app_pipelines a). handled n ls = []) \<and>
     (\<forall>n < length (app_pipelines a). own_names c n \<longrightarrow> undisturbed (handled n ls) (app_pipelines a ! n)))"

lemma chain_pipeline_simps:
  "app_pipelines (fst (chain_pipeline p r st)) = app_pipelines (fst st) @ [p]"
  "app_registry (fst (chain_pipeline p r st)) = r"
  by (simp_all add: chain_pipeline_def case_prod_beta)

lemma start_entry_taken:
  assumes env: "nothing_fails env" and start: "start_entry env rdma c e st = Return st'"
  shows "taken_names (app_registry (fst st')) \<subseteq> taken_names (app_registry (fst st)) \<union> served_names (fst st')"
proof (cases e)
  case (BatchEntry bc)
  with start obtain r made where
    new: "NewBatchPartitionScatter (registry_add env) (effective_domain (bc_DomainOverride bc) (DeviceDomain c))
        (bc_Name bc) (sint (bc_Count bc)) (app_registry (fst st)) = Return (r, made)"
    and st': "st' = chain_pipeline
        (case made of None \<Rightarrow> NoPipeline | Some b \<Rightarrow> BatchPipeline (the (bc_matcher bc)) b) r st"
    by (auto simp: start_batch_def elim!: bind_outcome_ReturnE)
  note exact = reliable.taken_exact [where env = env, unfolded nothing_fails_reliable [OF env]]
  from new have "taken_names r \<subseteq> taken_names (app_registry (fst st)) \<union>
      (case made of None \<Rightarrow> {} | Some b \<Rightarrow> {res_Name (bt_res b)})"
  proof (cases rule: NewBatch_cases)
    case (accepted b)
    with exact [of "bt_res b" "app_registry (fst st)"] show ?thesis by simp
  next
    case (refused res)
    with exact [of res "app_registry (fst st)"] show ?thesis by simp
  qed
  then show ?thesis by (cases made) (auto simp: st' chain_pipeline_simps)
qed (use start in \<open>auto simp: start_partition_def start_netbw_def start_netrdma_def Let_def chain_pipeline_simps\<close>)

lemma wired_undisturbed: "wired rdma Compile c e p \<Longrightarrow> undisturbed [] p"
  by (cases e) (auto simp: new_scatter_def)

lemma followed_start:
  assumes env: "nothing_fails env" and domain: "valid_domain (DeviceDomain c)"
    and ready: "list_all (entry_ready Compile) (config_entries c)"
    and old: "followed rdma Compile c ls (e # es, fst st)" and start: "start_entry env rdma c e st = Return st'"
  shows "followed rdma Compile c (ls @ [Starts e]) (es, fst st')"
proof -
  from old obtain begun where begun: "config_entries c = begun @ e # es"
    "list_all2 (pipeline_of rdma Compile c) begun (app_pipelines (fst st))"
    and taken: "taken_names (app_registry (fst st)) \<subseteq> served_names (fst st)"
    and idle: "\<forall>n \<ge> length (app_pipelines (fst st)). handled n ls = []"
    and alone: "\<forall>n < length (app_pipelines (fst st)). own_names c n \<longrightarrow>
      undisturbed (handled n ls) (app_pipelines (fst st) ! n)" by (auto simp: followed_def)
  have "entry_ready Compile e" using ready begun(1) by simp
  from start_entry_wired [OF this start_entry_fits [OF start] domain, of env rdma st] start obtain p r where
    st': "st' = chain_pipeline p r st" and p: "wired rdma Compile c e p" by auto
  have "list_all2 (pipeline_of rdma Compile c) (begun @ [e]) (app_pipelines (fst st'))"
    using begun(2) wired_pipeline_of [OF p] by (simp add: st' chain_pipeline_simps list_all2_appendI)
  moreover have "taken_names (app_registry (fst st')) \<subseteq> served_names (fst st')"
    using start_entry_taken [OF env start] taken by (auto simp: st' chain_pipeline_simps)
  moreover have "undisturbed (handled n ls) (app_pipelines (fst st') ! n)"
    if "n < length (app_pipelines (fst st'))" "own_names c n" for n
    using that alone idle wired_undisturbed [OF p]
    by (cases "n = length (app_pipelines (fst st))") (auto simp: st' chain_pipeline_simps nth_append)
  ultimately show ?thesis using begun(1) idle
    by (auto simp: followed_def st' chain_pipeline_simps intro!: exI [of _ "begun @ [e]"])
qed

lemma handled_snoc: "handled n (ls @ [Handles m e]) = handled n ls @ (if m = n then [e] else [])"
  by simp

lemma undisturbed_step:
  assumes env: "nothing_fails env"
    and old: "undisturbed evs (ScatterPipeline tm mp rts)" and typed: "dom rts \<subseteq> made_templates tm"
    and excl: "exclusive tm others" and taken: "taken_names r \<subseteq> template_Name ` dom rts \<union> others"
    and event: "scatter_event tm mp (registry_add env) ev \<lparr>routes = rts, registry_state = r\<rparr> = Return s"
  shows "undisturbed (evs @ [ev]) (ScatterPipeline tm mp (routes s))"
proof -
  note alone = reliable.event_alone [where env = env, unfolded nothing_fails_reliable [OF env]]
  have "reliable.accounted tm others \<lparr>routes = rts, registry_state = r\<rparr>"
    using typed taken by (simp add: reliable.accounted_def)
  from alone [OF excl this event]
  have "scatter_event tm mp always_add ev \<lparr>routes = rts, registry_state = ()\<rparr> =
    Return \<lparr>routes = routes s, registry_state = ()\<rparr>" by (simp add: alone_def)
  with old show ?thesis by (simp add: scatter_run_append)
qed

text \<open>The names the other pipelines serve.\<close>

definition other_names :: "nat \<Rightarrow> pipeline list \<Rightarrow> string set" where
  "other_names n ps = (\<Union>i \<in> {i. i < length ps \<and> i \<noteq> n}. pipeline_names (ps ! i))"

lemma served_update:
  assumes "n < length ps"
  shows "(\<Union>p \<in> set (ps[n := q]). pipeline_names p) = pipeline_names q \<union> other_names n ps"
proof -
  have "(\<Union>p \<in> set (ps[n := q]). pipeline_names p) = (\<Union>i < length ps. pipeline_names (ps[n := q] ! i))"
    using set_conv_nth [of "ps[n := q]"] by auto
  also have "\<dots> = (\<Union>i \<in> insert n {i. i < length ps \<and> i \<noteq> n}. pipeline_names (ps[n := q] ! i))"
    using assms by (intro SUP_cong) auto
  finally show ?thesis using assms by (simp add: other_names_def)
qed

lemma served_names_split:
  "n < length (app_pipelines a) \<Longrightarrow>
   served_names a = pipeline_names (app_pipelines a ! n) \<union> other_names n (app_pipelines a)"
  using served_update [of n "app_pipelines a" "app_pipelines a ! n"] by simp

lemma own_names_exclusive:
  assumes of: "list_all2 (pipeline_of rdma Compile c) begun ps" and entries: "config_entries c = begun @ es"
    and typed: "list_all pipeline_typed ps" and n: "n < length ps" and own: "own_names c n"
    and p: "ps ! n = ScatterPipeline tm mp rts"
  shows "exclusive tm (other_names n ps)"
proof -
  have entry: "pipeline_of rdma Compile c (config_entries c ! i) (ps ! i)" "i < length (config_entries c)"
    if "i < length ps" for i
    using of that entries list_all2_lengthD [OF of] by (simp_all add: list_all2_nthD2 nth_append)
  note names = pipeline_of_names [OF entry(1) [OF n, unfolded p]]
  have "pipeline_names (ps ! i) \<inter> entry_names c (config_entries c ! n) = {}" if "i < length ps" "i \<noteq> n" for i
  proof -
    have "pipeline_names (ps ! i) \<subseteq> entry_names c (config_entries c ! i)"
      using typed that(1) by (intro pipeline_names_entry [OF entry(1) [OF that(1)]]) (simp add: list_all_length)
    with own that entry(2) show ?thesis unfolding own_names_def by blast
  qed
  with names show ?thesis unfolding exclusive_def other_names_def by blast
qed

lemma followed_event:
  assumes env: "nothing_fails env" and old: "followed rdma Compile c ls (es, a)" and typed: "app_typed a"
    and n: "n < length (app_pipelines a)" and event: "pipeline_event env n ev a = Return a'"
  shows "followed rdma Compile c (ls @ [Handles n ev]) (es, a')"
proof -
  let ?ps = "app_pipelines a"
  from old obtain begun where entries: "config_entries c = begun @ es"
    and of: "list_all2 (pipeline_of rdma Compile c) begun ?ps"
    and taken: "taken_names (app_registry a) \<subseteq> served_names a"
    and idle: "\<forall>n \<ge> length ?ps. handled n ls = []"
    and alone: "\<forall>n < length ?ps. own_names c n \<longrightarrow> undisturbed (handled n ls) (?ps ! n)"
    by (auto simp: followed_def)
  have "\<exists>q. app_pipelines a' = ?ps[n := q] \<and>
      taken_names (app_registry a') \<subseteq> pipeline_names q \<union> other_names n ?ps \<and>
      (own_names c n \<longrightarrow> undisturbed (handled n ls @ [ev]) q)"
  proof (cases "?ps ! n")
    case p: (ScatterPipeline tm mp rts)
    let ?s = "\<lparr>routes = rts, registry_state = app_registry a\<rparr>"
    from event p obtain s where s: "scatter_event tm mp (registry_add env) ev ?s = Return s"
      and a': "a' = a\<lparr>app_registry := registry_state s, app_pipelines := ?ps[n := ScatterPipeline tm mp (routes s)]\<rparr>"
      by (auto simp: pipeline_event_def elim!: bind_outcome_ReturnE)
    have dom: "dom rts \<subseteq> made_templates tm"
      using typed n p by (auto simp: list_all_length routes_typed_def dest: spec [of _ n])
    have before: "taken_names (app_registry a) \<subseteq> template_Name ` dom rts \<union> other_names n ?ps"
      using taken served_names_split [OF n] p by simp
    have "reliable.accounted tm (other_names n ?ps) ?s"
      using dom before by (simp add: reliable.accounted_def)
    from reliable.event_accounted [where env = env, unfolded nothing_fails_reliable [OF env], OF this s]
    have "taken_names (registry_state s) \<subseteq> template_Name ` dom (routes s) \<union> other_names n ?ps"
      by (simp add: reliable.accounted_def)
    moreover have "undisturbed (handled n ls @ [ev]) (ScatterPipeline tm mp (routes s))" if "own_names c n"
    proof (rule undisturbed_step [OF env _ dom own_names_exclusive [OF of entries typed n that p] before s])
      show "undisturbed (handled n ls) (ScatterPipeline tm mp rts)" using alone n that p by metis
    qed
    ultimately show ?thesis using a' by (intro exI [of _ "ScatterPipeline tm mp (routes s)"]) simp
  next
    case p: (BatchPipeline m b)
    with event have a': "a' = a\<lparr>app_pipelines := ?ps[n := BatchPipeline m (batch_event m ev b)]\<rparr>"
      by (simp add: pipeline_event_def)
    show ?thesis
      using a' taken served_names_split [OF n] p
      by (intro exI [of _ "BatchPipeline m (batch_event m ev b)"]) (simp add: batch_event_name)
  next
    case p: NoPipeline
    have "?ps[n := NoPipeline] = ?ps" using list_update_id [of ?ps n] p by simp
    with event p taken served_names_split [OF n] show ?thesis
      by (intro exI [of _ NoPipeline]) (simp add: pipeline_event_def)
  qed
  then obtain q where q: "app_pipelines a' = ?ps[n := q]"
      "taken_names (app_registry a') \<subseteq> pipeline_names q \<union> other_names n ?ps"
      "own_names c n \<longrightarrow> undisturbed (handled n ls @ [ev]) q" by blast
  have "taken_names (app_registry a') \<subseteq> served_names a'" using q(2) served_update [OF n, of q] q(1) by simp
  moreover have "undisturbed (handled i (ls @ [Handles n ev])) (app_pipelines a' ! i)"
    if "i < length (app_pipelines a')" "own_names c i" for i
    using that alone q n by (cases "i = n") simp_all
  moreover have "\<forall>i \<ge> length (app_pipelines a'). handled i (ls @ [Handles n ev]) = []"
    using idle n q(1) by simp
  ultimately show ?thesis
    using pipeline_event_of [OF of event n] entries unfolding followed_def prod.case
    by (intro exI [of _ begun] conjI allI impI) (assumption | blast)+
qed

lemma followed_watch:
  "followed rdma Compile c ls (es, a) \<Longrightarrow>
   followed rdma Compile c (ls @ [Watches create name keys])
     (es, a\<lparr>app_registry := watch_event env create name keys (app_registry a)\<rparr>)"
  by (simp add: followed_def watch_names)

lemma followed_step:
  assumes env: "nothing_fails env" and domain: "valid_domain (DeviceDomain c)"
    and ready: "list_all (entry_ready Compile) (config_entries c)"
    and step: "app_step env rdma c x l y"
    and old: "followed rdma Compile c ls (fst x, fst (snd x))" and typed: "app_typed (fst (snd x))"
    and cleanup: "cleanup_ok (snd x)"
  shows "followed rdma Compile c (ls @ [l]) (fst y, fst (snd y))"
  using step
proof cases
  case (step_start e st st' es)
  with followed_start [OF env domain ready, of rdma ls e es st st'] old show ?thesis by simp
next
  case (step_event n a ev a' es cancel)
  with followed_event [OF env, of rdma Compile c ls es a n ev a'] old typed show ?thesis by simp
next
  case (step_watch es a cancel create name keys)
  with followed_watch [of rdma Compile c ls es a] old show ?thesis by simp
next
  case (step_exit es a cancel n)
  with old show ?thesis by (simp add: followed_def server_exit_def)
next
  case (step_cleanup a cancel)
  with old cleanup cleanup_okD [of a cancel a] show ?thesis by (simp add: followed_def)
qed

lemma followed_trace:
  assumes env: "nothing_fails env" and parsed: "parseConfig Decode Compile text = Inr c"
  shows "app_trace env rdma c ls x \<Longrightarrow> followed rdma Compile c ls (fst x, fst (snd x))"
proof (induction rule: app_trace.induct)
  case trace_empty
  show ?case by (simp add: followed_def empty_app_def empty_registry_def)
next
  case (trace_snoc ls x l y)
  from followed_step [OF env parsed_ready [OF parsed] trace_snoc.hyps(2) trace_snoc.IH]
    app_reachable_typed [OF app_trace_reachable [OF trace_snoc.hyps(1)]]
    app_reachable_cleanup [OF app_trace_reachable [OF trace_snoc.hyps(1)]]
  show ?case by simp
qed

section \<open>Entries with a domain of their own\<close>

lemma partition_names_apart:
  assumes domain: "valid_domain (DeviceDomain c)" and ready: "entry_ready Compile (PartitionEntry pc)" "entry_ready Compile e"
    and other: "\<And>pc'. e = PartitionEntry pc' \<Longrightarrow> entry_domain c pc' \<noteq> entry_domain c pc"
  shows "entry_names c e \<inter> entry_names c (PartitionEntry pc) = {}"
proof -
  have effective: "CHR ''/'' \<notin> set (effective_domain d (DeviceDomain c))" if "override_ok d" for d
    using valid_domain_no_slash [OF effective_valid [OF that domain]] .
  have mine: "CHR ''/'' \<notin> set (entry_domain c pc)" using ready(1) by (simp add: effective pc_ok_def)
  show ?thesis
  proof (cases e)
    case (PartitionEntry pc')
    then have "CHR ''/'' \<notin> set (entry_domain c pc')" using ready(2) by (simp add: effective pc_ok_def)
    with mine other [OF PartitionEntry] PartitionEntry show ?thesis by (auto simp: slash_names)
  next
    case (BatchEntry bc)
    then have "CHR ''/'' \<notin> set (effective_domain (bc_DomainOverride bc) (DeviceDomain c))"
      using ready(2) by (simp add: effective bc_ok_def)
    with mine BatchEntry show ?thesis by (auto simp: slash_names)
  qed (use mine valid_domain_no_slash [OF domain] in \<open>auto simp: slash_names\<close>)
qed

lemma own_names_partition:
  assumes domain: "valid_domain (DeviceDomain c)" and ready: "list_all (entry_ready Compile) (config_entries c)"
    and n: "n < length (Partitions c)"
    and other: "\<forall>j < length (Partitions c). j \<noteq> n \<longrightarrow>
      entry_domain c (Partitions c ! j) \<noteq> entry_domain c (Partitions c ! n)"
  shows "own_names c n"
  unfolding own_names_def
proof (intro allI impI)
  fix i assume i: "i < length (config_entries c)" "i \<noteq> n"
  have entry: "config_entries c ! n = PartitionEntry (Partitions c ! n)" "n < length (config_entries c)"
    using n by (simp_all add: config_entries_def nth_append)
  have apart: "entry_domain c pc' \<noteq> entry_domain c (Partitions c ! n)" if "config_entries c ! i = PartitionEntry pc'" for pc'
    using that i other by (auto simp: config_entries_def nth_append split: if_splits)
  have "entry_ready Compile (PartitionEntry (Partitions c ! n))" "entry_ready Compile (config_entries c ! i)"
    using ready i(1) entry by (metis list_all_length)+
  from partition_names_apart [OF domain this apart]
  show "entry_names c (config_entries c ! i) \<inter> entry_names c (config_entries c ! n) = {}"
    unfolding entry(1) .
qed

section \<open>From a trace to an allocation\<close>

text \<open>The routes of a scatter whose names are its own, after the events it handled.\<close>

lemma scatter_pipeline_run:
  assumes env: "nothing_fails env" and parsed: "parseConfig Decode Compile text = Inr c"
    and trace: "app_trace env rdma c ls (es, (a, cancel))" and own: "own_names c n"
    and n: "n < length (app_pipelines a)" and pipe: "app_pipelines a ! n = ScatterPipeline tm mp rts"
  shows "scatter_run tm mp always_add (handled n ls) (new_scatter ()) = Return \<lparr>routes = rts, registry_state = ()\<rparr>"
proof -
  from followed_trace [OF env parsed trace]
  have "\<forall>n < length (app_pipelines a). own_names c n \<longrightarrow> undisturbed (handled n ls) (app_pipelines a ! n)"
    by (auto simp: followed_def)
  with n own have "undisturbed (handled n ls) (app_pipelines a ! n)" by blast
  with pipe show ?thesis by simp
qed

text \<open>The entries whose pipelines handled an event have been started.\<close>

lemma handled_started:
  assumes env: "nothing_fails env" and parsed: "parseConfig Decode Compile text = Inr c"
    and trace: "app_trace env rdma c ls (es, (a, cancel))" and handles: "handled n ls \<noteq> []"
  shows "n < length (app_pipelines a)" and "pipeline_of rdma Compile c (config_entries c ! n) (app_pipelines a ! n)"
proof -
  from followed_trace [OF env parsed trace] have "\<forall>n \<ge> length (app_pipelines a). handled n ls = []"
    and follow: "pipelines_follow rdma Compile c es a"
    by (auto simp: followed_def pipelines_follow_def)
  with handles show n: "n < length (app_pipelines a)" by (meson not_le)
  from pipelines_follow_nth(2) [OF follow n] show "pipeline_of rdma Compile c (config_entries c ! n) (app_pipelines a ! n)" .
qed

text \<open>
  What the pipeline of an entry keeps for a device and answers for it, when its names are its own and
  it has handled all events of the discovery.
\<close>

lemma trace_slot:
  assumes parsed: "parseConfig Decode Compile text = Inr c" and env: "nothing_fails env"
    and trace: "app_trace env rdma c ls (es, (a, cancel))" and own: "own_names c n"
    and n: "n < length (app_pipelines a)" and pipe: "app_pipelines a ! n = ScatterPipeline tm mp rts"
    and disc: "removals_ok discovery" "disc_mux discovery s = Some (handled n ls)"
    and claims: "claims_ok tm mp (handled n ls)"
    and calm: "\<forall>d \<in> mentioned (handled n ls). \<not> panics (tm d) \<and> \<not> panics (mp d)"
    and plain: "\<forall>d is. mp d = Return (Inr is) \<longrightarrow> (\<forall>i \<in> set is. plain_inst i)"
    and dev: "dev \<in> mentioned (handled n ls)"
    and maps: "tm dev = Return (Inr (Some t))" "mp dev = Return (Inr is)" and i: "i \<in> set is"
  shows "\<exists>res j i' dev' is'. rts t = Some res \<and> template_Name t \<in> dom (reg_plugins (app_registry a)) \<and>
    res_instances res (inst_Id i) = Some j \<and>
    decode j = (i', if disc_DeviceById (dev_Id dev) discovery = None then Unhealthy else Healthy) \<and>
    inst_Id i' = inst_Id i \<and> mp dev' = Return (Inr is') \<and> i' \<in> set is' \<and> dev_Id dev' = dev_Id dev \<and>
    disc_DeviceById (dev_Id dev) discovery \<in> {None, Some dev'} \<and>
    plugin_Allocate w order res [[inst_Id i]] = Inr [inst_response w order i']"
proof -
  from scatter_slot [where add = always_add and r = "()", OF disc claims _ calm plain dev maps i]
    scatter_pipeline_run [OF env parsed trace own n pipe]
  obtain res j i' dev' is' where res: "rts t = Some res" "res_instances res (inst_Id i) = Some j"
    and j: "decode j = (i', if disc_DeviceById (dev_Id dev) discovery = None then Unhealthy else Healthy)"
    and dev': "inst_Id i' = inst_Id i" "mp dev' = Return (Inr is')" "i' \<in> set is'" "dev_Id dev' = dev_Id dev"
      "disc_DeviceById (dev_Id dev) discovery \<in> {None, Some dev'}"
    by (auto simp: always_add_def)
  have "pipeline_names (app_pipelines a ! n) \<subseteq> taken_names (app_registry a)"
    using app_reachable_ok [OF app_trace_reachable [OF trace]] owned_once_names n by (simp add: app_ok_def)
  then have "template_Name t \<in> taken_names (app_registry a)" using pipe res(1) by auto
  moreover have "plugin_Allocate w order res [[inst_Id i]] = Inr [inst_response w order i']"
    using res(2) decode_Allocate [OF j] inst_Allocate_response [of w order i'] by (simp add: plugin_Allocate_def)
  ultimately show ?thesis using res j dev' by blast
qed

text \<open>A partition entry with a domain of its own.\<close>

lemma trace_reaches_container:
  fixes c n defines "d \<equiv> entry_domain c (Partitions c ! n)" and "hints \<equiv> DisableTopologyHints c"
  assumes parsed: "parseConfig Decode Compile text = Inr c" and env: "nothing_fails env"
    and trace: "app_trace env rdma c ls (es, (a, cancel))" and n: "n < length (Partitions c)"
    and other: "\<forall>j < length (Partitions c). j \<noteq> n \<longrightarrow> entry_domain c (Partitions c ! j) \<noteq> d"
    and pipe: "n < length (app_pipelines a)" "app_pipelines a ! n = partition_pipeline d m hints rts"
    and disc: "removals_ok discovery" "disc_mux discovery s = Some (handled n ls)"
    and claims: "claims_ok (partition_templater d m) (partition_mapper d m hints) (handled n ls)"
    and dev: "dev \<in> mentioned (handled n ls)"
    and t: "PartitionLabelMatcherTemplater d m dev = Return (Inr (Some t))"
    and p: "PartitionLabelMatcherInstances d m hints dev = Return (Inr [p])"
  shows "\<exists>res j dev'. rts t = Some res \<and>
    template_Name t \<in> dom (reg_plugins (app_registry a)) \<and> res_instances res (partition_Id p) = Some j \<and>
    inst_Health w j = (if disc_DeviceById (dev_Id dev) discovery = None then Unhealthy else Healthy) \<and>
    dev_Id dev' = dev_Id dev \<and> disc_DeviceById (dev_Id dev) discovery \<in> {None, Some dev'} \<and>
    plugin_Allocate w order res [[partition_Id p]] = Inr [allocatePartitionDevice dev' d (partition_Id p)]"
proof -
  let ?tm = "partition_templater d m" and ?mp = "partition_mapper d m hints"
  have own: "own_names c n" using other unfolding d_def by (intro own_names_partition [OF parsed_ready [OF parsed] n])
  have "well_behaved ?tm ?mp always_add" by (rule partition_well_behaved) (simp add: always_add_def)
  then have calm: "\<forall>d \<in> mentioned (handled n ls). \<not> panics (?tm d) \<and> \<not> panics (?mp d)"
    and plain: "\<forall>d is. ?mp d = Return (Inr is) \<longrightarrow> (\<forall>i \<in> set is. plain_inst i)" by (simp_all add: well_behaved_def)
  have mp: "?mp dev = Return (Inr [PartitionInstance p])" using p by (simp add: partition_mapper_def as_insts_def)
  from trace_slot [OF parsed env trace own pipe disc claims calm plain dev t mp,
      where i = "PartitionInstance p" and w = w and order = order, unfolded inst_Id.simps list.set, OF insertI1]
  obtain res j i' dev' is' where res: "rts t = Some res" "template_Name t \<in> dom (reg_plugins (app_registry a))"
      "res_instances res (partition_Id p) = Some j"
    and j: "decode j = (i', if disc_DeviceById (dev_Id dev) discovery = None then Unhealthy else Healthy)"
    and dev': "inst_Id i' = partition_Id p" "?mp dev' = Return (Inr is')" "i' \<in> set is'" "dev_Id dev' = dev_Id dev"
      "disc_DeviceById (dev_Id dev) discovery \<in> {None, Some dev'}"
    and alloc: "plugin_Allocate w order res [[partition_Id p]] = Inr [inst_response w order i']"
    by (elim exE conjE) (rule that, assumption+)
  from dev'(2,3) obtain q where q: "i' = PartitionInstance q" "part_domain q = d" "part_dev q = dev'"
    by (auto simp: partition_mapper_def as_insts_def partition_mappings split: option.splits prod.splits)
  with alloc dev'(1) have "plugin_Allocate w order res [[partition_Id p]] =
      Inr [allocatePartitionDevice dev' d (partition_Id p)]"
    by (simp add: inst_response_def partition_Allocate_def partition_Id_def)
  moreover have "inst_Health w j = (if disc_DeviceById (dev_Id dev) discovery = None then Unhealthy else Healthy)"
    by (rule partition_present_health [OF j]) (simp add: q partition_Health_def)
  ultimately show ?thesis using res dev'(4,5) by blast
qed

text \<open>One entry, one partition that is announced and goes away again.\<close>

definition single_config :: appConfig where
  "single_config = overlapping_config\<lparr>Partitions := [\<lparr>pc_Matcher = ''ydb_(.*)'', pc_DomainOverride = [],
     pc_matcher = Some demo_matcher\<rparr>]\<rparr>"

lemma single_config_parsed: "parseConfig (\<lambda>_. Inr single_config) (\<lambda>_. Inr demo_matcher) text = Inr single_config"
proof -
  have "valid_domain ''d.e''" by code_simp
  then have "config_ok (\<lambda>_. Inr demo_matcher) single_config"
    by (simp add: config_ok_def single_config_def overlapping_config_def pc_ok_def override_ok_def compiles_def
        demo_matcher_def MustCompile_def literal_def)
  moreover have "single_config = config_normal (\<lambda>_. Inr demo_matcher) single_config"
    by (simp add: config_normal_def single_config_def overlapping_config_def pc_normal_def compiled_def)
  ultimately show ?thesis by (auto simp: parseConfig_Inr_iff)
qed

lemma partition_event_returns:
  assumes "app_pipelines a ! n = partition_pipeline d m h rts" and "n < length (app_pipelines a)"
  shows "\<exists>a' rts'. pipeline_event env n ev a = Return a' \<and> app_pipelines a' ! n = partition_pipeline d m h rts' \<and>
    n < length (app_pipelines a')"
proof -
  have "\<not> panics (partition_templater d m dev) \<and> \<not> panics (partition_mapper d m h dev)" for dev
    by (simp_all add: partition_mapper_def as_insts_def partition_mappings split: option.split prod.split)
  from scatter_event_returns [where tm = "partition_templater d m" and mp = "partition_mapper d m h", OF this,
      where add = "registry_add env" and e = ev and s = "\<lparr>routes = rts, registry_state = app_registry a\<rparr>"]
  obtain s where "scatter_event (partition_templater d m) (partition_mapper d m h) (registry_add env) ev
      \<lparr>routes = rts, registry_state = app_registry a\<rparr> = Return s" by blast
  with assms show ?thesis by (simp add: pipeline_event_def)
qed

end
