(* ===== verification/Plugin_Life.thy ===== *)
theory Plugin_Life
  imports Plugin_Names
begin

text \<open>
  The servers and the socket files of a registry: every file belongs to the running server that was
  started at its path, whatever fails and whatever is restarted. What adding a resource keeps, a
  scatter and a batch keep.
\<close>

section \<open>Invariants of a shared registry\<close>

locale registry_invariant =
  fixes add :: "resource \<Rightarrow> 'r \<Rightarrow> 'r \<times> bool"
    and kept :: "'r \<Rightarrow> bool"
  assumes add_keeps: "kept r \<Longrightarrow> kept (fst (add res r))"
begin

lemma added_keeps:
  assumes "kept (registry_state s)" and "scatter_added tm mp add dev s = Return s'"
  shows "kept (registry_state s')"
  using assms(2)
proof (cases rule: scatter_added_cases)
  case (accepted d k "is" m r')
  with add_keeps [OF assms(1), of "newResource k m"] show ?thesis by simp
next
  case (refused d k m r')
  with add_keeps [OF assms(1), of "newResource k m"] show ?thesis by simp
qed (use assms(1) in simp_all)

lemma init_keeps:
  "kept (registry_state s) \<Longrightarrow> scatter_init tm mp add ds s = Return s' \<Longrightarrow> kept (registry_state s')"
proof (induction ds arbitrary: s)
  case (Cons d ds)
  from Cons.prems(2) obtain s1 where s1: "scatter_added tm mp add (Some d) s = Return s1"
    and rest: "scatter_init tm mp add ds s1 = Return s'" by (auto elim!: bind_outcome_ReturnE)
  from added_keeps [OF Cons.prems(1) s1] rest show ?case by (rule Cons.IH)
qed simp

lemma event_keeps:
  assumes "kept (registry_state s)" and "scatter_event tm mp add e s = Return s'"
  shows "kept (registry_state s')"
proof (cases e)
  case (Removed d)
  with assms(2) have "scatter_removed tm mp (Some d) s = Return s'" by simp
  then show ?thesis by (cases rule: scatter_removed_cases) (use assms(1) in simp_all)
qed (use assms in \<open>auto intro: init_keeps added_keeps\<close>)

end

section \<open>Servers and socket files\<close>

definition servers_ok :: "registry \<Rightarrow> bool" where
  "servers_ok r \<longleftrightarrow> (\<forall>path n. reg_sockets r path = Some n \<longrightarrow> n \<in> reg_running r \<and> reg_paths r n = Some path) \<and>
     (\<forall>n \<in> reg_running r. n < reg_next r) \<and>
     (\<forall>k p. reg_plugins r k = Some p \<longrightarrow> reg_paths r (plug_server p) = Some (plug_path p) \<and> plug_server p < reg_next r)"

lemma servers_ok_socket:
  "servers_ok r \<Longrightarrow> reg_sockets r path = Some n \<Longrightarrow> n \<in> reg_running r \<and> reg_paths r n = Some path"
  by (simp add: servers_ok_def)

lemma servers_ok_running: "servers_ok r \<Longrightarrow> n \<in> reg_running r \<Longrightarrow> n < reg_next r"
  by (simp add: servers_ok_def)

lemma servers_ok_plugin:
  "servers_ok r \<Longrightarrow> reg_plugins r k = Some p \<Longrightarrow> reg_paths r (plug_server p) = Some (plug_path p) \<and> plug_server p < reg_next r"
  by (simp add: servers_ok_def)

lemma servers_ok_finite: "servers_ok r \<Longrightarrow> finite (reg_running r)"
  by (rule finite_subset [of _ "{..<reg_next r}"]) (auto dest: servers_ok_running)

lemma servers_ok_idle: "servers_ok r \<Longrightarrow> reg_running r = {} \<Longrightarrow> reg_sockets r = Map.empty"
proof (rule ext)
  fix path assume "servers_ok r" "reg_running r = {}"
  then show "reg_sockets r path = None" using servers_ok_socket [of r path] by (cases "reg_sockets r path") auto
qed

lemma servers_ok_empty: "servers_ok empty_registry"
  by (simp add: servers_ok_def empty_registry_def)

lemma servers_ok_kubelet: "servers_ok (r\<lparr>reg_kubelet := ks\<rparr>) = servers_ok r"
  by (simp add: servers_ok_def)

lemma servers_ok_unlink: "servers_ok r \<Longrightarrow> servers_ok (r\<lparr>reg_sockets := (reg_sockets r)(path := None)\<rparr>)"
  by (auto simp: servers_ok_def)

lemma servers_ok_started:
  assumes ok: "servers_ok r"
  shows "servers_ok (started env res r)"
proof -
  have "reg_paths (started env res r) (plug_server p) = Some (plug_path p) \<and> plug_server p < Suc (reg_next r)"
    if "reg_plugins r k = Some p" for k p
    using servers_ok_plugin [OF ok that] by (auto simp: started_def)
  moreover have "n < Suc (reg_next r)" if "n \<in> reg_running r" for n
    using servers_ok_running [OF ok that] by simp
  moreover have "reg_paths (started env res r) n = Some path \<and> n \<in> reg_running r" if "reg_sockets r path = Some n" for path n
    using servers_ok_socket [OF ok that] servers_ok_running [OF ok, of n] by (auto simp: started_def)
  ultimately show ?thesis unfolding servers_ok_def by (auto simp: started_def split: if_splits)
qed

lemma servers_ok_store:
  assumes "servers_ok r" and "reg_paths r (plug_server p) = Some (plug_path p)" and "plug_server p < reg_next r"
  shows "servers_ok (r\<lparr>reg_plugins := (reg_plugins r)(k \<mapsto> p)\<rparr>)"
  using assms by (auto simp: servers_ok_def)

lemma servers_ok_exit:
  assumes ok: "servers_ok r"
  shows "servers_ok (server_exit n r)"
proof (cases "reg_paths r n")
  case None
  then have "reg_sockets r path \<noteq> Some n" for path using servers_ok_socket [OF ok, of path n] by auto
  with ok None show ?thesis by (auto simp: servers_ok_def server_exit_def)
next
  case (Some path)
  then have "reg_sockets r q = Some n \<Longrightarrow> q = path" for q using servers_ok_socket [OF ok, of q n] by auto
  with ok Some show ?thesis by (fastforce simp: servers_ok_def server_exit_def)
qed

text \<open>Stopping a stored plugin is the exit of its server, if that still runs.\<close>

lemma plugin_stop_exit:
  assumes "servers_ok r" and "reg_plugins r k = Some p"
  shows "plugin_stop p r = (if plug_server p \<in> reg_running r then server_exit (plug_server p) r else r)"
  using servers_ok_plugin [OF assms] by (simp add: plugin_stop_def server_exit_def)

lemma servers_ok_newPlugin:
  assumes ok: "servers_ok r"
  shows "servers_ok (fst (newPlugin env res r))"
proof -
  have "servers_ok (started env res r)" using ok by (rule servers_ok_started)
  with ok servers_ok_unlink [OF ok] show ?thesis
    by (simp add: newPlugin_def Let_def started_def)
qed

lemma servers_ok_register: "servers_ok r \<Longrightarrow> servers_ok (fst (register env p r))"
  by (simp add: register_def Let_def servers_ok_kubelet)

lemma servers_ok_keep:
  assumes "servers_ok r"
  shows "servers_ok (fst (register env (new_handle env res r)
    ((started env res r)\<lparr>reg_plugins := (reg_plugins (started env res r))(k \<mapsto> new_handle env res r)\<rparr>)))"
  by (intro servers_ok_register servers_ok_store servers_ok_started assms)
    (simp_all add: started_def new_handle_def)

lemma servers_ok_Add:
  assumes ok: "servers_ok r"
  shows "servers_ok (fst (registry_Add env res r))"
proof (cases rule: newPlugin_cases [of env res r])
  case (failed r' e)
  with servers_ok_newPlugin [OF ok, of env res] show ?thesis by (simp add: registry_Add_def)
next
  case started
  with servers_ok_keep [OF ok] servers_ok_started [OF ok] show ?thesis
    by (simp add: registry_Add_def split: option.split)
qed

lemma servers_ok_hup_one:
  assumes ok: "servers_ok r"
  shows "servers_ok (hup_one env k r)"
proof (cases "reg_plugins r k")
  case (Some old)
  then have stopped: "servers_ok (plugin_stop old r)"
    using ok servers_ok_exit [OF ok] by (simp add: plugin_stop_exit)
  show ?thesis
  proof (cases rule: newPlugin_cases [of env "plug_resource old" "plugin_stop old r"])
    case (failed r' e)
    with servers_ok_newPlugin [OF stopped, of env "plug_resource old"] Some show ?thesis by (simp add: hup_one_def)
  next
    case started
    with servers_ok_keep [OF stopped, of env "plug_resource old" k] Some show ?thesis by (simp add: hup_one_def)
  qed
qed (use ok in \<open>simp add: hup_one_def\<close>)

lemma servers_ok_hup: "servers_ok r \<Longrightarrow> servers_ok (hup env ks r)"
  by (induction ks arbitrary: r) (simp_all add: servers_ok_hup_one)

lemma servers_ok_watch: "servers_ok r \<Longrightarrow> servers_ok (watch_event env create name ks r)"
  by (simp add: watch_event_def servers_ok_hup)

interpretation servers: registry_invariant "registry_add env" servers_ok for env
  by unfold_locales (simp add: registry_add_def Let_def servers_ok_Add)

end
