(* ===== verification/App_Process.thy ===== *)
theory App_Process
  imports App_Trace Plugin_Life
begin

text \<open>
  The process: \<open>main\<close> of \<open>cmd/udev-manager/main.go\<close> from the flags to its last deferred call, with the
  goroutines it starts. The monitor of the discovery, the pipelines with the channels of their
  subscriptions, the file watcher of the registry and the plugin servers run beside it.
\<close>

section \<open>State\<close>

text \<open>The deferred calls of \<open>main\<close>.\<close>

datatype deferred_call = WaitForGroup | CancelContext | CloseDiscovery | RunCleanup | CloseHealthServer

text \<open>
  Where \<open>main\<close> is: in the loops of \<open>startApp\<close>, before an entry or in the \<open>Subscribe\<close> of the pipeline
  just made, in the loop over the signals, in its deferred calls, in the cleanup before the cancel
  functions of the given subscriptions, or done.
\<close>

datatype phase =
    Starting "entry list"
  | Subscribing nat "entry list"
  | Serving
  | Returning
  | Cancelling "nat list"
  | Returned

text \<open>
  The stack of deferred calls, newest first; the application; the discovery with its subscribers
  named by the pipelines, and whether its monitor has read the devices; per pipeline the events that
  the multiplexer took for its channel and how many of them it has handled; the pipelines that are
  blocked for good; whether an event was ever lost because the multiplexer did not take it in time;
  whether the context is cancelled; whether the file watcher runs; and the address of the health
  server while it runs.
\<close>

record process =
  main_phase :: phase
  main_deferred :: "deferred_call list"
  main_app :: started_app
  main_discovery :: "nat discovery"
  main_enumerated :: bool
  main_got :: "nat \<Rightarrow> event list"
  main_handled :: "nat \<Rightarrow> nat"
  main_stuck :: "nat set"
  main_lost :: bool
  main_context_done :: bool
  main_watcher :: bool
  main_healthz :: "string option"

section \<open>Starting\<close>

text \<open>Both failures end the process without running a deferred call. \<open>NewDiscovery\<close> has no failure.\<close>

datatype exit_reason = LoadExit load_failure | StartExit reg_error

definition main_begin :: "process_env \<Rightarrow> (string \<Rightarrow> string + appConfig) \<Rightarrow> compile \<Rightarrow> string list \<Rightarrow> reg_env \<Rightarrow>
    exit_reason + appConfig \<times> process" where
  "main_begin w Decode Compile flags env =
     (case initFlags w Decode Compile flags of
        Inl err \<Rightarrow> Inl (LoadExit err)
      | Inr c \<Rightarrow>
          (case NewRegistry env of
             Inl err \<Rightarrow> Inl (StartExit err)
           | Inr registry \<Rightarrow> Inr (c, \<lparr>main_phase = Starting (config_entries c),
               main_deferred = [CloseDiscovery, CancelContext, WaitForGroup],
               main_app = empty_app registry, main_discovery = NewDiscovery, main_enumerated = False,
               main_got = (\<lambda>n. []), main_handled = (\<lambda>n. 0), main_stuck = {}, main_lost = False,
               main_context_done = False, main_watcher = True, main_healthz = None\<rparr>)))"

text \<open>A pipeline that the registry refused does not subscribe.\<close>

definition after_entry :: "started_app \<Rightarrow> entry list \<Rightarrow> phase" where
  "after_entry st es = (let ps = app_pipelines (fst st)
     in if last ps = NoPipeline then Starting es else Subscribing (length ps - 1) es)"

text \<open>The channels after a step of the discovery: every member of its multiplexer has got what it was sent.\<close>

definition hear :: "nat discovery \<Rightarrow> (nat \<Rightarrow> event list) \<Rightarrow> nat \<Rightarrow> event list" where
  "hear d got n = (case disc_mux d n of None \<Rightarrow> got n | Some evs \<Rightarrow> evs)"

definition set_discovery :: "nat discovery \<Rightarrow> process \<Rightarrow> process" where
  "set_discovery d x = x\<lparr>main_discovery := d, main_got := hear d (main_got x)\<rparr>"

definition set_registry :: "registry \<Rightarrow> process \<Rightarrow> process" where
  "set_registry r x = (case main_app x of (a, cancel) \<Rightarrow> x\<lparr>main_app := (a\<lparr>app_registry := r\<rparr>, cancel)\<rparr>)"

abbreviation main_registry :: "process \<Rightarrow> registry" where
  "main_registry x \<equiv> app_registry (fst (main_app x))"

abbreviation main_pipelines :: "process \<Rightarrow> pipeline list" where
  "main_pipelines x \<equiv> app_pipelines (fst (main_app x))"

definition serve :: "appConfig \<Rightarrow> process \<Rightarrow> process" where
  "serve c x = x\<lparr>main_phase := Serving, main_healthz := Some (CHR '':'' # show_nat (unat (HealthCheckPort c))),
     main_deferred := CloseHealthServer # RunCleanup # main_deferred x\<rparr>"

section \<open>Waiting for the discovery\<close>

text \<open>
  A pipeline handles one event, its channel holds one more, and the multiplexer waits with the next
  one in the \<open>Submit\<close> of the channel. While it waits for one of its members it takes no event, no
  subscription and no cancel request; a multiplexer that is closed lets all callers go.
\<close>

definition mux_free :: "process \<Rightarrow> bool" where
  "mux_free x \<longleftrightarrow> disc_done (main_discovery x) \<or>
     (\<forall>n. disc_mux (main_discovery x) n \<noteq> None \<longrightarrow> length (main_got x n) \<le> main_handled x n + 2)"

text \<open>
  The monitor takes a request once it has read the devices and unless it tries to reconnect; when it
  has ended the caller goes on without an answer.
\<close>

definition monitor_answers :: "process \<Rightarrow> bool" where
  "monitor_answers x \<longleftrightarrow> main_enumerated x \<and>
     (disc_done (main_discovery x) \<or> \<not> disc_retrying (main_discovery x))"

text \<open>The multiplexer accepts an event only while it is free.\<close>

fun input_taken :: "nat monitor_input \<Rightarrow> process \<Rightarrow> bool" where
  "input_taken (DeviceEvent action g accepted) x \<longleftrightarrow> (accepted \<longrightarrow> mux_free x)"
| "input_taken i x \<longleftrightarrow> True"

section \<open>Returning\<close>

text \<open>The wait group counts the monitor, the file watcher and one goroutine per plugin server.\<close>

definition group_done :: "process \<Rightarrow> bool" where
  "group_done x \<longleftrightarrow> disc_done (main_discovery x) \<and> \<not> main_watcher x \<and> reg_running (main_registry x) = {}"

text \<open>
  A deferred call, \<open>None\<close> while it blocks: closing the discovery waits for the monitor to take the
  request. The cleanup calls the cancel functions of the subscriptions one after another, and each of
  them waits for the multiplexer (\<open>main_cancel\<close> below); the calls it makes are noted when it begins.
\<close>

fun run_deferred :: "deferred_call \<Rightarrow> process \<Rightarrow> process option" where
  "run_deferred CloseHealthServer x = Some (x\<lparr>main_healthz := None\<rparr>)"
| "run_deferred RunCleanup x =
     (case main_app x of (a, cancel) \<Rightarrow> Some (x\<lparr>main_app := (cancel a, cancel)\<rparr>))"
| "run_deferred CloseDiscovery x =
     (if monitor_answers x then Some (x\<lparr>main_discovery := disc_Close (main_discovery x)\<rparr>) else None)"
| "run_deferred CancelContext x = Some (x\<lparr>main_context_done := True\<rparr>)"
| "run_deferred WaitForGroup x = (if group_done x then Some x else None)"

definition after_deferred :: "deferred_call \<Rightarrow> deferred_call list \<Rightarrow> process \<Rightarrow> phase" where
  "after_deferred d ds y =
     (if d = RunCleanup then Cancelling (app_cancelled (fst (main_app y))) else if ds = [] then Returned else Returning)"

section \<open>Steps\<close>

datatype signal = SIGINT | SIGTERM

text \<open>
  The monitor reads the devices, handles kernel events and errors and reconnects; requests come from
  the steps of \<open>main\<close>. A pipeline may block for good in the \<open>Submit\<close> of a resource, when a stream of
  that resource is itself blocked for good (\<open>stream_submit_deadlock\<close> in \<open>Plugin_Stream\<close>); it keeps
  the state of before the event. The process ends with the last deferred call, and nothing runs
  after it.
\<close>

fun kernel_input :: "nat monitor_input \<Rightarrow> bool" where
  "kernel_input (DeviceEvent action g accepted) = True"
| "kernel_input MonitorError = True"
| "kernel_input (Retry connected) = True"
| "kernel_input i = False"

inductive main_step :: "reg_env \<Rightarrow> rdmamap \<Rightarrow> appConfig \<Rightarrow> process \<Rightarrow> process \<Rightarrow> bool" for env rdma c where
  main_entry: "main_phase x = Starting (e # es) \<Longrightarrow> start_entry env rdma c e (main_app x) = Return st \<Longrightarrow>
    main_step env rdma c x (x\<lparr>main_app := st, main_phase := after_entry st es\<rparr>)"
| main_subscribe: "main_phase x = Subscribing n es \<Longrightarrow> monitor_answers x \<Longrightarrow> mux_free x \<Longrightarrow>
    range_order (disc_state (main_discovery x)) order \<Longrightarrow>
    main_step env rdma c x
      ((set_discovery (fst (disc_Subscribe n order (main_discovery x))) x)\<lparr>main_phase := Starting es\<rparr>)"
| main_serve: "main_phase x = Starting [] \<Longrightarrow> main_step env rdma c x (serve c x)"
| main_signal: "main_phase x = Serving \<Longrightarrow> signal \<in> {SIGINT, SIGTERM} \<Longrightarrow>
    main_step env rdma c x (x\<lparr>main_phase := Returning\<rparr>)"
| main_defer: "main_phase x = Returning \<Longrightarrow> main_deferred x = d # ds \<Longrightarrow> run_deferred d x = Some y \<Longrightarrow>
    main_step env rdma c x (y\<lparr>main_deferred := ds, main_phase := after_deferred d ds y\<rparr>)"
| main_cancel: "main_phase x = Cancelling (n # ns) \<Longrightarrow> mux_free x \<Longrightarrow>
    main_step env rdma c x (x\<lparr>main_discovery := disc_cancel n (main_discovery x), main_phase := Cancelling ns\<rparr>)"
| main_cancelled: "main_phase x = Cancelling [] \<Longrightarrow> main_step env rdma c x (x\<lparr>main_phase := Returning\<rparr>)"
| main_enumerate: "main_phase x \<noteq> Returned \<Longrightarrow> \<not> main_enumerated x \<Longrightarrow>
    main_step env rdma c x (x\<lparr>main_discovery := monitor_start opened devs (main_discovery x), main_enumerated := True\<rparr>)"
| main_monitor: "main_phase x \<noteq> Returned \<Longrightarrow> main_enumerated x \<Longrightarrow> kernel_input i \<Longrightarrow> input_taken i x \<Longrightarrow>
    main_step env rdma c x ((set_discovery (discovery_step i (main_discovery x)) x)
      \<lparr>main_lost := main_lost x \<or> \<not> monitor_ok i (main_discovery x)\<rparr>)"
| main_event: "main_phase x \<noteq> Returned \<Longrightarrow> n < length (main_pipelines x) \<Longrightarrow>
    main_handled x n < length (main_got x n) \<Longrightarrow> n \<notin> main_stuck x \<Longrightarrow>
    pipeline_event env n (main_got x n ! main_handled x n) (fst (main_app x)) = Return a \<Longrightarrow>
    main_step env rdma c x (x\<lparr>main_app := (a, snd (main_app x)),
      main_handled := (main_handled x)(n := Suc (main_handled x n))\<rparr>)"
| main_blocks: "main_phase x \<noteq> Returned \<Longrightarrow> n < length (main_pipelines x) \<Longrightarrow>
    main_handled x n < length (main_got x n) \<Longrightarrow>
    main_step env rdma c x (x\<lparr>main_stuck := insert n (main_stuck x)\<rparr>)"
| main_watch: "main_phase x \<noteq> Returned \<Longrightarrow> main_watcher x \<Longrightarrow>
    main_step env rdma c x (set_registry (watch_event env create name keys (main_registry x)) x)"
| main_watcher_exit: "main_phase x \<noteq> Returned \<Longrightarrow> main_watcher x \<Longrightarrow> main_context_done x \<Longrightarrow>
    main_step env rdma c x (x\<lparr>main_watcher := False\<rparr>)"
| main_server_exit: "main_phase x \<noteq> Returned \<Longrightarrow> main_context_done x \<Longrightarrow> n \<in> reg_running (main_registry x) \<Longrightarrow>
    main_step env rdma c x (set_registry (server_exit n (main_registry x)) x)"

abbreviation main_runs :: "reg_env \<Rightarrow> rdmamap \<Rightarrow> appConfig \<Rightarrow> process \<Rightarrow> process \<Rightarrow> bool" where
  "main_runs env rdma c \<equiv> rtranclp (main_step env rdma c)"

section \<open>The channels of the pipelines\<close>

text \<open>
  The next pipeline that may subscribe. The members of the multiplexer got what their channels hold;
  a pipeline that has not subscribed got nothing.
\<close>

fun next_sub :: "phase \<Rightarrow> nat \<Rightarrow> nat" where
  "next_sub (Subscribing n es) l = n"
| "next_sub _ l = l"

definition channels_ok :: "process \<Rightarrow> bool" where
  "channels_ok x \<longleftrightarrow> (\<forall>n evs. disc_mux (main_discovery x) n = Some evs \<longrightarrow> main_got x n = evs) \<and>
     (\<forall>n \<ge> next_sub (main_phase x) (length (main_pipelines x)).
        disc_mux (main_discovery x) n = None \<and> main_got x n = []) \<and>
     (\<forall>n es. main_phase x = Subscribing n es \<longrightarrow> Suc n = length (main_pipelines x))"

lemma channels_ok_got: "channels_ok x \<Longrightarrow> disc_mux (main_discovery x) n = Some evs \<Longrightarrow> main_got x n = evs"
  by (simp add: channels_ok_def)

lemma channels_ok_new:
  "channels_ok x \<Longrightarrow> next_sub (main_phase x) (length (main_pipelines x)) \<le> n \<Longrightarrow>
   disc_mux (main_discovery x) n = None \<and> main_got x n = []"
  by (simp add: channels_ok_def)

text \<open>Members may go, and nothing else changes.\<close>

lemma channels_ok_shrink:
  assumes "channels_ok x" and "\<And>n evs. disc_mux (main_discovery y) n = Some evs \<Longrightarrow> disc_mux (main_discovery x) n = Some evs"
    and "main_got y = main_got x"
    and "next_sub (main_phase x) (length (main_pipelines x)) \<le> next_sub (main_phase y) (length (main_pipelines y))"
    and "\<And>n es. main_phase y = Subscribing n es \<Longrightarrow> Suc n = length (main_pipelines y)"
  shows "channels_ok y"
proof -
  have "disc_mux (main_discovery y) n = None \<and> main_got y n = []"
    if n: "next_sub (main_phase y) (length (main_pipelines y)) \<le> n" for n
  proof -
    have "disc_mux (main_discovery x) n = None" "main_got x n = []"
      using channels_ok_new [OF assms(1) order.trans [OF assms(4) n]] by simp_all
    with assms(2) [of n] assms(3) show ?thesis by (cases "disc_mux (main_discovery y) n") auto
  qed
  moreover have "main_got y n = evs" if "disc_mux (main_discovery y) n = Some evs" for n evs
    using channels_ok_got [OF assms(1) assms(2) [OF that]] assms(3) by simp
  ultimately show ?thesis using assms(5) unfolding channels_ok_def by blast
qed

lemma kernel_step_mux:
  assumes "kernel_input i"
  shows "disc_mux (discovery_step i d) = disc_mux d \<or> (\<exists>e. disc_mux (discovery_step i d) = publish e (disc_mux d))"
proof (cases i)
  case (DeviceEvent action g acc)
  have "disc_mux (monitor_device action g acc d) = disc_mux d \<or>
      (\<exists>e. disc_mux (monitor_device action g acc d) = publish e (disc_mux d))"
    by (cases rule: monitor_device_cases [of action g acc d]; cases acc) (auto simp del: monitor_device.simps)
  with DeviceEvent show ?thesis by (simp add: discovery_step_def del: monitor_device.simps)
qed (use assms in \<open>simp_all add: discovery_step_def\<close>)

lemma disc_Subscribe_mux:
  assumes "disc_mux d n = None"
  shows "disc_mux (fst (disc_Subscribe n order d)) =
    (if disc_done d then disc_mux d else (disc_mux d)(n \<mapsto> [Init (range_values (disc_state d) order)]))"
  using assms by (auto simp: disc_Subscribe_def heard_before_def join_member_def)

lemma cancel_mux: "disc_mux (disc_cancel n d) k = (if k = n then None else disc_mux d k)"
  by (simp add: disc_cancel_def)

text \<open>A channel only grows.\<close>

lemma hear_grows:
  assumes ok: "channels_ok x"
    and mux: "\<And>n. disc_mux d n = None \<or> disc_mux d n = disc_mux (main_discovery x) n \<or>
      (\<exists>e. disc_mux d n = Some (main_got x n @ [e]))"
  shows "\<exists>more. hear d (main_got x) n = main_got x n @ more"
proof (cases "disc_mux d n")
  case None
  then show ?thesis by (simp add: hear_def)
next
  case (Some evs)
  with mux [of n] channels_ok_got [OF ok, of n evs] show ?thesis by (auto simp: hear_def)
qed

lemma monitor_mux:
  assumes "channels_ok x" and "kernel_input i"
  shows "disc_mux (discovery_step i (main_discovery x)) n = None \<or>
    disc_mux (discovery_step i (main_discovery x)) n = disc_mux (main_discovery x) n \<or>
    (\<exists>e. disc_mux (discovery_step i (main_discovery x)) n = Some (main_got x n @ [e]))"
  using kernel_step_mux [OF assms(2), of "main_discovery x"] channels_ok_got [OF assms(1), of n]
  by (cases "disc_mux (main_discovery x) n") auto

lemma subscribe_mux:
  assumes ok: "channels_ok x" and phase: "main_phase x = Subscribing n es"
  shows "disc_mux (fst (disc_Subscribe n order (main_discovery x))) k = disc_mux (main_discovery x) k \<or>
    (k = n \<and> (\<exists>e. disc_mux (fst (disc_Subscribe n order (main_discovery x))) k = Some (main_got x k @ [e])))"
proof -
  have new: "disc_mux (main_discovery x) n = None \<and> main_got x n = []"
    by (rule channels_ok_new [OF ok]) (simp add: phase)
  then show ?thesis by (auto simp: disc_Subscribe_mux)
qed

lemma set_discovery_simps [simp]:
  "main_phase (set_discovery d x) = main_phase x" "main_app (set_discovery d x) = main_app x"
  "main_handled (set_discovery d x) = main_handled x" "main_discovery (set_discovery d x) = d"
  "main_got (set_discovery d x) = hear d (main_got x)" "main_deferred (set_discovery d x) = main_deferred x"
  "main_healthz (set_discovery d x) = main_healthz x" "main_watcher (set_discovery d x) = main_watcher x"
  "main_context_done (set_discovery d x) = main_context_done x" "main_lost (set_discovery d x) = main_lost x"
  "main_enumerated (set_discovery d x) = main_enumerated x" "main_stuck (set_discovery d x) = main_stuck x"
  by (simp_all add: set_discovery_def)

lemma set_registry_simps [simp]:
  "main_phase (set_registry r x) = main_phase x" "main_pipelines (set_registry r x) = main_pipelines x"
  "main_handled (set_registry r x) = main_handled x" "main_discovery (set_registry r x) = main_discovery x"
  "main_got (set_registry r x) = main_got x" "main_deferred (set_registry r x) = main_deferred x"
  "main_healthz (set_registry r x) = main_healthz x" "main_watcher (set_registry r x) = main_watcher x"
  "main_context_done (set_registry r x) = main_context_done x" "main_lost (set_registry r x) = main_lost x"
  "main_enumerated (set_registry r x) = main_enumerated x" "main_stuck (set_registry r x) = main_stuck x"
  "main_registry (set_registry r x) = r"
  "app_cancelled (fst (main_app (set_registry r x))) = app_cancelled (fst (main_app x))"
  "main_app (set_registry r x) = ((fst (main_app x))\<lparr>app_registry := r\<rparr>, snd (main_app x))"
  by (simp_all add: set_registry_def case_prod_beta)

lemma start_entry_last:
  assumes "start_entry env rdma c e st = Return st'"
  shows "\<exists>p. app_pipelines (fst st') = app_pipelines (fst st) @ [p]"
  using start_entry_appends [OF assms] by (auto simp: chain_pipeline_simps)

lemma pipeline_event_length: "pipeline_event env n ev a = Return a' \<Longrightarrow> length (app_pipelines a') = length (app_pipelines a)"
  by (erule pipeline_event_shape) simp

lemma main_step_channels:
  assumes "main_step env rdma c x y" and ok: "channels_ok x" and cleanup: "cleanup_ok (main_app x)"
  shows "channels_ok y"
  using assms(1)
proof cases
  case (main_entry e es st)
  from start_entry_last [OF main_entry(3)] obtain p where
    p: "app_pipelines (fst st) = main_pipelines x @ [p]" by blast
  show ?thesis by (rule channels_ok_shrink [OF ok]) (auto simp: main_entry after_entry_def p Let_def split: if_splits)
next
  case (main_subscribe n es order)
  let ?d = "fst (disc_Subscribe n order (main_discovery x))"
  have len: "Suc n = length (main_pipelines x)" using ok main_subscribe by (simp add: channels_ok_def)
  have "disc_mux ?d k = None \<and> hear ?d (main_got x) k = []" if "length (main_pipelines x) \<le> k" for k
    using subscribe_mux [OF ok main_subscribe(2), of order k] channels_ok_new [OF ok, of k] main_subscribe len that
    by (auto simp: hear_def)
  moreover have "hear ?d (main_got x) k = evs" if "disc_mux ?d k = Some evs" for k evs
    using that by (simp add: hear_def)
  ultimately show ?thesis by (simp add: channels_ok_def main_subscribe)
next
  case (main_monitor i)
  let ?d = "discovery_step i (main_discovery x)"
  have "disc_mux ?d k = None \<and> hear ?d (main_got x) k = []"
    if "next_sub (main_phase x) (length (main_pipelines x)) \<le> k" for k
    using kernel_step_mux [OF main_monitor(4), of "main_discovery x"] channels_ok_new [OF ok that] by (auto simp: hear_def)
  moreover have "hear ?d (main_got x) k = evs" if "disc_mux ?d k = Some evs" for k evs
    using that by (simp add: hear_def)
  ultimately show ?thesis using ok by (simp add: channels_ok_def main_monitor)
next
  case (main_defer d ds y')
  then show ?thesis
  proof (cases d)
    case RunCleanup
    obtain a cancel where a: "main_app x = (a, cancel)" by (cases "main_app x")
    with main_defer RunCleanup cleanup_okD [of a cancel a] cleanup show ?thesis
      by (intro channels_ok_shrink [OF ok]) (auto simp: after_deferred_def)
  next
    case CloseDiscovery
    with main_defer show ?thesis
      by (intro channels_ok_shrink [OF ok]) (auto simp: after_deferred_def disc_Close_def monitor_exit_def split: if_splits)
  qed (auto intro!: channels_ok_shrink [OF ok] simp: after_deferred_def split: if_splits)
next
  case (main_cancel n ns)
  then show ?thesis by (intro channels_ok_shrink [OF ok]) (auto simp: cancel_mux split: if_splits)
next
  case (main_enumerate opened devs)
  then show ?thesis
    using ok by (intro channels_ok_shrink [OF ok])
      (auto simp: monitor_start_def monitor_exit_def channels_ok_def split: if_splits option.splits)
next
  case (main_event n a)
  then show ?thesis using ok pipeline_event_length [OF main_event(6)]
    by (intro channels_ok_shrink [OF ok]) (auto simp: channels_ok_def)
qed (use ok in \<open>auto intro!: channels_ok_shrink [OF ok] simp: serve_def channels_ok_def\<close>)

section \<open>Every run of the process is a run of the application\<close>

text \<open>The entries that are not started.\<close>

fun todo :: "phase \<Rightarrow> entry list" where
  "todo (Starting es) = es"
| "todo (Subscribing n es) = es"
| "todo _ = []"

text \<open>The pipelines read their channels in order.\<close>

definition app_run :: "reg_env \<Rightarrow> rdmamap \<Rightarrow> appConfig \<Rightarrow> process \<Rightarrow> bool" where
  "app_run env rdma c x \<longleftrightarrow> (\<exists>ls. app_trace env rdma c ls (todo (main_phase x), main_app x) \<and>
     (\<forall>n. handled n ls = take (main_handled x n) (main_got x n) \<and> main_handled x n \<le> length (main_got x n)))"

lemma app_run_keep:
  assumes "app_run env rdma c x" and "todo (main_phase y) = todo (main_phase x)" and "main_app y = main_app x"
    and "main_handled y = main_handled x" and grows: "\<And>n. \<exists>more. main_got y n = main_got x n @ more"
  shows "app_run env rdma c y"
proof -
  from assms(1) obtain ls where ls: "app_trace env rdma c ls (todo (main_phase x), main_app x)"
    "\<And>n. handled n ls = take (main_handled x n) (main_got x n)" "\<And>n. main_handled x n \<le> length (main_got x n)"
    by (auto simp: app_run_def)
  have "handled n ls = take (main_handled y n) (main_got y n) \<and> main_handled y n \<le> length (main_got y n)" for n
    using grows [of n] ls(2,3) [of n] assms(4) by auto
  with ls(1) assms(2,3) show ?thesis unfolding app_run_def by auto
qed

lemma app_run_step:
  assumes "app_run env rdma c x" and step: "app_step env rdma c (todo (main_phase x), main_app x) l (todo (main_phase y), main_app y)"
    and got: "main_got y = main_got x"
    and handled: "\<And>n. handled n [l] = take (main_handled y n - main_handled x n) (drop (main_handled x n) (main_got x n))"
    and mono: "\<And>n. main_handled x n \<le> main_handled y n" "\<And>n. main_handled x n \<le> length (main_got x n) \<Longrightarrow> main_handled y n \<le> length (main_got x n)"
  shows "app_run env rdma c y"
proof -
  from assms(1) obtain ls where ls: "app_trace env rdma c ls (todo (main_phase x), main_app x)"
    "\<And>n. handled n ls = take (main_handled x n) (main_got x n)" "\<And>n. main_handled x n \<le> length (main_got x n)"
    by (auto simp: app_run_def)
  have "handled n (ls @ [l]) = take (main_handled y n) (main_got y n)" for n
    using mono(1) [of n] ls(2,3) [of n] handled [of n] got
    by (simp add: take_add [symmetric, of "main_handled x n"] flip: handled_append) (simp add: take_add [symmetric])
  with trace_snoc [OF ls(1) step] mono(2) ls(3) got show ?thesis unfolding app_run_def by auto
qed

lemma todo_after_entry [simp]: "todo (after_entry st es) = es"
  by (simp add: after_entry_def Let_def)

lemma app_run_cleanup: "app_run env rdma c x \<Longrightarrow> cleanup_ok (main_app x)"
  by (auto simp: app_run_def dest!: app_trace_reachable app_reachable_cleanup)

lemma app_run_registry:
  assumes "app_run env rdma c x" and "app_step env rdma c (todo (main_phase x), main_app x) l
      (todo (main_phase x), ((fst (main_app x))\<lparr>app_registry := r\<rparr>, snd (main_app x)))"
    and "\<And>n. handled n [l] = []"
  shows "app_run env rdma c (set_registry r x)"
  by (rule app_run_step [OF assms(1)]) (use assms(2,3) in simp_all)

lemma main_step_app_run:
  assumes "main_step env rdma c x y" and channels: "channels_ok x" and run: "app_run env rdma c x"
  shows "app_run env rdma c y"
  using assms(1)
proof cases
  case (main_entry e es st)
  show ?thesis
    by (rule app_run_step [OF run, where l = "Starts e"]) (use main_entry in \<open>simp_all add: step_start\<close>)
next
  case (main_subscribe n es order)
  have "\<exists>more. hear (fst (disc_Subscribe n order (main_discovery x))) (main_got x) k = main_got x k @ more" for k
    by (rule hear_grows [OF channels]) (use subscribe_mux [OF channels main_subscribe(2)] in blast)
  then show ?thesis by (intro app_run_keep [OF run]) (simp_all add: main_subscribe)
next
  case (main_monitor i)
  have "\<exists>more. hear (discovery_step i (main_discovery x)) (main_got x) k = main_got x k @ more" for k
    by (rule hear_grows [OF channels]) (rule monitor_mux [OF channels main_monitor(4)])
  then show ?thesis by (intro app_run_keep [OF run]) (simp_all add: main_monitor)
next
  case (main_defer d ds y')
  show ?thesis
  proof (cases d)
    case RunCleanup
    obtain a cancel where a: "main_app x = (a, cancel)" by (cases "main_app x")
    show ?thesis
      by (rule app_run_step [OF run, where l = CleansUp]) (use main_defer RunCleanup a in \<open>auto simp: step_cleanup after_deferred_def\<close>)
  qed (use main_defer in \<open>auto intro!: app_run_keep [OF run] simp: after_deferred_def split: if_splits\<close>)
next
  case (main_event n a)
  obtain a0 cancel where a0: "main_app x = (a0, cancel)" by (cases "main_app x")
  show ?thesis
  proof (rule app_run_step [OF run, where l = "Handles n (main_got x n ! main_handled x n)"])
    show "app_step env rdma c (todo (main_phase x), main_app x) (Handles n (main_got x n ! main_handled x n))
        (todo (main_phase y), main_app y)"
      using main_event a0 by (simp add: step_event)
  qed (use main_event in \<open>auto simp: take_Suc_conv_app_nth hd_drop_conv_nth take_Suc\<close>)
next
  case (main_watch create name keys)
  obtain a cancel where a: "main_app x = (a, cancel)" by (cases "main_app x")
  show ?thesis unfolding main_watch(1)
    by (rule app_run_registry [OF run, where l = "Watches create name keys"]) (simp_all add: a step_watch)
next
  case (main_server_exit n)
  obtain a cancel where a: "main_app x = (a, cancel)" by (cases "main_app x")
  show ?thesis unfolding main_server_exit(1)
    by (rule app_run_registry [OF run, where l = "ServerExits n"]) (simp_all add: a step_exit)
qed (use run in \<open>auto intro!: app_run_keep [OF run] simp: serve_def\<close>)

section \<open>The discovery of the process\<close>

definition discovery_ok :: "process \<Rightarrow> bool" where
  "discovery_ok x \<longleftrightarrow> (\<not> main_enumerated x \<longrightarrow> main_discovery x = NewDiscovery) \<and>
     finite (dom (disc_state (main_discovery x))) \<and> (\<not> main_lost x \<longrightarrow> removals_ok (main_discovery x))"

lemma removals_ok_cancel: "removals_ok d \<Longrightarrow> removals_ok (disc_cancel n d)"
  by (auto simp: removals_ok_def udev.in_sync_def disc_cancel_def split: if_splits)

lemma cancel_state [simp]: "disc_state (disc_cancel n d) = disc_state d" "disc_done (disc_cancel n d) = disc_done d"
  by (simp_all add: disc_cancel_def)

lemma cancel_NewDiscovery [simp]: "disc_cancel n NewDiscovery = NewDiscovery"
  by (auto simp: disc_cancel_def NewDiscovery_def leave_member_def)

lemma enumerate_finite: "finite (dom m) \<Longrightarrow> finite (dom (enumerate_devices devs m))"
  by (induction devs m rule: enumerate_devices.induct) simp_all

lemma removals_ok_start: "removals_ok (monitor_start opened devs NewDiscovery)"
proof -
  have "keyed (enumerate_devices ds Map.empty)" for ds by (rule keyed_enumerate) (simp add: keyed_def)
  moreover have "keyed Map.empty" by (simp add: keyed_def)
  ultimately show ?thesis
    by (cases devs) (simp_all add: removals_ok_def udev.in_sync_def monitor_start_def monitor_exit_def NewDiscovery_def)
qed

lemma removals_ok_new: "removals_ok NewDiscovery"
  by (simp add: removals_ok_def udev.in_sync_def NewDiscovery_def keyed_def)

lemma disc_step_finite: "finite (dom (disc_state d)) \<Longrightarrow> finite (dom (disc_state (discovery_step i d)))"
proof (cases i)
  case (DeviceEvent action g acc)
  assume fin: "finite (dom (disc_state d))"
  then have "finite (dom (disc_state (monitor_device action g acc d)))"
    by (cases rule: monitor_device_cases [of action g acc d]; cases acc) (simp_all del: monitor_device.simps)
  with DeviceEvent fin show ?thesis by (simp add: discovery_step_def del: monitor_device.simps)
qed (simp_all add: discovery_step_def monitor_exit_def)

text \<open>What an answered request does to the discovery.\<close>

lemma subscribe_discovery:
  assumes "monitor_answers x"
  shows "fst (disc_Subscribe n order (main_discovery x)) = discovery_step (NewSub n order) (main_discovery x)"
  using assms by (cases "disc_done (main_discovery x)")
    (simp_all add: monitor_answers_def disc_Subscribe_step disc_Subscribe_def discovery_step_def)

lemma close_discovery:
  assumes "monitor_answers x"
  shows "disc_Close (main_discovery x) = discovery_step StopRequest (main_discovery x)"
  using assms by (cases "disc_done (main_discovery x)")
    (simp_all add: monitor_answers_def disc_Close_step disc_Close_def discovery_step_def)

lemma main_step_discovery:
  assumes "main_step env rdma c x y" and ok: "discovery_ok x"
  shows "discovery_ok y"
  using assms(1)
proof cases
  case (main_subscribe n es order)
  then show ?thesis
    using ok removals_ok_step [of "NewSub n order" "main_discovery x"] disc_step_finite [of "main_discovery x" "NewSub n order"]
    by (simp add: discovery_ok_def subscribe_discovery) (simp add: monitor_answers_def)
next
  case (main_monitor i)
  then show ?thesis
    using ok removals_ok_step [of i "main_discovery x"] disc_step_finite [of "main_discovery x" i]
    by (simp add: discovery_ok_def)
next
  case (main_enumerate opened devs)
  then show ?thesis using ok removals_ok_start [of opened devs]
    by (auto simp: discovery_ok_def monitor_start_def monitor_exit_def NewDiscovery_def enumerate_finite
        split: option.split)
next
  case (main_defer d ds y')
  then show ?thesis
  proof (cases d)
    case RunCleanup
    obtain a cancel where a: "main_app x = (a, cancel)" by (cases "main_app x")
    with main_defer RunCleanup ok show ?thesis by (auto simp: discovery_ok_def)
  next
    case CloseDiscovery
    with main_defer ok removals_ok_step [of StopRequest "main_discovery x"] disc_step_finite [of "main_discovery x" StopRequest]
    show ?thesis by (auto simp: discovery_ok_def close_discovery monitor_answers_def split: if_splits)
  qed (use ok in \<open>auto simp: discovery_ok_def split: if_splits\<close>)
next
  case (main_cancel n ns)
  with ok show ?thesis by (auto simp: discovery_ok_def removals_ok_cancel)
qed (use ok in \<open>auto simp: discovery_ok_def serve_def\<close>)

section \<open>The plugin servers\<close>

lemma start_entry_servers:
  assumes "servers_ok (app_registry (fst st))" and start: "start_entry env rdma c e st = Return st'"
  shows "servers_ok (app_registry (fst st'))"
proof (cases e)
  case (BatchEntry bc)
  with start obtain r made where
    new: "NewBatchPartitionScatter (registry_add env) (effective_domain (bc_DomainOverride bc) (DeviceDomain c))
        (bc_Name bc) (sint (bc_Count bc)) (app_registry (fst st)) = Return (r, made)"
    and st': "app_registry (fst st') = r"
    by (auto simp: start_batch_def chain_pipeline_simps elim!: bind_outcome_ReturnE)
  from new have "servers_ok r"
  proof (cases rule: NewBatch_cases)
    case (accepted b)
    with servers.add_keeps [OF assms(1), of env "bt_res b"] show ?thesis by simp
  next
    case (refused res)
    with servers.add_keeps [OF assms(1), of env res] show ?thesis by simp
  qed
  with st' show ?thesis by simp
qed (use assms in \<open>auto simp: start_partition_def start_netbw_def start_netrdma_def Let_def chain_pipeline_simps\<close>)

lemma pipeline_event_servers:
  assumes "servers_ok (app_registry a)" and event: "pipeline_event env n ev a = Return a'"
  shows "servers_ok (app_registry a')"
proof (cases "app_pipelines a ! n")
  case (ScatterPipeline tm mp rts)
  with event obtain s where
    s: "scatter_event tm mp (registry_add env) ev \<lparr>routes = rts, registry_state = app_registry a\<rparr> = Return s"
    and a': "a' = a\<lparr>app_registry := registry_state s,
        app_pipelines := (app_pipelines a)[n := ScatterPipeline tm mp (routes s)]\<rparr>"
    by (auto simp: pipeline_event_def elim!: bind_outcome_ReturnE)
  from servers.event_keeps [OF _ s] assms(1) show ?thesis by (simp add: a')
qed (use assms in \<open>auto simp: pipeline_event_def\<close>)

lemma main_step_servers:
  assumes "main_step env rdma c x y" and ok: "servers_ok (main_registry x)" and cleanup: "cleanup_ok (main_app x)"
  shows "servers_ok (main_registry y)"
  using assms(1)
proof cases
  case (main_defer d ds y')
  obtain a cancel where a: "main_app x = (a, cancel)" by (cases "main_app x")
  with main_defer ok cleanup_okD [of a cancel a] cleanup show ?thesis by (cases d) (auto split: if_splits)
qed (use ok in \<open>auto simp: serve_def servers_ok_watch servers_ok_exit intro: start_entry_servers pipeline_event_servers\<close>)

section \<open>What the deferred calls have released\<close>

definition all_deferred :: "deferred_call list" where
  "all_deferred = [CloseHealthServer, RunCleanup, CloseDiscovery, CancelContext, WaitForGroup]"

fun released :: "deferred_call \<Rightarrow> process \<Rightarrow> bool" where
  "released CloseHealthServer x \<longleftrightarrow> main_healthz x = None"
| "released RunCleanup x \<longleftrightarrow>
     app_cancelled (fst (main_app x)) = rev (subscriptions (main_pipelines x))"
| "released CloseDiscovery x \<longleftrightarrow> disc_done (main_discovery x)"
| "released CancelContext x \<longleftrightarrow> main_context_done x"
| "released WaitForGroup x \<longleftrightarrow> group_done x"

definition uncancelled :: "process \<Rightarrow> bool" where
  "uncancelled x \<longleftrightarrow> app_cancelled (fst (main_app x)) = []"

definition deferred_ok :: "process \<Rightarrow> bool" where
  "deferred_ok x \<longleftrightarrow> main_deferred x \<noteq> [] \<and>
     (\<exists>done. all_deferred = done @ main_deferred x \<and> (\<forall>d \<in> set done. released d x)) \<and>
     (RunCleanup \<in> set (main_deferred x) \<longrightarrow> uncancelled x)"

definition shutdown_ok :: "process \<Rightarrow> bool" where
  "shutdown_ok x \<longleftrightarrow> (case main_phase x of
       Returned \<Rightarrow> main_deferred x = [] \<and> (\<forall>d \<in> set all_deferred. released d x)
     | Returning \<Rightarrow> deferred_ok x
     | Cancelling ns \<Rightarrow> deferred_ok x
     | Serving \<Rightarrow> main_deferred x = all_deferred \<and> uncancelled x
     | _ \<Rightarrow> main_deferred x = drop 2 all_deferred \<and> uncancelled x)"

text \<open>The steps beside \<open>main\<close> take nothing back.\<close>

definition beside :: "process \<Rightarrow> process \<Rightarrow> bool" where
  "beside x y \<longleftrightarrow> main_phase y = main_phase x \<and> main_deferred y = main_deferred x \<and> main_healthz y = main_healthz x \<and>
     app_cancelled (fst (main_app y)) = app_cancelled (fst (main_app x)) \<and>
     subscriptions (main_pipelines y) = subscriptions (main_pipelines x) \<and>
     (disc_done (main_discovery x) \<longrightarrow> disc_done (main_discovery y)) \<and>
     (main_context_done x \<longrightarrow> main_context_done y)"

lemma beside_released: "beside x y \<Longrightarrow> d \<noteq> WaitForGroup \<Longrightarrow> released d x \<Longrightarrow> released d y"
  by (cases d) (simp_all add: beside_def)

lemma waiting_last: "all_deferred = done @ ds \<Longrightarrow> ds \<noteq> [] \<Longrightarrow> WaitForGroup \<notin> set done"
proof -
  assume split: "all_deferred = done @ ds" and ds: "ds \<noteq> []"
  have "last ds = last all_deferred" unfolding split using ds by simp
  then have "WaitForGroup \<in> set ds" using last_in_set [OF ds] by (simp add: all_deferred_def)
  moreover have "distinct (done @ ds)" unfolding split [symmetric] by (simp add: all_deferred_def)
  ultimately show ?thesis by auto
qed

lemma deferred_ok_beside:
  assumes "deferred_ok x" and "beside x y"
  shows "deferred_ok y"
proof -
  from assms(1) obtain "done" where d: "main_deferred x \<noteq> []" "all_deferred = done @ main_deferred x"
    "\<forall>d \<in> set done. released d x" "RunCleanup \<in> set (main_deferred x) \<longrightarrow> uncancelled x"
    by (auto simp: deferred_ok_def)
  from waiting_last [OF d(2,1)] beside_released [OF assms(2)] d(3) have "\<forall>d \<in> set done. released d y" by metis
  with d assms(2) show ?thesis by (auto simp: deferred_ok_def beside_def uncancelled_def)
qed

lemma shutdown_ok_beside:
  assumes "shutdown_ok x" and "beside x y" and "main_phase x \<noteq> Returned"
  shows "shutdown_ok y"
proof -
  have same: "main_phase y = main_phase x" "main_deferred y = main_deferred x" "uncancelled y = uncancelled x"
    using assms(2) by (simp_all add: beside_def uncancelled_def)
  show ?thesis
    by (cases "main_phase x") (use assms same deferred_ok_beside [OF _ assms(2)] in \<open>auto simp: shutdown_ok_def\<close>)
qed

text \<open>Neither do the cancel functions.\<close>

lemma deferred_ok_phase [simp]: "deferred_ok (x\<lparr>main_phase := p\<rparr>) = deferred_ok x"
proof -
  have "released d (x\<lparr>main_phase := p\<rparr>) = released d x" for d by (cases d) (simp_all add: group_done_def)
  then show ?thesis by (simp add: deferred_ok_def uncancelled_def)
qed

lemma deferred_ok_cancel:
  "deferred_ok x \<Longrightarrow> deferred_ok (x\<lparr>main_discovery := disc_cancel n (main_discovery x)\<rparr>)"
proof -
  have "released d (x\<lparr>main_discovery := disc_cancel n (main_discovery x)\<rparr>) = released d x" for d
    by (cases d) (simp_all add: group_done_def)
  then show "deferred_ok x \<Longrightarrow> deferred_ok (x\<lparr>main_discovery := disc_cancel n (main_discovery x)\<rparr>)"
    by (simp add: deferred_ok_def uncancelled_def)
qed

lemma disc_done_step: "disc_done d \<Longrightarrow> disc_done (discovery_step i d)"
  by (cases i) (simp_all add: discovery_step_def)

lemma disc_done_start: "disc_done d \<Longrightarrow> disc_done (monitor_start opened devs d)"
  by (simp add: monitor_start_def monitor_exit_def split: option.split)

lemma run_deferred_released:
  assumes "run_deferred d x = Some y" and "cleanup_ok (main_app x)" and "d = RunCleanup \<Longrightarrow> uncancelled x"
  shows "released d y" and "d' \<noteq> d \<Longrightarrow> released d' x \<Longrightarrow> d' \<noteq> WaitForGroup \<Longrightarrow> released d' y"
    and "d \<noteq> RunCleanup \<Longrightarrow> main_app y = main_app x"
proof -
  obtain a cancel where a: "main_app x = (a, cancel)" by (cases "main_app x")
  have cancel: "cancel a = a\<lparr>app_cancelled := app_cancelled a @ rev (subscriptions (app_pipelines a))\<rparr>"
    using cleanup_okD [of a cancel a] assms(2) a by simp
  show "released d y"
    using assms(1,3) a cancel
    by (cases d) (auto simp: disc_Close_def monitor_exit_def uncancelled_def split: if_splits)
  show "d \<noteq> RunCleanup \<Longrightarrow> main_app y = main_app x" using assms(1) by (cases d) (auto split: if_splits)
  show "d' \<noteq> d \<Longrightarrow> released d' x \<Longrightarrow> d' \<noteq> WaitForGroup \<Longrightarrow> released d' y"
    using assms(1) a cancel
    by (cases d; cases d') (auto simp: disc_Close_def monitor_exit_def split: if_splits)
qed

lemma cleanup_not_last: "all_deferred = done @ [RunCleanup] \<Longrightarrow> False"
  by (drule arg_cong [where f = last]) (simp add: all_deferred_def)

lemma shutdown_ok_defer:
  assumes ok: "shutdown_ok x" and phase: "main_phase x = Returning" and next': "main_deferred x = d # ds"
    and run: "run_deferred d x = Some y" and cleanup: "cleanup_ok (main_app x)"
  shows "shutdown_ok (y\<lparr>main_deferred := ds, main_phase := after_deferred d ds y\<rparr>)" (is "shutdown_ok ?y")
proof -
  from ok phase next' obtain "done" where d: "all_deferred = done @ d # ds" "\<forall>d \<in> set done. released d x"
    "RunCleanup \<in> set (d # ds) \<longrightarrow> uncancelled x" by (auto simp: shutdown_ok_def deferred_ok_def)
  have distinct: "distinct (done @ d # ds)" unfolding d(1) [symmetric] by (simp add: all_deferred_def)
  have wait: "WaitForGroup \<notin> set done" by (rule waiting_last [OF d(1)]) simp
  have "d = RunCleanup \<Longrightarrow> uncancelled x" using d(3) by simp
  note released = run_deferred_released [OF run cleanup this]
  have "released d' y" if "d' \<in> set (done @ [d])" for d'
    using that released(1) released(2) [of d'] d(2) wait distinct by (cases "d' = d") auto
  moreover have "released d' ?y = released d' y" for d' by (cases d') (simp_all add: group_done_def)
  ultimately have all: "\<forall>d' \<in> set (done @ [d]). released d' ?y" by blast
  have uncancelled: "uncancelled ?y" if "RunCleanup \<in> set ds"
  proof -
    have "d \<noteq> RunCleanup" using distinct that by auto
    with released(3) d(3) that show ?thesis by (simp add: uncancelled_def)
  qed
  show ?thesis
  proof (cases ds)
    case Nil
    then have "d \<noteq> RunCleanup" "set all_deferred = set (done @ [d])" using d(1) cleanup_not_last by auto
    with all Nil show ?thesis by (simp add: shutdown_ok_def after_deferred_def)
  next
    case (Cons d2 ds')
    then have y: "main_deferred ?y \<noteq> []" "main_deferred ?y = ds" by simp_all
    have split: "all_deferred = (done @ [d]) @ main_deferred ?y" using d(1) by simp
    have "deferred_ok ?y" unfolding deferred_ok_def using y(1) split all uncancelled unfolding y(2) by blast
    with Cons show ?thesis by (simp add: shutdown_ok_def after_deferred_def)
  qed
qed

lemma main_step_shutdown:
  assumes "main_step env rdma c x y" and ok: "shutdown_ok x" and cleanup: "cleanup_ok (main_app x)"
  shows "shutdown_ok y"
  using assms(1)
proof cases
  case (main_entry e es st)
  from start_entry_appends [OF main_entry(3)] obtain p r where "st = chain_pipeline p r (main_app x)" by blast
  then have "app_cancelled (fst st) = app_cancelled (fst (main_app x))"
    by (simp add: chain_pipeline_def case_prod_beta)
  with ok main_entry show ?thesis by (simp add: shutdown_ok_def uncancelled_def after_entry_def Let_def)
next
  case (main_subscribe n es order)
  with ok show ?thesis by (simp add: shutdown_ok_def uncancelled_def)
next
  case main_serve
  with ok show ?thesis by (simp add: shutdown_ok_def uncancelled_def serve_def all_deferred_def)
next
  case (main_signal s)
  with ok show ?thesis by (simp add: shutdown_ok_def deferred_ok_def uncancelled_def all_deferred_def)
next
  case (main_defer d ds y')
  show ?thesis unfolding main_defer(1) by (rule shutdown_ok_defer [OF ok main_defer(2-4) cleanup])
next
  case (main_cancel n ns)
  with ok show ?thesis by (simp add: shutdown_ok_def deferred_ok_cancel)
next
  case main_cancelled
  with ok show ?thesis by (simp add: shutdown_ok_def)
next
  case (main_enumerate opened devs)
  show ?thesis by (rule shutdown_ok_beside [OF ok]) (use main_enumerate in \<open>simp_all add: beside_def disc_done_start\<close>)
next
  case (main_monitor i)
  show ?thesis by (rule shutdown_ok_beside [OF ok]) (use main_monitor in \<open>simp_all add: beside_def disc_done_step\<close>)
next
  case (main_event n a)
  show ?thesis
    by (rule shutdown_ok_beside [OF ok])
      (use main_event in \<open>simp_all add: beside_def pipeline_event_subscriptions [OF main_event(6)]\<close>)
qed (auto intro!: shutdown_ok_beside [OF ok] simp: beside_def)

section \<open>The cancelled subscriptions\<close>

text \<open>What is noted as cancelled and not still to do is no member of the multiplexer any more.\<close>

fun to_cancel :: "phase \<Rightarrow> nat list" where
  "to_cancel (Cancelling ns) = ns"
| "to_cancel _ = []"

definition cancels_ok :: "process \<Rightarrow> bool" where
  "cancels_ok x \<longleftrightarrow> (\<exists>done. app_cancelled (fst (main_app x)) = done @ to_cancel (main_phase x) \<and>
     (\<forall>n \<in> set done. disc_mux (main_discovery x) n = None))"

lemma cancels_ok_uncancelled: "uncancelled x \<Longrightarrow> to_cancel (main_phase x) = [] \<Longrightarrow> cancels_ok x"
  by (simp add: cancels_ok_def uncancelled_def)

lemma cancels_ok_keep:
  assumes "cancels_ok x" and "app_cancelled (fst (main_app y)) = app_cancelled (fst (main_app x))"
    and "to_cancel (main_phase y) = to_cancel (main_phase x)"
    and "\<And>n. disc_mux (main_discovery x) n = None \<Longrightarrow> disc_mux (main_discovery y) n = None"
  shows "cancels_ok y"
  using assms unfolding cancels_ok_def by metis

lemma main_step_cancels:
  assumes "main_step env rdma c x y" and ok: "cancels_ok x" and shutdown: "shutdown_ok x" and cleanup: "cleanup_ok (main_app x)"
  shows "cancels_ok y"
  using assms(1)
proof cases
  case (main_entry e es st)
  then have "shutdown_ok y" using main_step_shutdown [OF assms(1) shutdown cleanup] by simp
  with main_entry show ?thesis
    by (intro cancels_ok_uncancelled) (auto simp: shutdown_ok_def after_entry_def Let_def split: if_splits)
next
  case (main_subscribe n es order)
  with shutdown show ?thesis
    by (intro cancels_ok_uncancelled) (auto simp: shutdown_ok_def uncancelled_def)
next
  case (main_defer d ds y')
  show ?thesis
  proof (cases "d = RunCleanup")
    case True
    with shutdown main_defer have "uncancelled x" by (auto simp: shutdown_ok_def deferred_ok_def)
    with True main_defer show ?thesis by (simp add: cancels_ok_def after_deferred_def)
  next
    case False
    have "disc_mux (main_discovery y') n = None" if "disc_mux (main_discovery x) n = None" for n
      using main_defer(4) that False by (cases d) (auto simp: disc_Close_def monitor_exit_def split: if_splits)
    moreover have "main_app y' = main_app x" using main_defer(4) False by (cases d) (auto split: if_splits)
    ultimately show ?thesis using main_defer False by (intro cancels_ok_keep [OF ok]) (auto simp: after_deferred_def)
  qed
next
  case (main_cancel n ns)
  from ok main_cancel obtain "done" where
    "app_cancelled (fst (main_app x)) = done @ n # ns" "\<forall>n \<in> set done. disc_mux (main_discovery x) n = None"
    by (auto simp: cancels_ok_def)
  with main_cancel show ?thesis by (auto simp: cancels_ok_def cancel_mux intro!: exI [of _ "done @ [n]"])
next
  case (main_enumerate opened devs)
  then show ?thesis
    by (intro cancels_ok_keep [OF ok]) (auto simp: monitor_start_def monitor_exit_def split: option.split)
next
  case (main_monitor i)
  then show ?thesis using kernel_step_mux [OF main_monitor(4), of "main_discovery x"]
    by (intro cancels_ok_keep [OF ok]) auto
next
  case (main_event n a)
  then show ?thesis
    by (intro cancels_ok_keep [OF ok]) (simp_all add: pipeline_event_subscriptions [OF main_event(6)])
qed (auto intro!: cancels_ok_keep [OF ok] simp: serve_def)

section \<open>Every run\<close>

definition main_ok :: "reg_env \<Rightarrow> rdmamap \<Rightarrow> appConfig \<Rightarrow> process \<Rightarrow> bool" where
  "main_ok env rdma c x \<longleftrightarrow> channels_ok x \<and> app_run env rdma c x \<and> discovery_ok x \<and>
     servers_ok (main_registry x) \<and> shutdown_ok x \<and> cancels_ok x"

lemma main_okD:
  assumes "main_ok env rdma c x"
  shows "channels_ok x" "app_run env rdma c x" "discovery_ok x" "servers_ok (main_registry x)" "shutdown_ok x"
    "cleanup_ok (main_app x)" "cancels_ok x"
  using assms app_run_cleanup [of env rdma c x] by (simp_all add: main_ok_def)

lemma main_step_main_ok: "main_step env rdma c x y \<Longrightarrow> main_ok env rdma c x \<Longrightarrow> main_ok env rdma c y"
  unfolding main_ok_def [of env rdma c y]
  by (blast dest: main_okD intro: main_step_channels main_step_app_run main_step_discovery main_step_servers
      main_step_shutdown main_step_cancels)

lemma main_begin_cases:
  assumes "main_begin w Decode Compile flags env = Inr (c, x)"
  obtains input where "parseConfig Decode Compile input = Inr c"
    and "x = \<lparr>main_phase = Starting (config_entries c), main_deferred = [CloseDiscovery, CancelContext, WaitForGroup],
       main_app = empty_app empty_registry, main_discovery = NewDiscovery, main_enumerated = False,
       main_got = (\<lambda>n. []), main_handled = (\<lambda>n. 0), main_stuck = {}, main_lost = False, main_context_done = False,
       main_watcher = True, main_healthz = None\<rparr>"
  using assms by (auto simp: main_begin_def initFlags_def NewRegistry_def Let_def
      split: sum.splits option.splits if_splits)

lemma main_begin_ok: "main_begin w Decode Compile flags env = Inr (c, x) \<Longrightarrow> main_ok env rdma c x"
  using trace_empty [of env rdma c]
  by (elim main_begin_cases) (auto simp: main_ok_def channels_ok_def app_run_def discovery_ok_def removals_ok_new
      NewDiscovery_def empty_app_def servers_ok_empty shutdown_ok_def all_deferred_def uncancelled_def cancels_ok_def
      intro: exI [of _ "[]"] removals_ok_new [unfolded NewDiscovery_def])

lemma main_runs_ok:
  assumes "main_begin w Decode Compile flags env = Inr (c, x0)" and "main_runs env rdma c x0 x"
  shows "main_ok env rdma c x"
  using assms(2) by (induction rule: rtranclp_induct) (auto intro: main_begin_ok [OF assms(1)] main_step_main_ok)

lemma main_runs_main_ok: "main_runs env rdma c x y \<Longrightarrow> main_ok env rdma c x \<Longrightarrow> main_ok env rdma c y"
  by (induction rule: rtranclp_induct) (auto intro: main_step_main_ok)

end
