(* ===== verification/App_Lifecycle.thy ===== *)
theory App_Lifecycle
  imports App_Process
begin

text \<open>
  The life of the process from end to end: that it can always return, what is released when it has,
  and what a served partition becomes for the kubelet.
\<close>

section \<open>The process can always return\<close>

lemma step_reaches: "main_step env rdma c x y \<Longrightarrow> P y \<Longrightarrow> \<exists>y. main_runs env rdma c x y \<and> P y"
  by (blast intro: r_into_rtranclp)

text \<open>The discovery answers the requests of \<open>main\<close>, and the steps of \<open>main\<close> keep it so.\<close>

definition ready :: "process \<Rightarrow> bool" where
  "ready x \<longleftrightarrow> monitor_answers x \<and> mux_free x"

lemma ready_same:
  assumes "ready x" and "main_discovery y = main_discovery x" and "main_enumerated y = main_enumerated x"
    and "main_got y = main_got x" and "main_handled y = main_handled x"
  shows "ready y"
  using assms by (simp add: ready_def monitor_answers_def mux_free_def)

lemma ready_done: "main_enumerated x \<Longrightarrow> disc_done (main_discovery x) \<Longrightarrow> ready x"
  by (simp add: ready_def monitor_answers_def mux_free_def)

lemma ready_cancel: "ready x \<Longrightarrow> ready (x\<lparr>main_discovery := disc_cancel n (main_discovery x), main_phase := p\<rparr>)"
  by (auto simp: ready_def monitor_answers_def mux_free_def cancel_mux disc_cancel_def)

lemma ready_subscribe:
  assumes "ready x" and channels: "channels_ok x" and new: "disc_mux (main_discovery x) n = None"
  shows "ready ((set_discovery (fst (disc_Subscribe n order (main_discovery x))) x)\<lparr>main_phase := p\<rparr>)"
proof (cases "disc_done (main_discovery x)")
  case True
  with assms(1) show ?thesis by (intro ready_done) (simp_all add: ready_def monitor_answers_def disc_Subscribe_def)
next
  case False
  have "disc_done (fst (disc_Subscribe n order (main_discovery x))) = disc_done (main_discovery x)"
    "disc_retrying (fst (disc_Subscribe n order (main_discovery x))) = disc_retrying (main_discovery x)"
    by (simp_all add: disc_Subscribe_def)
  with False assms(1) new channels_ok_got [OF channels] show ?thesis
    by (fastforce simp: ready_def monitor_answers_def mux_free_def disc_Subscribe_mux hear_def split: option.split)
qed

text \<open>
  A pipeline is clogged when it is blocked for good, its channel is full, and the multiplexer waits
  for it with one more event.
\<close>

definition clogged :: "process \<Rightarrow> nat \<Rightarrow> bool" where
  "clogged x n \<longleftrightarrow> n \<in> main_stuck x \<and> \<not> disc_done (main_discovery x) \<and> disc_mux (main_discovery x) n \<noteq> None \<and>
     main_handled x n + 2 < length (main_got x n)"

definition waiting_devices :: "process \<Rightarrow> device set" where
  "waiting_devices x = (\<Union>n. mentioned (drop (main_handled x n) (main_got x n)))"

lemma waiting_event:
  assumes "main_handled x n < length (main_got x n)" and "d \<in> set (event_devices (main_got x n ! main_handled x n))"
  shows "d \<in> waiting_devices x"
proof -
  have "d \<in> mentioned (drop (main_handled x n) (main_got x n))"
    using assms by (auto simp: mentioned_def Cons_nth_drop_Suc [symmetric])
  then show ?thesis by (auto simp: waiting_devices_def)
qed

lemma mentioned_drop_Suc: "mentioned (drop (Suc k) evs) \<subseteq> mentioned (drop k evs)"
  using set_drop_subset_set_drop [of k "Suc k" evs] by (auto simp: mentioned_def)

text \<open>The multiplexer becomes free: the pipelines it waits for handle their events.\<close>

lemma main_follow:
  assumes "main_ok env rdma c x" and "parseConfig Decode Compile text = Inr c"
  shows "pipelines_follow rdma Compile c (todo (main_phase x)) (fst (main_app x))"
proof -
  from main_okD(2) [OF assms(1)] obtain ls where
    "app_trace env rdma c ls (todo (main_phase x), main_app x)" by (auto simp: app_run_def)
  from app_reachable_follow [OF assms(2) app_trace_reachable [OF this]] show ?thesis by simp
qed

lemma handle_waiting:
  assumes ok: "main_ok env rdma c x" and parsed: "parseConfig Decode Compile text = Inr c"
    and safe: "\<forall>e \<in> set (config_entries c). entry_safe e" and speed: "\<forall>d \<in> waiting_devices x. kernel_speed d"
    and phase: "main_phase x \<noteq> Returned" and stuck: "n \<notin> main_stuck x"
    and n: "disc_mux (main_discovery x) n \<noteq> None" and waits: "main_handled x n < length (main_got x n)"
  obtains a where "main_step env rdma c x (x\<lparr>main_app := (a, snd (main_app x)),
      main_handled := (main_handled x)(n := Suc (main_handled x n))\<rparr>)"
    and "n < length (main_pipelines x)" and "length (app_pipelines a) = length (main_pipelines x)"
proof -
  have "next_sub (main_phase x) (length (main_pipelines x)) \<le> length (main_pipelines x)"
    using main_okD(1) [OF ok] by (cases "main_phase x") (auto simp: channels_ok_def)
  with channels_ok_new [OF main_okD(1) [OF ok], of n] n have len: "n < length (main_pipelines x)"
    by (meson le_trans not_le)
  from pipeline_event_returns [OF main_follow [OF ok parsed] len safe, of "main_got x n ! main_handled x n" env] waiting_event [OF waits] speed
  obtain a where "pipeline_event env n (main_got x n ! main_handled x n) (fst (main_app x)) = Return a" by blast
  from that [OF main_event [OF phase len waits stuck this] len pipeline_event_length [OF this]] show thesis .
qed

lemma reach_free:
  assumes parsed: "parseConfig Decode Compile text = Inr c" and safe: "\<forall>e \<in> set (config_entries c). entry_safe e"
  shows "main_ok env rdma c x \<Longrightarrow> \<forall>d \<in> waiting_devices x. kernel_speed d \<Longrightarrow> \<forall>n. \<not> clogged x n \<Longrightarrow>
    main_phase x \<noteq> Returned \<Longrightarrow> \<exists>y. main_runs env rdma c x y \<and> mux_free y \<and> main_phase y = main_phase x \<and>
      main_discovery y = main_discovery x \<and> main_enumerated y = main_enumerated x"
proof (induction "\<Sum>n < length (main_pipelines x). length (main_got x n) - main_handled x n" arbitrary: x rule: less_induct)
  case less
  show ?case
  proof (cases "mux_free x")
    case False
    then obtain n where n: "\<not> disc_done (main_discovery x)" "disc_mux (main_discovery x) n \<noteq> None"
      "main_handled x n + 2 < length (main_got x n)" by (auto simp: mux_free_def not_le)
    with less.prems(3) have stuck: "n \<notin> main_stuck x" by (auto simp: clogged_def)
    have waits: "main_handled x n < length (main_got x n)" using n(3) by simp
    from handle_waiting [OF less.prems(1) parsed safe less.prems(2,4) stuck n(2) waits] obtain a where
      step: "main_step env rdma c x (x\<lparr>main_app := (a, snd (main_app x)),
        main_handled := (main_handled x)(n := Suc (main_handled x n))\<rparr>)" (is "main_step _ _ _ x ?y")
      and event: "n < length (main_pipelines x)" "length (app_pipelines a) = length (main_pipelines x)" .
    note ok = main_step_main_ok [OF step less.prems(1)]
    have "(\<Sum>k < length (main_pipelines ?y). length (main_got ?y k) - main_handled ?y k) <
        (\<Sum>k < length (main_pipelines x). length (main_got x k) - main_handled x k)"
      using event waits by (auto intro!: sum_strict_mono_ex1 bexI [of _ n])
    moreover have "waiting_devices ?y \<subseteq> waiting_devices x"
      using mentioned_drop_Suc by (auto simp: waiting_devices_def split: if_splits) blast+
    moreover have "\<forall>k. \<not> clogged ?y k" using less.prems(3) by (auto simp: clogged_def)
    ultimately obtain z where "main_runs env rdma c ?y z" "mux_free z" "main_phase z = main_phase x"
      "main_discovery z = main_discovery x" "main_enumerated z = main_enumerated x"
      using less.hyps [OF _ ok] less.prems(2,4) by (auto 5 0)
    moreover from step this(1) have "main_runs env rdma c x z" by (rule converse_rtranclp_into_rtranclp)
    ultimately show ?thesis by blast
  qed auto
qed

lemma reach_enumerated:
  assumes phase: "main_phase x \<noteq> Returned" and clogged: "\<forall>n. \<not> clogged x n"
    and speed: "\<forall>d \<in> waiting_devices x. kernel_speed d"
  shows "\<exists>y. main_runs env rdma c x y \<and> main_enumerated y \<and> main_phase y = main_phase x \<and>
    (\<forall>n. \<not> clogged y n) \<and> (\<forall>d \<in> waiting_devices y. kernel_speed d)"
proof (cases "main_enumerated x")
  case False
  show ?thesis
    by (rule step_reaches [OF main_enumerate [OF phase False, of env rdma c False None]])
      (use speed in \<open>simp add: clogged_def waiting_devices_def monitor_start_def monitor_exit_def\<close>)
qed (use clogged speed in auto)

lemma entry_safe_fits: "entry_safe e \<Longrightarrow> entry_fits e"
  by (cases e) simp_all

text \<open>The monitor answers, at the latest when it has reconnected.\<close>

lemma reach_answering:
  assumes "main_phase x \<noteq> Returned" and "main_enumerated x" and channels: "channels_ok x"
  shows "\<exists>y. main_runs env rdma c x y \<and> monitor_answers y \<and> main_phase y = main_phase x \<and>
    main_handled y = main_handled x \<and> main_got y = main_got x \<and> main_stuck y = main_stuck x \<and>
    (\<forall>n. clogged y n \<longrightarrow> clogged x n)"
proof (cases "monitor_answers x")
  case False
  with assms have retrying: "\<not> disc_done (main_discovery x)" "disc_retrying (main_discovery x)"
    by (simp_all add: monitor_answers_def)
  have got: "hear (main_discovery x\<lparr>disc_retrying := False\<rparr>) (main_got x) = main_got x"
    using channels_ok_got [OF channels] by (auto simp: hear_def split: option.split)
  show ?thesis
    by (rule step_reaches [OF main_monitor [OF assms(1,2), of "Retry True" env rdma c]])
      (use assms(2) retrying in \<open>simp_all add: monitor_answers_def discovery_step_def clogged_def got\<close>)
qed auto

lemma reach_ready:
  assumes parsed: "parseConfig Decode Compile text = Inr c" and safe: "\<forall>e \<in> set (config_entries c). entry_safe e"
    and ok: "main_ok env rdma c x" and speed: "\<forall>d \<in> waiting_devices x. kernel_speed d"
    and clogged: "\<forall>n. \<not> clogged x n" and phase: "main_phase x \<noteq> Returned" and enumerated: "main_enumerated x"
  shows "\<exists>y. main_runs env rdma c x y \<and> ready y \<and> main_phase y = main_phase x"
proof -
  from reach_answering [OF phase enumerated main_okD(1) [OF ok], of env rdma c] obtain y where
    y: "main_runs env rdma c x y" "monitor_answers y" "main_phase y = main_phase x"
      "main_handled y = main_handled x" "main_got y = main_got x" "\<forall>n. clogged y n \<longrightarrow> clogged x n" by blast
  have "\<forall>d \<in> waiting_devices y. kernel_speed d" using speed y(4,5) by (simp add: waiting_devices_def)
  moreover have "\<forall>n. \<not> clogged y n" "main_phase y \<noteq> Returned" using y(3,6) clogged phase by auto
  ultimately obtain z where "main_runs env rdma c y z" "mux_free z" "main_phase z = main_phase y"
      "main_discovery z = main_discovery y" "main_enumerated z = main_enumerated y"
    using reach_free [OF parsed safe main_runs_main_ok [OF y(1) ok]] by blast
  with y(1-3) show ?thesis by (auto simp: ready_def monitor_answers_def intro!: exI [of _ z])
qed

text \<open>The pipelines of an accepted configuration start without a panic.\<close>

lemma app_trace_entries: "app_trace env rdma c ls x \<Longrightarrow> \<exists>begun. config_entries c = begun @ fst x"
proof (induction rule: app_trace.induct)
  case (trace_snoc ls x l y)
  from trace_snoc.hyps(2) trace_snoc.IH show ?case by (induction rule: app_step.induct) auto
qed simp

lemma subscribe_ready:
  assumes ok: "main_ok env rdma c x" and phase: "main_phase x = Subscribing n es" and ready: "ready x"
  shows "\<exists>y. main_runs env rdma c x y \<and> main_phase y = Starting es \<and> ready y"
proof -
  have "finite (dom (disc_state (main_discovery x)))"
    using main_okD(3) [OF ok] by (simp add: discovery_ok_def)
  then obtain order where order: "range_order (disc_state (main_discovery x)) order" using range_order_exists by blast
  have answers: "monitor_answers x" and free: "mux_free x" using ready by (simp_all add: ready_def)
  have "disc_mux (main_discovery x) n = None \<and> main_got x n = []"
    by (rule channels_ok_new [OF main_okD(1) [OF ok]]) (simp add: phase)
  with ready_subscribe [OF ready main_okD(1) [OF ok], of n] show ?thesis
    by (intro step_reaches [OF main_subscribe [OF phase answers free order, of env rdma c]]) simp
qed

lemma reach_serving:
  assumes parsed: "parseConfig Decode Compile text = Inr c" and fits: "\<forall>e \<in> set (config_entries c). entry_fits e"
  shows "main_ok env rdma c x \<Longrightarrow> main_phase x = Starting es \<Longrightarrow> ready x \<Longrightarrow>
    \<exists>y. main_runs env rdma c x y \<and> main_phase y = Serving \<and> ready y"
proof (induction es arbitrary: x)
  case Nil
  from ready_same [OF Nil.prems(3), of "serve c x"] have "ready (serve c x)" by (simp add: serve_def)
  with main_serve [OF Nil.prems(2), of env rdma c] show ?case
    by (intro exI [of _ "serve c x"]) (auto simp: serve_def)
next
  case (Cons e es)
  from main_okD(2) [OF Cons.prems(1)] Cons.prems(2) have "\<exists>begun. config_entries c = begun @ e # es"
    by (auto simp: app_run_def dest!: app_trace_entries)
  then have "entry_ready Compile e" "entry_fits e" using parsed_ready(2) [OF parsed] fits by auto
  from start_entry_wired [OF this parsed_ready(1) [OF parsed], of env rdma "main_app x"] obtain st where
    "start_entry env rdma c e (main_app x) = Return st" by blast
  note step = main_entry [OF Cons.prems(2) this]
  let ?y = "x\<lparr>main_app := st, main_phase := after_entry st es\<rparr>"
  have ok: "main_ok env rdma c ?y" by (rule main_step_main_ok [OF step Cons.prems(1)])
  have ready: "ready ?y" by (rule ready_same [OF Cons.prems(3)]) simp_all
  have "\<exists>z. main_runs env rdma c ?y z \<and> main_phase z = Starting es \<and> ready z"
  proof (cases "last (app_pipelines (fst st)) = NoPipeline")
    case True
    with ready show ?thesis by (intro exI [of _ ?y]) (simp add: after_entry_def Let_def)
  next
    case False
    with ready show ?thesis
      by (intro subscribe_ready [OF ok, of "length (app_pipelines (fst st)) - 1"]) (simp_all add: after_entry_def Let_def)
  qed
  then obtain z where z: "main_runs env rdma c ?y z" "main_phase z = Starting es" "ready z" by blast
  from Cons.IH [OF main_runs_main_ok [OF z(1) ok] z(2,3)] converse_rtranclp_into_rtranclp [OF step z(1)]
  show ?case by (meson rtranclp_trans)
qed

text \<open>Once the context is cancelled the goroutines of the registry end.\<close>

lemma reach_idle:
  assumes "finite (reg_running (main_registry x))" and "main_context_done x" and "main_phase x = Returning"
  shows "\<exists>y. main_runs env rdma c x y \<and> \<not> main_watcher y \<and> reg_running (main_registry y) = {} \<and>
    main_phase y = Returning \<and> main_deferred y = main_deferred x \<and> main_discovery y = main_discovery x"
  using assms
proof (induction "reg_running (main_registry x)" arbitrary: x rule: finite_induct)
  case empty
  show ?case
  proof (cases "main_watcher x")
    case True
    with empty main_watcher_exit [OF _ True, of env rdma c] show ?thesis
      by (intro exI [of _ "x\<lparr>main_watcher := False\<rparr>"]) auto
  qed (use empty in auto)
next
  case (insert n R)
  let ?y = "set_registry (server_exit n (main_registry x)) x"
  have step: "main_step env rdma c x ?y" by (rule main_server_exit) (use insert in auto)
  have "R = reg_running (main_registry ?y)" using insert(2,4) by (auto simp: server_exit_def)
  from insert(3) [OF this] insert(5,6) obtain z where
    z: "main_runs env rdma c ?y z" "\<not> main_watcher z" "reg_running (main_registry z) = {}" "main_phase z = Returning"
      "main_deferred z = main_deferred x" "main_discovery z = main_discovery x" by auto
  with converse_rtranclp_into_rtranclp [OF step z(1)] show ?case by blast
qed

lemma run_deferred_ready:
  assumes "ready x" and "d \<noteq> WaitForGroup"
  shows "\<exists>z. run_deferred d x = Some z \<and> ready z"
proof (cases d)
  case RunCleanup
  obtain a cancel where "main_app x = (a, cancel)" by (cases "main_app x")
  with RunCleanup ready_same [OF assms(1), of "x\<lparr>main_app := (cancel a, cancel)\<rparr>"] show ?thesis by simp
next
  case CloseDiscovery
  with assms(1) ready_done [of "x\<lparr>main_discovery := disc_Close (main_discovery x)\<rparr>"] show ?thesis
    by (simp add: ready_def monitor_answers_def disc_Close_def monitor_exit_def)
next
  case CloseHealthServer
  with ready_same [OF assms(1), of "x\<lparr>main_healthz := None\<rparr>"] show ?thesis by simp
next
  case CancelContext
  with ready_same [OF assms(1), of "x\<lparr>main_context_done := True\<rparr>"] show ?thesis by simp
qed (use assms in simp)

lemma deferred_call_ready:
  assumes ok: "main_ok env rdma c x" and phase: "main_phase x = Returning" and next': "main_deferred x = d # ds"
    and ready: "ready x"
  shows "\<exists>y z. main_runs env rdma c x y \<and> main_phase y = Returning \<and> main_deferred y = d # ds \<and>
    run_deferred d y = Some z \<and> (ds \<noteq> [] \<longrightarrow> ready z)"
proof (cases "d = WaitForGroup")
  case True
  from main_okD(5) [OF ok] phase next' True obtain "done" where
    d: "all_deferred = done @ WaitForGroup # ds" "\<forall>d \<in> set done. released d x" by (auto simp: shutdown_ok_def deferred_ok_def)
  have "set all_deferred = set done \<union> {WaitForGroup} \<union> set ds" unfolding d(1) by simp
  moreover have "ds = []" using waiting_last [of "done @ [WaitForGroup]" ds] d(1) by auto
  ultimately have "CloseDiscovery \<in> set done" "CancelContext \<in> set done" by (auto simp: all_deferred_def)
  with d(2) have "disc_done (main_discovery x)" "main_context_done x" by auto
  with reach_idle [OF servers_ok_finite [OF main_okD(4) [OF ok]] _ phase, of env rdma c] obtain y where
    "main_runs env rdma c x y" "main_phase y = Returning" "main_deferred y = d # ds" "group_done y"
    using next' by (auto simp: group_done_def)
  with True \<open>ds = []\<close> show ?thesis by (intro exI [of _ y]) auto
next
  case False
  from run_deferred_ready [OF ready False] phase next' show ?thesis by (auto intro: exI [of _ x])
qed

lemma reach_cancelled:
  "main_phase x = Cancelling ns \<Longrightarrow> ready x \<Longrightarrow>
   \<exists>y. main_runs env rdma c x y \<and> main_phase y = Returning \<and> main_deferred y = main_deferred x \<and> ready y"
proof (induction ns arbitrary: x)
  case Nil
  from r_into_rtranclp [of "main_step env rdma c", OF main_cancelled [OF Nil.prems(1)]]
    ready_same [OF Nil.prems(2), of "x\<lparr>main_phase := Returning\<rparr>"] show ?case
    by (intro exI [of _ "x\<lparr>main_phase := Returning\<rparr>"]) simp
next
  case (Cons n ns)
  have free: "mux_free x" using Cons.prems(2) by (simp add: ready_def)
  note ready = ready_cancel [where n = n and p = "Cancelling ns", OF Cons.prems(2)]
  from Cons.IH [OF _ ready] obtain y where
    "main_runs env rdma c (x\<lparr>main_discovery := disc_cancel n (main_discovery x), main_phase := Cancelling ns\<rparr>) y"
    "main_phase y = Returning" "main_deferred y = main_deferred x" "ready y" by auto
  moreover from main_cancel [OF Cons.prems(1) free] this(1) have "main_runs env rdma c x y"
    by (rule converse_rtranclp_into_rtranclp)
  ultimately show ?case by blast
qed

lemma reach_returned:
  "main_ok env rdma c x \<Longrightarrow> main_phase x = Returning \<Longrightarrow> ready x \<Longrightarrow>
   \<exists>y. main_runs env rdma c x y \<and> main_phase y = Returned"
proof (induction "main_deferred x" arbitrary: x)
  case Nil
  then show ?case using main_okD(5) [of env rdma c x] by (simp add: shutdown_ok_def deferred_ok_def)
next
  case (Cons d ds)
  from deferred_call_ready [OF Cons.prems(1,2) Cons.hyps(2) [symmetric] Cons.prems(3)] obtain y z where
    y: "main_runs env rdma c x y" "main_phase y = Returning" "main_deferred y = d # ds"
    and z: "run_deferred d y = Some z" "ds \<noteq> [] \<longrightarrow> ready z" by blast
  let ?z = "z\<lparr>main_deferred := ds, main_phase := after_deferred d ds z\<rparr>"
  have run: "main_runs env rdma c x ?z" using y(1) main_defer [OF y(2,3) z(1)] by (rule rtranclp.rtrancl_into_rtrancl)
  show ?case
  proof (cases "ds = []")
    case True
    from main_okD(5) [OF main_runs_main_ok [OF y(1) Cons.prems(1)]] y(2,3) True have "d \<noteq> RunCleanup"
      by (auto simp: shutdown_ok_def deferred_ok_def dest: cleanup_not_last)
    with run True show ?thesis by (intro exI [of _ ?z]) (simp add: after_deferred_def)
  next
    case False
    have ready: "ready ?z" using False z(2) ready_same [of z ?z] by simp
    have "\<exists>v. main_runs env rdma c ?z v \<and> main_phase v = Returning \<and> main_deferred v = ds \<and> ready v"
    proof (cases "d = RunCleanup")
      case True
      with reach_cancelled [OF _ ready] show ?thesis by (simp add: after_deferred_def)
    next
      case d: False
      with False ready show ?thesis by (intro exI [of _ ?z]) (simp add: after_deferred_def)
    qed
    then obtain v where v: "main_runs env rdma c ?z v" "main_phase v = Returning" "main_deferred v = ds" "ready v"
      by blast
    have xv: "main_runs env rdma c x v" using run v(1) by (rule rtranclp_trans)
    from Cons.hyps(1) [OF v(3) [symmetric] main_runs_main_ok [OF xv Cons.prems(1)] v(2,4)] xv show ?thesis
      by (meson rtranclp_trans)
  qed
qed

lemma reach_signalled:
  assumes ok: "main_ok env rdma c x" and phase: "main_phase x = Serving" and ready: "ready x"
  shows "\<exists>y. main_runs env rdma c x y \<and> main_phase y = Returned"
proof -
  let ?r = "x\<lparr>main_phase := Returning\<rparr>"
  have r: "main_runs env rdma c x ?r" using main_signal [OF phase, of SIGTERM] by (intro r_into_rtranclp) simp
  have "main_phase ?r = Returning" "ready ?r" using ready_same [OF ready, of ?r] by simp_all
  from reach_returned [OF main_runs_main_ok [OF r ok] this] r show ?thesis by (meson rtranclp_trans)
qed

lemma ready_returns:
  assumes parsed: "parseConfig Decode Compile text = Inr c" and fits: "\<forall>e \<in> set (config_entries c). entry_fits e"
    and ok: "main_ok env rdma c x" and ready: "ready x" and phase: "main_phase x \<noteq> Returned"
  shows "\<exists>y. main_runs env rdma c x y \<and> main_phase y = Returned"
proof -
  have starting: "\<exists>y. main_runs env rdma c z y \<and> main_phase y = Returned"
    if z: "main_ok env rdma c z" "main_phase z = Starting es" "ready z" for z es
  proof -
    from reach_serving [OF parsed fits z] obtain s where
      s: "main_runs env rdma c z s" "main_phase s = Serving" "ready s" by blast
    from reach_signalled [OF main_runs_main_ok [OF s(1) z(1)] s(2,3)] s(1) show ?thesis by (meson rtranclp_trans)
  qed
  show ?thesis
  proof (cases "main_phase x")
    case (Starting es)
    from starting [OF ok this ready] show ?thesis .
  next
    case (Subscribing n es)
    from subscribe_ready [OF ok this ready] obtain z where
      z: "main_runs env rdma c x z" "main_phase z = Starting es" "ready z" by blast
    from starting [OF main_runs_main_ok [OF z(1) ok] z(2,3)] z(1) show ?thesis by (meson rtranclp_trans)
  next
    case Serving
    from reach_signalled [OF ok this ready] show ?thesis .
  next
    case Returning
    from reach_returned [OF ok this ready] show ?thesis .
  next
    case (Cancelling ns)
    from reach_cancelled [OF this ready, of env rdma c] obtain z where
      z: "main_runs env rdma c x z" "main_phase z = Returning" "ready z" by blast
    from reach_returned [OF main_runs_main_ok [OF z(1) ok] z(2,3)] z(1) show ?thesis by (meson rtranclp_trans)
  qed (use phase in simp)
qed

section \<open>Subscribed while serving\<close>

fun leaving :: "phase \<Rightarrow> bool" where
  "leaving Returning = True"
| "leaving (Cancelling ns) = True"
| "leaving Returned = True"
| "leaving _ = False"

definition subscribed_ok :: "process \<Rightarrow> bool" where
  "subscribed_ok x \<longleftrightarrow> leaving (main_phase x) \<or> disc_done (main_discovery x) \<or>
     (\<forall>n < next_sub (main_phase x) (length (main_pipelines x)). main_pipelines x ! n \<noteq> NoPipeline \<longrightarrow>
        disc_mux (main_discovery x) n \<noteq> None)"

lemma kernel_step_members:
  "kernel_input i \<Longrightarrow> disc_mux (discovery_step i d) n = None \<longleftrightarrow> disc_mux d n = None"
  using kernel_step_mux [of i d] by auto

lemma kernel_step_done: "kernel_input i \<Longrightarrow> disc_done (discovery_step i d) = disc_done d"
proof (cases i)
  case (DeviceEvent action g acc)
  have "disc_done (monitor_device action g acc d) = disc_done d"
    by (cases rule: monitor_device_cases [of action g acc d]; cases acc) (simp_all del: monitor_device.simps)
  with DeviceEvent show ?thesis by (simp add: discovery_step_def del: monitor_device.simps)
qed (simp_all add: discovery_step_def)

lemma main_step_subscribed:
  assumes "main_step env rdma c x y" and ok: "subscribed_ok x" and channels: "channels_ok x"
  shows "subscribed_ok y"
  using assms(1)
proof cases
  case (main_entry e es st)
  from start_entry_last [OF main_entry(3)] obtain p where
    p: "app_pipelines (fst st) = main_pipelines x @ [p]" by blast
  with ok main_entry show ?thesis by (auto simp: subscribed_ok_def after_entry_def Let_def nth_append less_Suc_eq)
next
  case (main_subscribe n es order)
  have len: "Suc n = length (main_pipelines x)" and new: "disc_mux (main_discovery x) n = None"
    using channels main_subscribe by (simp_all add: channels_ok_def)
  have "disc_done (fst (disc_Subscribe n order (main_discovery x))) = disc_done (main_discovery x)"
    by (simp add: disc_Subscribe_def)
  with ok main_subscribe disc_Subscribe_mux [OF new] show ?thesis
    by (auto simp: subscribed_ok_def len [symmetric] less_Suc_eq)
next
  case (main_monitor i)
  with ok show ?thesis by (simp add: subscribed_ok_def kernel_step_members kernel_step_done)
next
  case (main_enumerate opened devs)
  with ok show ?thesis by (auto simp: subscribed_ok_def monitor_start_def monitor_exit_def split: option.split)
next
  case (main_event n a)
  from main_event(6) obtain q r where "a = (fst (main_app x))\<lparr>app_registry := r, app_pipelines := (main_pipelines x)[n := q]\<rparr>"
    and "q = NoPipeline \<longleftrightarrow> main_pipelines x ! n = NoPipeline" by (rule pipeline_event_shape)
  then have "length (app_pipelines a) = length (main_pipelines x)"
    "app_pipelines a ! k = NoPipeline \<longleftrightarrow> main_pipelines x ! k = NoPipeline" for k
    using main_event(3) by (simp_all add: nth_list_update)
  with ok main_event(1) show ?thesis by (simp add: subscribed_ok_def)
qed (use ok in \<open>auto simp: subscribed_ok_def serve_def after_deferred_def\<close>)

lemma main_runs_subscribed:
  assumes "main_begin w Decode Compile flags env = Inr (c, x0)" and "main_runs env rdma c x0 x"
  shows "subscribed_ok x"
  using assms(2)
proof (induction rule: rtranclp_induct)
  case base
  show ?case using assms(1) by (elim main_begin_cases) (simp add: subscribed_ok_def empty_app_def)
next
  case (step y z)
  have "channels_ok y" using main_runs_ok [OF assms(1) step.hyps(1)] by (rule main_okD)
  with step.hyps(2) step.IH show ?case by (rule main_step_subscribed)
qed

text \<open>A pipeline that has handled everything knows what the discovery holds.\<close>

lemma pipeline_current:
  assumes begun: "main_begin w Decode Compile flags env = Inr (c, x0)" and runs: "main_runs env rdma c x0 x"
    and serving: "main_phase x = Serving" and disc: "\<not> disc_done (main_discovery x)" "\<not> main_lost x"
    and n: "n < length (main_pipelines x)" "main_pipelines x ! n \<noteq> NoPipeline"
    and current: "main_handled x n = length (main_got x n)"
  obtains ls a cancel where "main_app x = (a, cancel)" and "app_trace env rdma c ls ([], (a, cancel))"
    and "handled n ls = main_got x n" and "removals_ok (main_discovery x)"
    and "disc_mux (main_discovery x) n = Some (main_got x n)"
proof -
  note ok = main_runs_ok [OF begun runs]
  obtain a cancel where a: "main_app x = (a, cancel)" by (cases "main_app x")
  from main_okD(2) [OF ok] obtain ls where trace: "app_trace env rdma c ls ([], (a, cancel))"
    and handled: "handled n ls = main_got x n" using serving a current by (auto simp: app_run_def)
  have "disc_mux (main_discovery x) n \<noteq> None"
    using main_runs_subscribed [OF begun runs] serving disc(1) n by (simp add: subscribed_ok_def)
  with channels_ok_got [OF main_okD(1) [OF ok]] have heard: "disc_mux (main_discovery x) n = Some (main_got x n)" by fastforce
  have "removals_ok (main_discovery x)" using main_okD(3) [OF ok] disc(2) by (simp add: discovery_ok_def)
  from that [OF a trace handled this heard] show thesis .
qed

text \<open>
  After the cleanup, and before the discovery is closed, no subscription of a pipeline is left in the
  multiplexer of the discovery.
\<close>

lemma cleanup_unsubscribes:
  assumes ok: "main_ok env rdma c x" and "main_phase x = Returning" and "RunCleanup \<notin> set (main_deferred x)"
    and n: "n \<in> set (subscriptions (main_pipelines x))"
  shows "disc_mux (main_discovery x) n = None"
proof -
  from main_okD(5) [OF ok] assms(2) obtain "done" where
    d: "all_deferred = done @ main_deferred x" "\<forall>d \<in> set done. released d x"
    by (auto simp: shutdown_ok_def deferred_ok_def)
  have "RunCleanup \<in> set all_deferred" by (simp add: all_deferred_def)
  with assms(3) have "RunCleanup \<in> set done" unfolding d(1) by simp
  with d(2) have "app_cancelled (fst (main_app x)) = rev (subscriptions (main_pipelines x))" by auto
  with main_okD(7) [OF ok] assms(2) n show ?thesis by (simp add: cancels_ok_def)
qed

section \<open>A blocked pipeline holds the process\<close>

text \<open>The members of the multiplexer are pipelines of the application.\<close>

definition members_ok :: "process \<Rightarrow> bool" where
  "members_ok x \<longleftrightarrow> (\<forall>n. disc_mux (main_discovery x) n \<noteq> None \<or> (\<exists>es. main_phase x = Subscribing n es) \<longrightarrow>
     n \<in> set (subscriptions (main_pipelines x)))"

lemma members_ok_keep:
  assumes "members_ok x" and "set (subscriptions (main_pipelines x)) \<subseteq> set (subscriptions (main_pipelines y))"
    and "\<And>n. disc_mux (main_discovery y) n \<noteq> None \<Longrightarrow> disc_mux (main_discovery x) n \<noteq> None \<or> (\<exists>es. main_phase x = Subscribing n es)"
    and "\<And>n es. main_phase y = Subscribing n es \<Longrightarrow> main_phase x = Subscribing n es"
  shows "members_ok y"
  using assms unfolding members_ok_def by blast

lemma main_step_members:
  assumes "main_step env rdma c x y" and ok: "members_ok x" and channels: "channels_ok x" and cleanup: "cleanup_ok (main_app x)"
  shows "members_ok y"
  using assms(1)
proof cases
  case (main_entry e es st)
  from start_entry_last [OF main_entry(3)] obtain p where
    p: "app_pipelines (fst st) = main_pipelines x @ [p]" by blast
  have "set (subscriptions (main_pipelines x)) \<subseteq> set (subscriptions (app_pipelines (fst st)))"
    by (auto simp: p subscriptions_def nth_append)
  moreover have "n \<in> set (subscriptions (app_pipelines (fst st)))" if "after_entry st es = Subscribing n es'" for n es'
    using that by (auto simp: after_entry_def Let_def p subscriptions_def split: if_splits)
  ultimately show ?thesis using ok main_entry by (auto simp: members_ok_def)
next
  case (main_subscribe n es order)
  have "disc_mux (main_discovery x) n = None"
    using channels_ok_new [OF channels, of n] main_subscribe by simp
  from disc_Subscribe_mux [OF this, of order] show ?thesis
    by (intro members_ok_keep [OF ok]) (auto simp: main_subscribe split: if_splits)
next
  case (main_defer d ds y')
  obtain a cancel where a: "main_app x = (a, cancel)" by (cases "main_app x")
  with main_defer cleanup_okD [of a cancel a] cleanup show ?thesis
    by (intro members_ok_keep [OF ok]; cases d)
      (auto simp: after_deferred_def disc_Close_def monitor_exit_def split: if_splits)
next
  case (main_monitor i)
  then show ?thesis using kernel_step_members [OF main_monitor(4), of "main_discovery x"]
    by (intro members_ok_keep [OF ok]) auto
next
  case (main_event n a)
  then show ?thesis
    by (intro members_ok_keep [OF ok]) (simp_all add: pipeline_event_subscriptions [OF main_event(6)])
qed (auto intro!: members_ok_keep [OF ok] simp: serve_def cancel_mux monitor_start_def monitor_exit_def
    split: if_splits option.splits)

lemma main_runs_members:
  assumes begun: "main_begin w Decode Compile flags env = Inr (c, x0)" and runs: "main_runs env rdma c x0 x"
  shows "members_ok x"
  using runs
proof (induction rule: rtranclp_induct)
  case base
  show ?case using begun by (elim main_begin_cases) (simp add: members_ok_def NewDiscovery_def)
next
  case (step y z)
  note ok = main_runs_ok [OF begun step.hyps(1)]
  show ?case by (rule main_step_members [OF step.hyps(2) step.IH main_okD(1) [OF ok] main_okD(6) [OF ok]])
qed

text \<open>
  A clogged pipeline stays clogged: the multiplexer waits for it, so its subscription is never
  cancelled, and before it is cancelled the discovery is not closed.
\<close>

lemma close_after_cleanup: "all_deferred = done @ CloseDiscovery # ds \<Longrightarrow> RunCleanup \<notin> set ds"
  by (auto simp: all_deferred_def Cons_eq_append_conv)

lemma clogged_not_free: "clogged x n \<Longrightarrow> \<not> mux_free x"
  by (auto simp: clogged_def mux_free_def not_le)

lemma clogged_keep:
  assumes "clogged x n" and "main_stuck x \<subseteq> main_stuck y" and "disc_done (main_discovery y) = disc_done (main_discovery x)"
    and "disc_mux (main_discovery y) n = None \<longleftrightarrow> disc_mux (main_discovery x) n = None"
    and "main_handled y n = main_handled x n" and "length (main_got x n) \<le> length (main_got y n)"
  shows "clogged y n"
  using assms by (auto simp: clogged_def)

lemma main_step_clogged:
  assumes "main_step env rdma c x y" and clogged: "clogged x n" and ok: "main_ok env rdma c x" and members: "members_ok x"
  shows "clogged y n"
  using assms(1)
proof cases
  case (main_subscribe k es order)
  with clogged_not_free [OF clogged] show ?thesis by simp
next
  case (main_cancel k ns)
  with clogged_not_free [OF clogged] show ?thesis by simp
next
  case (main_enumerate opened devs)
  with main_okD(3) [OF ok] clogged show ?thesis by (simp add: discovery_ok_def clogged_def NewDiscovery_def)
next
  case (main_monitor i)
  have "\<exists>more. hear (discovery_step i (main_discovery x)) (main_got x) n = main_got x n @ more"
    by (rule hear_grows [OF main_okD(1) [OF ok]]) (rule monitor_mux [OF main_okD(1) [OF ok] main_monitor(4)])
  with main_monitor show ?thesis
    by (intro clogged_keep [OF clogged]) (auto simp: kernel_step_done kernel_step_members)
next
  case (main_defer d ds y')
  show ?thesis
  proof (cases d)
    case CloseDiscovery
    with main_okD(5) [OF ok] main_defer have "RunCleanup \<notin> set (main_deferred x)"
      by (auto simp: shutdown_ok_def deferred_ok_def dest: close_after_cleanup)
    moreover have "n \<in> set (subscriptions (main_pipelines x))"
      using members clogged by (auto simp: members_ok_def clogged_def)
    ultimately have "disc_mux (main_discovery x) n = None" by (rule cleanup_unsubscribes [OF ok main_defer(2)])
    with clogged show ?thesis by (simp add: clogged_def)
  next
    case RunCleanup
    obtain a cancel where "main_app x = (a, cancel)" by (cases "main_app x")
    with main_defer RunCleanup show ?thesis by (intro clogged_keep [OF clogged]) auto
  qed (use main_defer in \<open>auto intro!: clogged_keep [OF clogged] split: if_splits\<close>)
next
  case (main_event k a)
  with clogged show ?thesis by (intro clogged_keep [OF clogged]) (auto simp: clogged_def)
qed (auto intro!: clogged_keep [OF clogged] simp: serve_def)

lemma clogged_never_returns:
  assumes begun: "main_begin w Decode Compile flags env = Inr (c, x0)" and runs: "main_runs env rdma c x0 x"
    and clogged: "clogged x n" and more: "main_runs env rdma c x y"
  shows "main_phase y \<noteq> Returned"
proof -
  have "clogged y n"
    using more
  proof (induction rule: rtranclp_induct)
    case (step y z)
    have run: "main_runs env rdma c x0 y" using runs step.hyps(1) by (rule rtranclp_trans)
    show ?case
      by (rule main_step_clogged [OF step.hyps(2) step.IH main_runs_ok [OF begun run] main_runs_members [OF begun run]])
  qed (rule clogged)
  moreover have "disc_done (main_discovery y)" if "main_phase y = Returned"
    using main_okD(5) [OF main_runs_ok [OF begun rtranclp_trans [OF runs more]]] that
    by (auto simp: shutdown_ok_def all_deferred_def)
  ultimately show ?thesis by (auto simp: clogged_def)
qed

section \<open>Properties\<close>

text \<open>
  C17: Nothing is left behind. When \<open>main\<close> returns, its deferred calls have run newest first: the health
  server is closed, every subscription was cancelled once, the newest first, the discovery and the
  file watcher have ended, the context is cancelled, no plugin server runs any more and no socket
  file of one exists.
\<close>

theorem main_returns_clean:
  assumes "main_begin w Decode Compile flags env = Inr (c, x0)" and "main_runs env rdma c x0 x"
    and "main_phase x = Returned"
  shows "main_healthz x = None \<and> app_cancelled (fst (main_app x)) = rev (subscriptions (main_pipelines x)) \<and>
    disc_done (main_discovery x) \<and> \<not> main_watcher x \<and> main_context_done x \<and>
    reg_running (main_registry x) = {} \<and> reg_sockets (main_registry x) = Map.empty"
proof -
  note ok = main_runs_ok [OF assms(1,2)]
  from main_okD(5) [OF ok] assms(3) have "\<forall>d \<in> set all_deferred. released d x" by (simp add: shutdown_ok_def)
  then have "main_healthz x = None" "app_cancelled (fst (main_app x)) = rev (subscriptions (main_pipelines x))"
    "main_context_done x" "group_done x" by (auto simp: all_deferred_def)
  moreover from this(4) servers_ok_idle [OF main_okD(4) [OF ok]] have "reg_sockets (main_registry x) = Map.empty"
    by (simp add: group_done_def)
  ultimately show ?thesis by (simp add: group_done_def)
qed

text \<open>
  C18: The process can return exactly as long as no blocked pipeline holds the multiplexer. Take an
  accepted configuration whose shares and counts do not make it panic, and any state of a started
  process in which the devices that the pipelines have still to handle have speeds as the kernel
  reports them. If no pipeline that is blocked for good has a full channel and an event waiting before
  it, there is a run in which \<open>main\<close> returns: the pipelines handle what the multiplexer waits for, the
  monitor reconnects, the remaining entries start without a panic, a signal comes, and no deferred
  call and no cancel function blocks for good. If there is such a pipeline, \<open>main\<close> returns in no run:
  the cancel functions of its cleanup wait for the multiplexer.
\<close>

theorem main_can_return:
  assumes begun: "main_begin w Decode Compile flags env = Inr (c, x0)" and runs: "main_runs env rdma c x0 x"
    and safe: "\<forall>e \<in> set (config_entries c). entry_safe e" and speed: "\<forall>d \<in> waiting_devices x. kernel_speed d"
  shows "(\<exists>y. main_runs env rdma c x y \<and> main_phase y = Returned) \<longleftrightarrow> (\<forall>n. \<not> clogged x n)"
proof (cases "(\<forall>n. \<not> clogged x n) \<and> main_phase x \<noteq> Returned")
  case True
  then have clogged: "\<forall>n. \<not> clogged x n" and phase: "main_phase x \<noteq> Returned" by simp_all
  note ok = main_runs_ok [OF begun runs]
  from main_begin_cases [OF begun] obtain input where parsed: "parseConfig Decode Compile input = Inr c" by blast
  from reach_enumerated [OF phase clogged speed] obtain x1 where
    x1: "main_runs env rdma c x x1" "main_enumerated x1" "main_phase x1 = main_phase x"
      "\<forall>n. \<not> clogged x1 n" "\<forall>d \<in> waiting_devices x1. kernel_speed d" by blast
  from reach_ready [OF parsed safe main_runs_main_ok [OF x1(1) ok] x1(5,4) _ x1(2)] phase x1(3) obtain x2 where
    x2: "main_runs env rdma c x1 x2" "ready x2" "main_phase x2 = main_phase x1" by auto
  have run: "main_runs env rdma c x x2" using x1(1) x2(1) by (rule rtranclp_trans)
  from ready_returns [OF parsed _ main_runs_main_ok [OF run ok] x2(2)] safe entry_safe_fits phase x1(3) x2(3)
  obtain y where "main_runs env rdma c x2 y" "main_phase y = Returned" by auto
  with run clogged show ?thesis by (meson rtranclp_trans)
next
  case False
  with clogged_never_returns [OF begun runs] show ?thesis by blast
qed

text \<open>
  C4: From the configuration to the container. Take a process that serves, with a registry whose
  external calls succeed, a discovery that runs and has lost no event, and a partition entry whose
  effective domain no other partition entry has. When the pipeline of the entry has handled what its
  channel got, and no two devices claim one slot, every device that was ever announced and matches
  has its resource among the routes of that pipeline and its name in the registry, with the label
  as an instance that is healthy exactly if the device is there now; and an allocation of this id
  returns the node and the variables of that device: of the value the discovery holds now, or of an
  earlier one when it has gone.
\<close>

theorem partition_reaches_container:
  fixes c n x defines "d \<equiv> entry_domain c (Partitions c ! n)" and "hints \<equiv> DisableTopologyHints c"
    and "evs \<equiv> main_got x n"
  assumes begun: "main_begin w Decode Compile flags env = Inr (c, x0)" and runs: "main_runs env rdma c x0 x"
    and serving: "main_phase x = Serving" and env: "nothing_fails env"
    and disc: "\<not> disc_done (main_discovery x)" "\<not> main_lost x"
    and n: "n < length (Partitions c)"
    and other: "\<forall>j < length (Partitions c). j \<noteq> n \<longrightarrow> entry_domain c (Partitions c ! j) \<noteq> d"
    and m: "Compile (pc_Matcher (Partitions c ! n)) = Inr m"
    and current: "main_handled x n = length evs"
    and claims: "claims_ok (partition_templater d m) (partition_mapper d m hints) evs"
    and dev: "dev \<in> mentioned evs"
    and t: "PartitionLabelMatcherTemplater d m dev = Return (Inr (Some t))"
    and p: "PartitionLabelMatcherInstances d m hints dev = Return (Inr [p])"
  shows "\<exists>rts res j dev'. main_pipelines x ! n = partition_pipeline d m hints rts \<and> rts t = Some res \<and>
    template_Name t \<in> dom (reg_plugins (main_registry x)) \<and> res_instances res (partition_Id p) = Some j \<and>
    inst_Health pools j = (if disc_DeviceById (dev_Id dev) (main_discovery x) = None then Unhealthy else Healthy) \<and>
    dev_Id dev' = dev_Id dev \<and> disc_DeviceById (dev_Id dev) (main_discovery x) \<in> {None, Some dev'} \<and>
    plugin_Allocate pools order res [[partition_Id p]] = Inr [allocatePartitionDevice dev' d (partition_Id p)]"
proof -
  from main_begin_cases [OF begun] obtain input where parsed: "parseConfig Decode Compile input = Inr c" by blast
  obtain a cancel where a: "main_app x = (a, cancel)" by (cases "main_app x")
  from main_okD(2) [OF main_runs_ok [OF begun runs]] serving current obtain ls where
    trace: "app_trace env rdma c ls ([], (a, cancel))" and "handled n ls = evs" by (auto simp: app_run_def evs_def a)
  with dev have "handled n ls \<noteq> []" by (auto simp: mentioned_def)
  from handled_started [OF env parsed trace this] have
    "n < length (app_pipelines a)" and "pipeline_of rdma Compile c (PartitionEntry (Partitions c ! n)) (app_pipelines a ! n)"
    using n by (simp_all add: config_entries_def nth_append)
  with m obtain rts where pipe: "n < length (main_pipelines x)" "main_pipelines x ! n = partition_pipeline d m hints rts"
    by (auto simp: a d_def hints_def)
  then have "main_pipelines x ! n \<noteq> NoPipeline" by simp
  from pipeline_current [OF begun runs serving disc pipe(1) this current [unfolded evs_def]] obtain ls a cancel where
    a: "main_app x = (a, cancel)" and trace: "app_trace env rdma c ls ([], (a, cancel))"
    and handled: "handled n ls = main_got x n" and removals: "removals_ok (main_discovery x)"
    and heard: "disc_mux (main_discovery x) n = Some (main_got x n)" .
  from trace_reaches_container [OF parsed env trace n, of m rts "main_discovery x" n dev t p pools order] pipe
  show ?thesis
    using other claims dev t p removals heard handled unfolding a d_def hints_def evs_def fst_conv by auto
qed

section \<open>A process to try\<close>

text \<open>
  One entry; the partition is there when the monitor starts, the process serves it, the partition
  goes away and the pipeline handles that, too. The entry is described by what holds of its pipeline.
\<close>

abbreviation demo_begin :: "regexp \<Rightarrow> appConfig \<Rightarrow> exit_reason + appConfig \<times> process" where
  "demo_begin m c \<equiv> main_begin \<lparr>env_file = Map.empty, env_var = (\<lambda>_. []), env_stdin = []\<rparr>
     (\<lambda>_. Inr c) (\<lambda>_. Inr m) [''stdin''] demo_env"

lemma demo_begins:
  assumes "\<And>text. parseConfig (\<lambda>_. Inr c) (\<lambda>_. Inr m) text = Inr c"
  shows "\<exists>x0. demo_begin m c = Inr (c, x0)"
  by (simp add: main_begin_def initFlags_def flag_Set_def has_prefix_def trim_prefix_def stdin_open_def
      assms demo_NewRegistry)

abbreviation single_begin :: "exit_reason + appConfig \<times> process" where
  "single_begin \<equiv> demo_begin demo_matcher single_config"

abbreviation single_pipe :: "(resource_template \<rightharpoonup> resource) \<Rightarrow> pipeline" where
  "single_pipe \<equiv> partition_pipeline ''d.e'' demo_matcher False"

lemma single_begins: "\<exists>x0. single_begin = Inr (single_config, x0)"
  by (rule demo_begins) (rule single_config_parsed)

abbreviation single_order :: "libudev_device \<Rightarrow> string list" where "single_order g \<equiv> [Syspath (lu_values g)]"

abbreviation single_removal :: "libudev_device \<Rightarrow> nat monitor_input" where
  "single_removal g \<equiv> DeviceEvent ''remove'' g True"

definition single_found :: "libudev_device \<Rightarrow> nat discovery" where
  "single_found g = monitor_start True (Some [Some g]) NewDiscovery"

definition single_heard :: "libudev_device \<Rightarrow> nat discovery" where
  "single_heard g = discovery_step (NewSub 0 (single_order g)) (single_found g)"

lemma single_found_simps:
  "range_order (disc_state (single_found g)) (single_order g)" "\<not> disc_done (single_found g)"
  "\<not> disc_retrying (single_found g)" "disc_mux (single_found g) = Map.empty"
  by (simp_all add: single_found_def monitor_start_def NewDiscovery_def range_order_def)

lemma single_heard_simps:
  "disc_mux (single_heard g) = [0 \<mapsto> [Init [Generic g]]]" "\<not> disc_done (single_heard g)"
  "\<not> disc_retrying (single_heard g)" "fst (disc_Subscribe 0 (single_order g) (single_found g)) = (single_heard g)"
  by (simp_all add: single_heard_def single_found_def discovery_step_def monitor_start_def NewDiscovery_def
      heard_before_def disc_Subscribe_def join_member_def fun_eq_iff)

lemma single_gone_simps:
  "disc_mux (discovery_step (single_removal g) (single_heard g)) = [0 \<mapsto> [Init [Generic g], Removed (Generic g)]]"
  "\<not> disc_done (discovery_step (single_removal g) (single_heard g))"
  "disc_DeviceById (Syspath (lu_values g)) (discovery_step (single_removal g) (single_heard g)) = None"
  "\<not> disc_retrying (discovery_step (single_removal g) (single_heard g))"
  by (simp_all add: single_heard_def single_found_def discovery_step_def monitor_start_def NewDiscovery_def
      heard_before_def disc_DeviceById_def join_member_def publish_def fun_eq_iff)

lemma single_start:
  "\<exists>a cancel. start_entry demo_env no_rdma single_config (PartitionEntry (hd (Partitions single_config)))
     (empty_app empty_registry) = Return (a, cancel) \<and> app_pipelines a = [single_pipe Map.empty]"
proof -
  let ?st = "start_partition single_config (hd (Partitions single_config)) (empty_app empty_registry)"
  obtain a cancel where start: "?st = (a, cancel)" by (cases ?st)
  have "app_pipelines (fst ?st) = [single_pipe Map.empty]"
    by (simp add: start_partition_def chain_pipeline_simps single_config_def overlapping_config_def empty_app_def
        effective_domain_def partition_mapper_def Let_def)
  with start show ?thesis by simp
qed

text \<open>The process as far as the run needs it.\<close>

definition single_at :: "(pipeline \<Rightarrow> bool) \<Rightarrow> phase \<Rightarrow> nat discovery \<Rightarrow> event list \<Rightarrow> nat \<Rightarrow> process \<Rightarrow> bool" where
  "single_at P ph d evs k x \<longleftrightarrow> main_phase x = ph \<and> main_discovery x = d \<and> main_enumerated x \<and> \<not> main_lost x \<and>
     0 \<notin> main_stuck x \<and> main_got x 0 = evs \<and> main_handled x 0 = k \<and> 0 < length (main_pipelines x) \<and> P (main_pipelines x ! 0)"

text \<open>The only entry of a configuration starts with a pipeline that stays of its kind.\<close>

definition one_entry :: "rdmamap \<Rightarrow> libudev_device \<Rightarrow> appConfig \<Rightarrow> (pipeline \<Rightarrow> bool) \<Rightarrow> bool" where
  "one_entry rdma g c P \<longleftrightarrow> (\<exists>e a cancel p. config_entries c = [e] \<and> p \<noteq> NoPipeline \<and> P p \<and> app_pipelines a = [p] \<and>
       start_entry demo_env rdma c e (empty_app empty_registry) = Return (a, cancel)) \<and>
     (\<forall>ev a. set (event_devices ev) \<subseteq> {Generic g} \<and> 0 < length (app_pipelines a) \<and> P (app_pipelines a ! 0) \<longrightarrow>
       (\<exists>a'. pipeline_event demo_env 0 ev a = Return a' \<and> 0 < length (app_pipelines a') \<and> P (app_pipelines a' ! 0)))"

lemma single_subscribing:
  assumes "demo_begin m c = Inr (c, x0)" and "one_entry rdma g c P"
  shows "\<exists>x. main_runs demo_env rdma c x0 x \<and> single_at P (Subscribing 0 []) (single_found g) [] 0 x"
proof -
  from assms(1) have x0: "x0 = \<lparr>main_phase = Starting (config_entries c),
       main_deferred = [CloseDiscovery, CancelContext, WaitForGroup],
       main_app = empty_app empty_registry, main_discovery = NewDiscovery, main_enumerated = False,
       main_got = (\<lambda>n. []), main_handled = (\<lambda>n. 0), main_stuck = {}, main_lost = False, main_context_done = False,
       main_watcher = True, main_healthz = None\<rparr>" by (elim main_begin_cases)
  from assms(2) obtain e a cancel p where entries: "config_entries c = [e]"
    and start: "start_entry demo_env rdma c e (empty_app empty_registry) = Return (a, cancel)"
    and a: "app_pipelines a = [p]" "p \<noteq> NoPipeline" "P p"
    unfolding one_entry_def by (elim conjE exE) (rule that)
  let ?x1 = "x0\<lparr>main_discovery := (single_found g), main_enumerated := True\<rparr>"
  let ?x2 = "?x1\<lparr>main_app := (a, cancel), main_phase := after_entry (a, cancel) []\<rparr>"
  have "main_step demo_env rdma c x0 ?x1"
    using main_enumerate [of x0 demo_env rdma c True "Some [Some g]"] by (simp add: x0 single_found_def)
  moreover have "main_step demo_env rdma c ?x1 ?x2"
    by (rule main_entry [where e = e]) (simp_all only: x0 process.simps entries start)
  ultimately have "main_runs demo_env rdma c x0 ?x2" by (meson r_into_rtranclp rtranclp.rtrancl_into_rtrancl)
  moreover have "single_at P (Subscribing 0 []) (single_found g) [] 0 ?x2"
    using a(2,3) by (simp add: single_at_def x0 a(1) after_entry_def)
  ultimately show ?thesis by blast
qed

lemma single_event:
  assumes "one_entry rdma g c P" and "single_at P Serving d evs k x" and "k < length evs"
    and "set (event_devices (evs ! k)) \<subseteq> {Generic g}"
  shows "\<exists>y. main_runs demo_env rdma c x y \<and> single_at P Serving d evs (Suc k) y"
proof -
  from assms(2) have pipe: "0 < length (main_pipelines x)" "P (main_pipelines x ! 0)" by (simp_all add: single_at_def)
  moreover have "set (event_devices (main_got x 0 ! main_handled x 0)) \<subseteq> {Generic g}"
    using assms(2,4) by (simp add: single_at_def)
  ultimately obtain a where event: "pipeline_event demo_env 0 (main_got x 0 ! main_handled x 0) (fst (main_app x)) = Return a"
    and a: "0 < length (app_pipelines a)" "P (app_pipelines a ! 0)"
    using assms(1) unfolding one_entry_def by meson
  have "main_phase x \<noteq> Returned" "main_handled x 0 < length (main_got x 0)" "0 \<notin> main_stuck x"
    using assms(2,3) by (simp_all add: single_at_def)
  note step = main_event [OF this(1) pipe(1) this(2,3) event]
  show ?thesis
    by (rule step_reaches [OF step]) (use assms(2) a in \<open>auto simp: single_at_def\<close>)
qed

lemma single_served:
  assumes "demo_begin m c = Inr (c, x0)" and "one_entry rdma g c P"
  shows "\<exists>x. main_runs demo_env rdma c x0 x \<and> single_at P Serving (single_heard g) [Init [Generic g]] 1 x"
proof -
  let ?run = "main_runs demo_env rdma c"
  from single_subscribing [OF assms] obtain x1 where
    x1: "?run x0 x1" "single_at P (Subscribing 0 []) (single_found g) [] 0 x1" by blast
  then have "main_phase x1 = Subscribing 0 []" "monitor_answers x1" "mux_free x1"
    "range_order (disc_state (main_discovery x1)) (single_order g)"
    by (simp_all add: single_at_def single_found_simps monitor_answers_def mux_free_def)
  from main_subscribe [OF this, of demo_env rdma c] obtain x2 where
    x2: "main_step demo_env rdma c x1 x2" "single_at P (Starting []) (single_heard g) [Init [Generic g]] 0 x2"
    using x1(2) by (auto simp: single_at_def single_heard_simps hear_def)
  then have "main_phase x2 = Starting []" by (simp add: single_at_def)
  from main_serve [OF this, of demo_env rdma c] x2(2) obtain x3 where
    x3: "main_step demo_env rdma c x2 x3" "single_at P Serving (single_heard g) [Init [Generic g]] 0 x3"
    by (auto simp: single_at_def serve_def)
  from single_event [OF assms(2) x3(2)] obtain x4 where
    "?run x3 x4" "single_at P Serving (single_heard g) [Init [Generic g]] 1 x4" by auto
  with x1(1) x2(1) x3(1) show ?thesis by (meson rtranclp.rtrancl_into_rtrancl rtranclp_trans)
qed

lemma single_removed:
  assumes "demo_begin m c = Inr (c, x0)" and "one_entry rdma g c P"
  shows "\<exists>x. main_runs demo_env rdma c x0 x \<and> single_at P Serving
    (discovery_step (single_removal g) (single_heard g)) [Init [Generic g], Removed (Generic g)] 2 x"
proof -
  let ?run = "main_runs demo_env rdma c"
  from single_served [OF assms] obtain x4 where
    x4: "?run x0 x4" "single_at P Serving (single_heard g) [Init [Generic g]] 1 x4" by blast
  then have "main_phase x4 \<noteq> Returned" "main_enumerated x4" "mux_free x4"
    by (simp_all add: single_at_def mux_free_def single_heard_simps)
  with main_monitor [OF this(1,2), of "single_removal g" demo_env rdma c] x4(2) obtain x5 where
    x5: "main_step demo_env rdma c x4 x5" "single_at P Serving (discovery_step (single_removal g) (single_heard g))
      [Init [Generic g], Removed (Generic g)] 1 x5"
    by (auto simp: single_at_def single_gone_simps hear_def)
  from single_event [OF assms(2) x5(2)] obtain x6 where
    "?run x5 x6" "single_at P Serving (discovery_step (single_removal g) (single_heard g))
      [Init [Generic g], Removed (Generic g)] 2 x6" by (auto simp: numeral_2_eq_2)
  with x4(1) x5(1) show ?thesis by (meson rtranclp.rtrancl_into_rtrancl rtranclp_trans)
qed

text \<open>
  The pipeline blocks in the next event; two more events fill its channel and the multiplexer.
\<close>

definition single_hears :: "event list \<Rightarrow> nat \<Rightarrow> nat set \<Rightarrow> process \<Rightarrow> bool" where
  "single_hears evs k stuck x \<longleftrightarrow> main_phase x = Serving \<and> main_enumerated x \<and> 0 < length (main_pipelines x) \<and>
     \<not> disc_done (main_discovery x) \<and> \<not> disc_retrying (main_discovery x) \<and> disc_mux (main_discovery x) = [0 \<mapsto> evs] \<and>
     main_got x 0 = evs \<and> main_handled x 0 = k \<and> main_stuck x = stuck"

lemma single_hears_more:
  assumes "single_hears evs k stuck x" and "length evs \<le> k + 2"
  shows "\<exists>y. main_step env rdma c x y \<and> single_hears (evs @ [Added (Generic g)]) k stuck y"
proof -
  let ?i = "DeviceEvent ''add'' g True"
  have "main_phase x \<noteq> Returned" "main_enumerated x" "input_taken ?i x"
    using assms by (auto simp: single_hears_def mux_free_def)
  from main_monitor [OF this(1,2) _ this(3), of env rdma c] assms(1) show ?thesis
    by (intro exI conjI, fastforce)
      (auto simp: single_hears_def discovery_step_def hear_def publish_def)
qed

lemma single_clogged:
  assumes "demo_begin m c = Inr (c, x0)" and "one_entry rdma g c P"
  shows "\<exists>x. main_runs demo_env rdma c x0 x \<and> main_phase x = Serving \<and> clogged x 0"
proof -
  let ?a = "Added (Generic g)" and ?init = "Init [Generic g]"
  from single_served [OF assms] obtain x1 where x1: "main_runs demo_env rdma c x0 x1"
    "single_at P Serving (single_heard g) [?init] 1 x1" by blast
  then obtain stuck where "single_hears [?init] 1 stuck x1"
    by (simp add: single_at_def single_hears_def single_heard_simps)
  from single_hears_more [OF this, of demo_env rdma c g] obtain x2 where
    x2: "main_step demo_env rdma c x1 x2" "single_hears [?init, ?a] 1 stuck x2" by auto
  then have "main_phase x2 \<noteq> Returned" "0 < length (main_pipelines x2)" "main_handled x2 0 < length (main_got x2 0)"
    by (simp_all add: single_hears_def)
  note x3 = main_blocks [OF this, of demo_env rdma c]
  have "single_hears [?init, ?a] 1 (insert 0 stuck) (x2\<lparr>main_stuck := insert 0 (main_stuck x2)\<rparr>)"
    using x2(2) by (simp add: single_hears_def)
  from single_hears_more [OF this, of demo_env rdma c g] obtain x4 where
    x4: "main_step demo_env rdma c (x2\<lparr>main_stuck := insert 0 (main_stuck x2)\<rparr>) x4"
    "single_hears [?init, ?a, ?a] 1 (insert 0 stuck) x4" by auto
  from single_hears_more [OF this(2), of demo_env rdma c g] obtain x5 where
    x5: "main_step demo_env rdma c x4 x5" "single_hears [?init, ?a, ?a, ?a] 1 (insert 0 stuck) x5" by auto
  from x1(1) x2(1) x3 x4(1) x5(1) have "main_runs demo_env rdma c x0 x5" by (meson rtranclp.rtrancl_into_rtrancl)
  moreover have "main_phase x5 = Serving" "clogged x5 0" using x5(2) by (simp_all add: single_hears_def clogged_def)
  ultimately show ?thesis by blast
qed

lemma single_one_entry: "one_entry no_rdma g single_config (\<lambda>p. \<exists>rts. p = single_pipe rts)"
  unfolding one_entry_def
proof (intro conjI allI impI)
  have entries: "config_entries single_config = [PartitionEntry (hd (Partitions single_config))]"
    by (simp add: config_entries_def single_config_def overlapping_config_def)
  from single_start show "\<exists>e a cancel p. config_entries single_config = [e] \<and> p \<noteq> NoPipeline \<and>
      (\<exists>rts. p = single_pipe rts) \<and> app_pipelines a = [p] \<and>
      start_entry demo_env no_rdma single_config e (empty_app empty_registry) = Return (a, cancel)"
    unfolding entries by (elim exE conjE) (intro exI conjI, rule refl, rule pipeline.distinct(3), rule refl)
next
  fix ev and a :: app
  assume "set (event_devices ev) \<subseteq> {Generic g} \<and> 0 < length (app_pipelines a) \<and> (\<exists>rts. app_pipelines a ! 0 = single_pipe rts)"
  then obtain rts where "app_pipelines a ! 0 = single_pipe rts" "0 < length (app_pipelines a)"
    by (elim conjE exE) (rule that)
  from partition_event_returns [OF this, of demo_env ev] obtain a' rts' where
    "pipeline_event demo_env 0 ev a = Return a'" "app_pipelines a' ! 0 = single_pipe rts'" "0 < length (app_pipelines a')"
    by (elim exE conjE) (rule that)
  then show "\<exists>a'. pipeline_event demo_env 0 ev a = Return a' \<and> 0 < length (app_pipelines a') \<and>
      (\<exists>rts. app_pipelines a' ! 0 = single_pipe rts)" by (intro exI conjI)
qed

text \<open>So a process can serve and have no run left in which it returns, whatever signals come.\<close>

lemma main_blocked_for_good:
  "\<exists>x0 x. single_begin = Inr (single_config, x0) \<and> main_runs demo_env no_rdma single_config x0 x \<and>
     main_phase x = Serving \<and> (\<forall>y. main_runs demo_env no_rdma single_config x y \<longrightarrow> main_phase y \<noteq> Returned)"
proof -
  obtain x0 where begun: "single_begin = Inr (single_config, x0)" using single_begins by blast
  from single_clogged [OF begun single_one_entry [of demo_part]] obtain x where
    x: "main_runs demo_env no_rdma single_config x0 x" "main_phase x = Serving" "clogged x 0" by blast
  from clogged_never_returns [OF begun x(1,3)] x(1,2) begun show ?thesis by blast
qed

lemma main_returns_clean_witness:
  "\<exists>x0 x. single_begin = Inr (single_config, x0) \<and> main_runs demo_env no_rdma single_config x0 x \<and>
     main_phase x = Returned \<and> reg_running (main_registry x) = {} \<and> reg_sockets (main_registry x) = Map.empty"
proof -
  obtain x0 where begun: "single_begin = Inr (single_config, x0)" using single_begins by blast
  from single_removed [OF begun single_one_entry, of demo_part] obtain x1 where x1: "main_runs demo_env no_rdma single_config x0 x1"
    "main_phase x1 = Serving" "main_enumerated x1" and gone: "main_discovery x1 = discovery_step (single_removal demo_part) (single_heard demo_part)"
    "main_got x1 0 = [Init [Generic demo_part], Removed (Generic demo_part)]" "main_handled x1 0 = 2"
    by (auto simp: single_at_def)
  have "ready x1" using x1(3) gone by (simp add: ready_def monitor_answers_def mux_free_def single_gone_simps)
  from reach_signalled [OF main_runs_ok [OF begun x1(1)] x1(2) this] obtain x where
    x: "main_runs demo_env no_rdma single_config x1 x" "main_phase x = Returned" by blast
  have "main_runs demo_env no_rdma single_config x0 x" using x1(1) x(1) by (rule rtranclp_trans)
  from main_returns_clean [OF begun this x(2)] this x(2) begun show ?thesis by blast
qed

lemma main_can_return_witness:
  "\<exists>x0 y. single_begin = Inr (single_config, x0) \<and> main_runs demo_env no_rdma single_config x0 y \<and> main_phase y = Returned"
proof -
  obtain x0 where begun: "single_begin = Inr (single_config, x0)" using single_begins by blast
  then obtain x where x: "main_runs demo_env no_rdma single_config x0 x"
      "single_at (\<lambda>p. \<exists>rts. p = single_pipe rts) Serving (single_heard demo_part) [Init [Generic demo_part]] 1 x"
    using single_served [OF _ single_one_entry] by blast
  have safe: "\<forall>e \<in> set (config_entries single_config). entry_safe e"
    by (simp add: config_entries_def single_config_def overlapping_config_def)
  have got: "main_got x n = (if n = 0 then [Init [Generic demo_part]] else [])" for n
  proof (cases "n = 0")
    case False
    have "length (main_pipelines x) = 1"
      using main_follow [OF main_runs_ok [OF begun x(1)] single_config_parsed [of "[]"]] x(2)
      by (auto simp: single_at_def pipelines_follow_def config_entries_def single_config_def overlapping_config_def
          dest!: list_all2_lengthD)
    with False x(2) channels_ok_new [OF main_okD(1) [OF main_runs_ok [OF begun x(1)]], of n] show ?thesis
      by (simp add: single_at_def)
  qed (use x(2) in \<open>simp add: single_at_def\<close>)
  have speed: "\<forall>d \<in> waiting_devices x. kernel_speed d"
    using x(2) by (auto simp: waiting_devices_def got single_at_def mentioned_def)
  have "\<forall>n. \<not> clogged x n" by (simp add: clogged_def got)
  with main_can_return [OF begun x(1) safe speed] begun x(1) show ?thesis by (meson rtranclp_trans)
qed

lemma partition_reaches_container_witness:
  "\<exists>x0 x rts res j. single_begin = Inr (single_config, x0) \<and> main_runs demo_env no_rdma single_config x0 x \<and>
     main_pipelines x ! 0 = single_pipe rts \<and> rts \<lparr>Domain = ''d.e'', Prefix = ''part-disk1''\<rparr> = Some res \<and>
     res_instances res ''disk1'' = Some j \<and> inst_Health (\<lambda>_. new_pool ''d'') j = Unhealthy"
proof -
  let ?t = "\<lparr>Domain = ''d.e'', Prefix = ''part-disk1''\<rparr>"
  let ?p = "\<lparr>part_domain = ''d.e'', part_label = ''disk1'', part_dev = Generic demo_part,
    part_disableTopologyHints = False\<rparr>"
  obtain x0 where begun: "single_begin = Inr (single_config, x0)" using single_begins by blast
  from single_removed [OF begun single_one_entry, of demo_part] obtain x where runs: "main_runs demo_env no_rdma single_config x0 x"
    and x: "main_phase x = Serving" "main_got x 0 = [Init [Generic demo_part], Removed (Generic demo_part)]"
      "main_handled x 0 = 2" "\<not> main_lost x" "main_discovery x = discovery_step (single_removal demo_part) (single_heard demo_part)"
    by (auto simp: single_at_def)
  have disc: "\<not> disc_done (main_discovery x)" using x(5) single_gone_simps(2) by simp
  have entry: "entry_domain single_config (Partitions single_config ! 0) = ''d.e''"
    "DisableTopologyHints single_config = False" "0 < length (Partitions single_config)"
    "\<forall>j < length (Partitions single_config). j \<noteq> 0 \<longrightarrow> entry_domain single_config (Partitions single_config ! j) \<noteq> ''d.e''"
    by (simp_all add: single_config_def overlapping_config_def effective_domain_def)
  have current: "main_handled x 0 = length (main_got x 0)" using x(2,3) by simp
  have claims: "claims_ok (partition_templater ''d.e'' demo_matcher) (partition_mapper ''d.e'' demo_matcher False) (main_got x 0)"
    by (simp add: x(2) claims_ok_def mentioned_def)
  have dev: "Generic demo_part \<in> mentioned (main_got x 0)" by (simp add: x(2) mentioned_def)
  have maps: "PartitionLabelMatcherTemplater ''d.e'' demo_matcher (Generic demo_part) = Return (Inr (Some ?t))"
    "PartitionLabelMatcherInstances ''d.e'' demo_matcher False (Generic demo_part) = Return (Inr [?p])"
    by (simp_all add: partition_mappings demo_part_simps)
  have gone: "disc_DeviceById (dev_Id (Generic demo_part)) (main_discovery x) = None"
    using x(5) single_gone_simps(3) [of demo_part] by (simp add: demo_part_simps)
  from partition_reaches_container [OF begun runs x(1) nothing_fails_demo disc x(4) entry(3), unfolded entry(1,2),
      OF entry(4) refl current claims dev maps, where pools = "\<lambda>_. new_pool ''d''" and order = "\<lambda>_. []"]
  obtain rts res j where "main_pipelines x ! 0 = single_pipe rts" "rts ?t = Some res"
    "res_instances res (partition_Id ?p) = Some j" "inst_Health (\<lambda>_. new_pool ''d'') j = Unhealthy"
    unfolding gone by (elim exE conjE) (rule that, assumption, assumption, assumption, simp only: if_True simp_thms)
  with begun runs show ?thesis
    by (intro exI [of _ x0] exI [of _ x] exI [of _ rts] exI [of _ res] exI [of _ j]) (simp add: partition_Id_def)
qed

section \<open>Serving without devices\<close>

text \<open>
  When the monitor cannot open the netlink socket or read the devices it only logs and ends, while
  \<open>NewDiscovery\<close> has long returned without an error. Such a process still starts every pipeline and
  serves, and no pipeline ever gets an event.
\<close>

definition deaf :: "process \<Rightarrow> bool" where
  "deaf x \<longleftrightarrow> main_enumerated x \<and> disc_done (main_discovery x) \<and> disc_mux (main_discovery x) = Map.empty \<and>
     main_got x = (\<lambda>n. [])"

lemma main_step_deaf:
  assumes "main_step env rdma c x y" and deaf: "deaf x"
  shows "deaf y"
  using assms(1)
proof cases
  case (main_defer d ds y')
  with deaf show ?thesis
    by (cases d) (auto simp: deaf_def disc_Close_def fun_eq_iff split: prod.splits if_splits)
next
  case (main_monitor i)
  have "discovery_step i (main_discovery x) = main_discovery x \<or> (\<exists>d. discovery_step i (main_discovery x) =
      (main_discovery x)\<lparr>disc_retrying := d\<rparr>)"
    using main_monitor(4) deaf by (cases i) (auto simp: discovery_step_def deaf_def)
  with main_monitor deaf show ?thesis by (auto simp: deaf_def hear_def fun_eq_iff)
qed (use deaf in \<open>auto simp: deaf_def cancel_mux disc_Subscribe_def hear_def fun_eq_iff serve_def\<close>)

lemma main_runs_deaf: "main_runs env rdma c x y \<Longrightarrow> deaf x \<Longrightarrow> deaf y"
  by (induction rule: rtranclp_induct) (auto intro: main_step_deaf)

lemma main_serves_without_devices:
  assumes begun: "main_begin w Decode Compile flags env = Inr (c, x0)"
    and fits: "\<forall>e \<in> set (config_entries c). entry_fits e"
  shows "\<exists>x. main_runs env rdma c x0 x \<and> main_phase x = Serving \<and> (\<forall>y. main_runs env rdma c x y \<longrightarrow> main_got y = (\<lambda>n. []))"
proof -
  from begun obtain input where parsed: "parseConfig Decode Compile input = Inr c"
    and x0: "main_phase x0 = Starting (config_entries c)" "\<not> main_enumerated x0" "main_got x0 = (\<lambda>n. [])"
    by (elim main_begin_cases) (rule that, simp_all)
  let ?x1 = "x0\<lparr>main_discovery := monitor_start False None (main_discovery x0), main_enumerated := True\<rparr>"
  have step: "main_step env rdma c x0 ?x1" using x0 by (intro main_enumerate) simp_all
  have ok: "main_ok env rdma c ?x1" by (rule main_step_main_ok [OF step main_begin_ok [OF begun]])
  have deaf: "deaf ?x1" using x0(3) by (simp add: deaf_def monitor_start_def monitor_exit_def)
  have "ready ?x1" by (rule ready_done) (simp_all add: monitor_start_def monitor_exit_def)
  from reach_serving [OF parsed fits ok _ this] x0(1) obtain x where
    x: "main_runs env rdma c ?x1 x" "main_phase x = Serving" by auto
  from main_runs_deaf [OF _ main_runs_deaf [OF x(1) deaf]] have "main_got y = (\<lambda>n. [])" if "main_runs env rdma c x y" for y
    using that by (simp add: deaf_def)
  with x converse_rtranclp_into_rtranclp [OF step x(1)] show ?thesis by blast
qed

end
