(* ===== verification/App_Batches.thy ===== *)
theory App_Batches
  imports App_Lifecycle
begin

text \<open>
  The batch entries of a running process: the batch of a pipeline is at every moment what its
  goroutine makes of the events the pipeline handled, whatever the other pipelines do. Composed with
  the discovery and the allocation this gives what a batch entry becomes for the kubelet.
\<close>

section \<open>The batch of a pipeline\<close>

definition batch_made :: "reg_env \<Rightarrow> appConfig \<Rightarrow> event list \<Rightarrow> entry \<Rightarrow> pipeline \<Rightarrow> bool" where
  "batch_made env c evs e p \<longleftrightarrow> (\<forall>m b. p = BatchPipeline m b \<longrightarrow> (\<exists>bc r r' b0. e = BatchEntry bc \<and>
     m = the (bc_matcher bc) \<and> b = runBatchPartitionScatter m evs b0 \<and>
     NewBatchPartitionScatter (registry_add env) (effective_domain (bc_DomainOverride bc) (DeviceDomain c))
       (bc_Name bc) (sint (bc_Count bc)) r = Return (r', Some b0)))"

definition batches_followed :: "reg_env \<Rightarrow> appConfig \<Rightarrow> app_label list \<Rightarrow> entry list \<times> app \<Rightarrow> bool" where
  "batches_followed env c ls x \<longleftrightarrow> (case x of (es, a) \<Rightarrow> \<exists>begun. config_entries c = begun @ es \<and>
     length begun = length (app_pipelines a) \<and> (\<forall>n \<ge> length begun. handled n ls = []) \<and>
     (\<forall>n < length begun. batch_made env c (handled n ls) (begun ! n) (app_pipelines a ! n)))"

lemma batch_made_scatter [simp]: "batch_made env c evs e (ScatterPipeline tm mp rts)" "batch_made env c evs e NoPipeline"
  by (simp_all add: batch_made_def)

lemma batch_made_event:
  "batch_made env c evs e (BatchPipeline m b) \<Longrightarrow> batch_made env c (evs @ [ev]) e (BatchPipeline m (batch_event m ev b))"
  by (fastforce simp: batch_made_def run_batch_append)

lemma start_entry_batch:
  assumes "start_entry env rdma c e st = Return st'"
  obtains p r where "st' = chain_pipeline p r st" and "batch_made env c [] e p"
proof (cases e)
  case (BatchEntry bc)
  with assms obtain r made where
    new: "NewBatchPartitionScatter (registry_add env) (effective_domain (bc_DomainOverride bc) (DeviceDomain c))
        (bc_Name bc) (sint (bc_Count bc)) (app_registry (fst st)) = Return (r, made)"
    and st': "st' = chain_pipeline
        (case made of None \<Rightarrow> NoPipeline | Some b \<Rightarrow> BatchPipeline (the (bc_matcher bc)) b) r st"
    by (auto simp: start_batch_def elim!: bind_outcome_ReturnE)
  from new BatchEntry have "batch_made env c [] e
      (case made of None \<Rightarrow> NoPipeline | Some b \<Rightarrow> BatchPipeline (the (bc_matcher bc)) b)"
    by (auto simp: batch_made_def split: option.split)
  with st' show thesis by (rule that)
qed (use assms in \<open>auto simp: start_partition_def start_netbw_def start_netrdma_def Let_def intro: that\<close>)

lemma batches_followed_event:
  assumes old: "batches_followed env c ls (es, a)" and n: "n < length (app_pipelines a)"
    and event: "pipeline_event env n ev a = Return a'"
  shows "batches_followed env c (ls @ [Handles n ev]) (es, a')"
proof -
  from old obtain begun where begun: "config_entries c = begun @ es" "length begun = length (app_pipelines a)"
    and idle: "\<forall>i \<ge> length begun. handled i ls = []"
    and made: "\<forall>i < length begun. batch_made env c (handled i ls) (begun ! i) (app_pipelines a ! i)"
    by (auto simp: batches_followed_def)
  have "batch_made env c (handled n ls) (begun ! n) (app_pipelines a ! n)" using made n begun(2) by simp
  then have "\<exists>q. app_pipelines a' = (app_pipelines a)[n := q] \<and> batch_made env c (handled n ls @ [ev]) (begun ! n) q"
  proof (cases "app_pipelines a ! n")
    case (BatchPipeline m b)
    from batch_made_event [OF \<open>batch_made _ _ _ _ _\<close> [unfolded BatchPipeline]] event BatchPipeline show ?thesis
      by (auto simp: pipeline_event_def)
  next
    case NoPipeline
    then have "(app_pipelines a)[n := NoPipeline] = app_pipelines a" by (metis list_update_id)
    with event NoPipeline show ?thesis by (intro exI [of _ NoPipeline]) (simp add: pipeline_event_def)
  qed (use event in \<open>auto simp: pipeline_event_def elim!: bind_outcome_ReturnE\<close>)
  then obtain q where q: "app_pipelines a' = (app_pipelines a)[n := q]"
    "batch_made env c (handled n ls @ [ev]) (begun ! n) q" by blast
  have "batch_made env c (handled i (ls @ [Handles n ev])) (begun ! i) (app_pipelines a' ! i)" if "i < length begun" for i
    using that made q begun(2) by (cases "i = n") simp_all
  with begun idle n q(1) show ?thesis by (auto simp: batches_followed_def)
qed

lemma batches_followed_step:
  assumes step: "app_step env rdma c x l y" and cleanup: "cleanup_ok (snd x)"
    and old: "batches_followed env c ls (fst x, fst (snd x))"
  shows "batches_followed env c (ls @ [l]) (fst y, fst (snd y))"
  using step
proof cases
  case (step_start e st st' es)
  with old obtain begun where begun: "config_entries c = begun @ e # es"
    "length begun = length (app_pipelines (fst st))" "\<forall>n \<ge> length begun. handled n ls = []"
    and made: "\<forall>n < length begun. batch_made env c (handled n ls) (begun ! n) (app_pipelines (fst st) ! n)"
    by (auto simp: batches_followed_def)
  from start_entry_batch [OF step_start(4)] obtain p r where
    st': "st' = chain_pipeline p r st" and p: "batch_made env c [] e p" .
  have "batch_made env c (handled n ls) ((begun @ [e]) ! n) ((app_pipelines (fst st) @ [p]) ! n)"
    if "n < Suc (length begun)" for n
    using that made p begun by (cases "n = length begun") (simp_all add: nth_append)
  with begun step_start(1-3) st' show ?thesis
    by (auto simp: batches_followed_def chain_pipeline_simps intro!: exI [of _ "begun @ [e]"])
next
  case (step_event n a ev a' es cancel)
  with batches_followed_event [of env c ls es a n ev a'] old show ?thesis by simp
next
  case (step_cleanup a cancel)
  with old cleanup cleanup_okD [of a cancel a] show ?thesis by (simp add: batches_followed_def)
qed (use old in \<open>simp_all add: batches_followed_def\<close>)

lemma batches_followed_trace: "app_trace env rdma c ls x \<Longrightarrow> batches_followed env c ls (fst x, fst (snd x))"
proof (induction rule: app_trace.induct)
  case trace_empty
  show ?case by (simp add: batches_followed_def empty_app_def)
next
  case (trace_snoc ls x l y)
  from batches_followed_step [OF trace_snoc.hyps(2) app_reachable_cleanup [OF app_trace_reachable [OF trace_snoc.hyps(1)]]
    trace_snoc.IH] show ?case .
qed

section \<open>From the entry to the batch\<close>

lemma run_batch_name: "res_Name (bt_res (runBatchPartitionScatter m evs b)) = res_Name (bt_res b)"
  by (induction evs arbitrary: b) (simp_all add: batch_event_name)

lemma batch_entry_matcher:
  assumes "list_all (entry_ready Compile) (config_entries c)" and "n < length (config_entries c)"
    and "config_entries c ! n = BatchEntry bc"
  shows "Compile (bc_Matcher bc) = Inr (the (bc_matcher bc))"
proof -
  have "entry_ready Compile (BatchEntry bc)" using assms by (metis list_all_length)
  then have "compiles Compile (\<lambda>m. True) (bc_Matcher bc)" "bc_matcher bc = compiled Compile (bc_Matcher bc)"
    by (auto simp: bc_ok_def bc_normal_def dest: arg_cong [of _ _ bc_matcher])
  with compiles_Some [of Compile "\<lambda>m. True"] compiles_matcher [of Compile "\<lambda>m. True"] show ?thesis by fastforce
qed

section \<open>Properties\<close>

text \<open>
  C5: From a batch entry to the container. Take a process that serves, with a discovery that runs
  and has lost no event, and a batch that the registry accepted. When its pipeline has handled what
  its channel got, with a matcher that keeps its verdict on a device, the pool is exactly the set of
  matching partitions that the discovery reports now. The resource has the name of the entry, which the
  registry knows; it offers every configured seat, healthy exactly if there is such a partition; and
  an allocation of a seat hands out all of them, each under its label and in the domain of the entry.
\<close>

theorem batch_reaches_container:
  fixes c bc x m defines "d \<equiv> effective_domain (bc_DomainOverride bc) (DeviceDomain c)"
    and "present \<equiv> disc_State (batch_matches m) (main_discovery x)"
  assumes begun: "main_begin w Decode Compile flags env = Inr (c, x0)" and runs: "main_runs env rdma c x0 x"
    and serving: "main_phase x = Serving" and disc: "\<not> disc_done (main_discovery x)" "\<not> main_lost x"
    and n: "n < length (main_pipelines x)" and pipe: "main_pipelines x ! n = BatchPipeline m b"
    and entry: "config_entries c ! n = BatchEntry bc"
    and current: "main_handled x n = length (main_got x n)"
    and stable: "filter_stable (batch_matches m) (main_got x n)" and k: "k < nat (sint (bc_Count bc))"
  shows "Compile (bc_Matcher bc) = Inr m \<and> pool_parts (bt_pool b) = present \<and>
    res_Name (bt_res b) = d @ ''/batch-'' @ bc_Name bc \<and> res_Name (bt_res b) \<in> dom (reg_plugins (main_registry x)) \<and>
    map_option (inst_Health (\<lambda>_. bt_pool b)) (res_instances (bt_res b) (show_nat k)) =
      Some (if present = Map.empty then Unhealthy else Healthy) \<and>
    plugin_Allocate (\<lambda>_. bt_pool b) (\<lambda>_. order) (bt_res b) [[show_nat k]] =
      Inr [mergeResponses (map (\<lambda>dev. Some (allocatePartitionDevice dev d (batch_label m dev))) (range_values present order))]"
proof -
  from main_begin_cases [OF begun] obtain input where parsed: "parseConfig Decode Compile input = Inr c" by blast
  have "main_pipelines x ! n \<noteq> NoPipeline" using pipe by simp
  from pipeline_current [OF begun runs serving disc n this current] obtain ls a cancel where
    a: "main_app x = (a, cancel)" and trace: "app_trace env rdma c ls ([], (a, cancel))"
    and handled: "handled n ls = main_got x n" and removals: "removals_ok (main_discovery x)"
    and heard: "disc_mux (main_discovery x) n = Some (main_got x n)" .
  from batches_followed_trace [OF trace] have "batch_made env c (main_got x n) (config_entries c ! n) (main_pipelines x ! n)"
    using n a handled by (auto simp: batches_followed_def)
  with pipe entry obtain r r' b0 where m: "m = the (bc_matcher bc)" and b: "b = runBatchPartitionScatter m (main_got x n) b0"
    and new: "NewBatchPartitionScatter (registry_add env) d (bc_Name bc) (sint (bc_Count bc)) r = Return (r', Some b0)"
    by (auto simp: batch_made_def d_def)
  have parts: "pool_parts (bt_pool b) = present"
    unfolding b present_def by (rule batch_pool_present [OF new removals heard disc(1) stable])
  have labelled: "pool_labelled m (bt_pool b)" "pool_domain (bt_pool b) = d"
    unfolding b by (simp_all add: run_batch_pool seats_of_new(2) [OF new] pool_labelled_new) (simp add: new_pool_def)
  from batch_seat_stored [OF new k, of m "main_got x n"] obtain j where
    j: "res_instances (bt_res b) (show_nat k) = Some j"
      "inst_Health (\<lambda>_. bt_pool b) j = (if present = Map.empty then Unhealthy else Healthy)"
      "\<And>w order. inst_Allocate w order j = Inr (Some (pool_allocate (order 0) (w 0)))"
    unfolding b [symmetric] parts by blast
  have "plugin_Allocate (\<lambda>_. bt_pool b) (\<lambda>_. order) (bt_res b) [[show_nat k]] = Inr [pool_allocate order (bt_pool b)]"
    by (simp add: plugin_Allocate_def j(1,3))
  moreover have "res_Name (bt_res b) \<in> dom (reg_plugins (main_registry x))"
    using app_reachable_ok [OF app_trace_reachable [OF trace]] owned_once_names [of _ _ n] n pipe
    by (fastforce simp: app_ok_def a)
  moreover have "res_Name (bt_res b) = d @ ''/batch-'' @ bc_Name bc"
  proof -
    from new have "res_Name (bt_res b0) = d @ ''/batch-'' @ bc_Name bc"
      by (cases rule: NewBatch_cases) (simp_all add: res_Name_def)
    then show ?thesis by (simp add: b run_batch_name)
  qed
  moreover have "Compile (bc_Matcher bc) = Inr m"
    unfolding m by (rule batch_entry_matcher [OF parsed_ready(2) [OF parsed] _ entry])
      (use batches_followed_trace [OF trace] n a in \<open>auto simp: batches_followed_def\<close>)
  ultimately show ?thesis
    using parts j(1,2) by (simp add: pool_allocate_labelled [OF labelled(1)] labelled(2) d_def)
qed

text \<open>One batch entry with two seats, on the demonstration machine.\<close>

definition batch_config :: appConfig where
  "batch_config = overlapping_config\<lparr>Partitions := [], BatchPartitions := [\<lparr>bc_Name = ''all'', bc_Matcher = ''ydb_(.*)'',
     bc_Count = 2, bc_DomainOverride = [], bc_matcher = Some demo_matcher\<rparr>]\<rparr>"

lemma batch_config_parsed: "parseConfig (\<lambda>_. Inr batch_config) (\<lambda>_. Inr demo_matcher) text = Inr batch_config"
proof -
  have "valid_domain ''d.e''" by code_simp
  then have "config_ok (\<lambda>_. Inr demo_matcher) batch_config"
    by (simp add: config_ok_def batch_config_def overlapping_config_def bc_ok_def override_ok_def compiles_def)
  moreover have "batch_config = config_normal (\<lambda>_. Inr demo_matcher) batch_config"
    by (simp add: config_normal_def batch_config_def overlapping_config_def bc_normal_def compiled_def)
  ultimately show ?thesis by (auto simp: parseConfig_Inr_iff)
qed

lemma batch_entries: "config_entries batch_config = [BatchEntry (hd (BatchPartitions batch_config))]"
  by (simp add: config_entries_def batch_config_def overlapping_config_def)

lemma batch_one_entry: "one_entry no_rdma g batch_config (\<lambda>p. \<exists>b. p = BatchPipeline demo_matcher b)"
  unfolding one_entry_def
proof (intro conjI allI impI)
  have "\<exists>a cancel b. start_entry demo_env no_rdma batch_config (BatchEntry (hd (BatchPartitions batch_config)))
      (empty_app empty_registry) = Return (a, cancel) \<and> app_pipelines a = [BatchPipeline demo_matcher b]"
    by (simp add: batch_config_def overlapping_config_def start_batch_def NewBatchPartitionScatter_def make_instances_Return maxAlloc_def
        Let_def registry_add_def registry_Add_def newPlugin_def demo_env_def empty_registry_def register_def
        chain_pipeline_def empty_app_def case_prod_beta)
  then show "\<exists>e a cancel p. config_entries batch_config = [e] \<and> p \<noteq> NoPipeline \<and>
      (\<exists>b. p = BatchPipeline demo_matcher b) \<and> app_pipelines a = [p] \<and>
      start_entry demo_env no_rdma batch_config e (empty_app empty_registry) = Return (a, cancel)"
    unfolding batch_entries by blast
next
  fix ev and a :: app
  assume "set (event_devices ev) \<subseteq> {Generic g} \<and> 0 < length (app_pipelines a) \<and> (\<exists>b. app_pipelines a ! 0 = BatchPipeline demo_matcher b)"
  then show "\<exists>a'. pipeline_event demo_env 0 ev a = Return a' \<and> 0 < length (app_pipelines a') \<and>
      (\<exists>b. app_pipelines a' ! 0 = BatchPipeline demo_matcher b)" by (auto simp: pipeline_event_def)
qed

lemma batch_reaches_container_witness:
  "\<exists>x0 x b. demo_begin demo_matcher batch_config = Inr (batch_config, x0) \<and> main_runs demo_env no_rdma batch_config x0 x \<and>
     main_pipelines x ! 0 = BatchPipeline demo_matcher b \<and> pool_parts (bt_pool b) = [''sda1'' \<mapsto> Generic demo_part] \<and>
     map_option (inst_Health (\<lambda>_. bt_pool b)) (res_instances (bt_res b) (show_nat 1)) = Some Healthy \<and>
     plugin_Allocate (\<lambda>_. bt_pool b) (\<lambda>_. [''sda1'']) (bt_res b) [[show_nat 1]] =
       Inr [allocatePartitionDevice (Generic demo_part) ''d.e'' ''disk1'']"
proof -
  let ?bc = "hd (BatchPartitions batch_config)" and ?present = "[''sda1'' \<mapsto> Generic demo_part]"
  from demo_begins [of batch_config demo_matcher, OF batch_config_parsed] obtain x0 where
    begun: "demo_begin demo_matcher batch_config = Inr (batch_config, x0)" by blast
  from single_served [OF begun batch_one_entry, of demo_part] obtain x b where runs: "main_runs demo_env no_rdma batch_config x0 x"
    and x: "main_phase x = Serving" "main_discovery x = single_heard demo_part" "\<not> main_lost x"
      "main_got x 0 = [Init [Generic demo_part]]" "main_handled x 0 = 1" "0 < length (main_pipelines x)"
      "main_pipelines x ! 0 = BatchPipeline demo_matcher b"
    by (auto simp: single_at_def)
  have disc: "\<not> disc_done (main_discovery x)" using x(2) single_heard_simps(2) by simp
  have entry: "config_entries batch_config ! 0 = BatchEntry ?bc" by (simp add: batch_entries)
  have config: "bc_DomainOverride ?bc = []" "1 < nat (sint (bc_Count ?bc))" "DeviceDomain batch_config = ''d.e''"
    by (simp_all add: batch_config_def overlapping_config_def)
  have current: "main_handled x 0 = length (main_got x 0)" using x(4,5) by simp
  have stable: "filter_stable (batch_matches demo_matcher) (main_got x 0)" by (simp add: x(4) filter_stable_def)
  have matches: "matchBatchPartitionDevice (Some (Generic demo_part)) demo_matcher = Some (''sda1'', ''disk1'')"
    by (simp add: matchBatchPartitionDevice_def demo_part_simps)
  have "disc_state (single_heard demo_part) = ?present"
    by (simp add: single_heard_def single_found_def discovery_step_def monitor_start_def NewDiscovery_def
        demo_part_simps heard_before_def join_member_def)
  then have present: "disc_State (batch_matches demo_matcher) (main_discovery x) = ?present"
    using disc by (simp add: x(2) disc_State_open filter_map_def batch_matches_def matches fun_eq_iff)
  have dom: "effective_domain (bc_DomainOverride ?bc) (DeviceDomain batch_config) = ''d.e''"
    by (simp add: config effective_domain_def)
  from batch_reaches_container [OF begun runs x(1) disc x(3,6,7) entry current stable config(2), of "[''sda1'']"]
  have "pool_parts (bt_pool b) = ?present" "map_option (inst_Health (\<lambda>_. bt_pool b)) (res_instances (bt_res b) (show_nat 1)) = Some Healthy"
    "plugin_Allocate (\<lambda>_. bt_pool b) (\<lambda>_. [''sda1'']) (bt_res b) [[show_nat 1]] =
       Inr [allocatePartitionDevice (Generic demo_part) ''d.e'' ''disk1'']"
    unfolding present dom by (simp_all add: batch_label_def matches range_values_def List.map_filter_simps)
  with begun runs x(7) show ?thesis by blast
qed

end
