(* ===== verification/App_Network.thy ===== *)
theory App_Network
  imports App_Lifecycle
begin

text \<open>
  The network entries of a running process: what a network interface of the machine becomes for the
  kubelet, for a bandwidth entry and for an RDMA entry that is the only one of its kind.
\<close>

section \<open>Network entries have names of their own\<close>

fun same_kind :: "entry \<Rightarrow> entry \<Rightarrow> bool" where
  "same_kind (PartitionEntry _) (PartitionEntry _) = True"
| "same_kind (BatchEntry _) (BatchEntry _) = True"
| "same_kind (NetBWEntry _) (NetBWEntry _) = True"
| "same_kind (NetRdmaEntry _) (NetRdmaEntry _) = True"
| "same_kind _ _ = False"

lemma ready_domains:
  assumes "valid_domain (DeviceDomain c)"
  shows "entry_ready Compile (PartitionEntry pc) \<Longrightarrow> CHR ''/'' \<notin> set (entry_domain c pc)"
    and "entry_ready Compile (BatchEntry bc) \<Longrightarrow> CHR ''/'' \<notin> set (effective_domain (bc_DomainOverride bc) (DeviceDomain c))"
    and "CHR ''/'' \<notin> set (DeviceDomain c)"
  using assms by (simp_all add: pc_ok_def bc_ok_def valid_domain_no_slash effective_valid)

lemma kinds_apart:
  assumes domain: "valid_domain (DeviceDomain c)" and ready: "entry_ready Compile e" "entry_ready Compile e'"
    and kind: "\<not> same_kind e e'"
  shows "entry_names c e \<inter> entry_names c e' = {}"
  using ready kind ready_domains(1,2) [OF domain, of Compile] ready_domains(3) [OF domain]
  by (cases e; cases e') (auto simp: slash_names simp del: entry_ready.simps)

lemma only_of_kind:
  assumes parsed: "parseConfig Decode Compile text = Inr c" and n: "n < length (config_entries c)"
    and only: "\<And>i. i < length (config_entries c) \<Longrightarrow> i \<noteq> n \<Longrightarrow> \<not> same_kind (config_entries c ! i) (config_entries c ! n)"
  shows "own_names c n"
  unfolding own_names_def
proof (intro allI impI)
  fix i assume i: "i < length (config_entries c)" "i \<noteq> n"
  have "entry_ready Compile (config_entries c ! i)" "entry_ready Compile (config_entries c ! n)"
    using parsed_ready(2) [OF parsed] i(1) n by (metis list_all_length)+
  from kinds_apart [OF parsed_ready(1) [OF parsed] this only [OF i]]
  show "entry_names c (config_entries c ! i) \<inter> entry_names c (config_entries c ! n) = {}" .
qed

text \<open>The positions of the network entries.\<close>

definition netbw_index :: "appConfig \<Rightarrow> nat" where
  "netbw_index c = length (Partitions c) + length (BatchPartitions c)"

definition netrdma_index :: "appConfig \<Rightarrow> nat" where
  "netrdma_index c = netbw_index c + length (NetworkBandwidth c)"

lemma single_netbw:
  assumes parsed: "parseConfig Decode Compile text = Inr c" and only: "NetworkBandwidth c = [nbc]"
  shows "config_entries c ! netbw_index c = NetBWEntry nbc" and "netbw_index c < length (config_entries c)"
    and "own_names c (netbw_index c)"
proof -
  show entry: "config_entries c ! netbw_index c = NetBWEntry nbc" and n: "netbw_index c < length (config_entries c)"
    using only by (simp_all add: config_entries_def netbw_index_def nth_append)
  have "\<not> same_kind (config_entries c ! i) (NetBWEntry nbc)" if "i < length (config_entries c)" "i \<noteq> netbw_index c" for i
    using that only by (auto simp: config_entries_def netbw_index_def nth_append nth_Cons')
  with only_of_kind [OF parsed n] show "own_names c (netbw_index c)" by (simp add: entry)
qed

lemma single_netrdma:
  assumes parsed: "parseConfig Decode Compile text = Inr c" and only: "NetworkRdma c = [nrc]"
  shows "config_entries c ! netrdma_index c = NetRdmaEntry nrc" and "netrdma_index c < length (config_entries c)"
    and "own_names c (netrdma_index c)"
proof -
  show entry: "config_entries c ! netrdma_index c = NetRdmaEntry nrc" and n: "netrdma_index c < length (config_entries c)"
    using only by (simp_all add: config_entries_def netrdma_index_def netbw_index_def nth_append)
  have "\<not> same_kind (config_entries c ! i) (NetRdmaEntry nrc)" if "i < length (config_entries c)" "i \<noteq> netrdma_index c" for i
    using that only by (auto simp: config_entries_def netrdma_index_def netbw_index_def nth_append nth_Cons')
  with only_of_kind [OF parsed n] show "own_names c (netrdma_index c)" by (simp add: entry)
qed

section \<open>The slots of a running process\<close>

lemma decode_Health: "decode j = (i, h) \<Longrightarrow> inst_Health w j = (if h = Healthy then inst_Health w i else h)"
  by (cases j) auto

lemma as_insts_mem:
  assumes "as_insts wrap f d = Return (Inr is)" and "i \<in> set is"
  obtains qs q where "f d = Return (Inr qs)" and "q \<in> set qs" and "i = wrap q"
  using assms by (auto simp: as_insts_def elim!: bind_outcome_ReturnE split: sum.splits)

lemma as_insts_plain:
  "(\<And>q. plain_inst (wrap q)) \<Longrightarrow> \<forall>d is. as_insts wrap f d = Return (Inr is) \<longrightarrow> (\<forall>i \<in> set is. plain_inst i)"
  by (auto elim: as_insts_mem)

text \<open>In a serving process every entry has been started.\<close>

lemma serving_started:
  assumes "main_begin w Decode Compile flags env = Inr (c, x0)" and "main_runs env rdma c x0 x"
    and "main_phase x = Serving" and "n < length (config_entries c)"
  shows "n < length (main_pipelines x)" and "pipeline_of rdma Compile c (config_entries c ! n) (main_pipelines x ! n)"
proof -
  from main_begin_cases [OF assms(1)] obtain input where parsed: "parseConfig Decode Compile input = Inr c" by blast
  from main_okD(2) [OF main_runs_ok [OF assms(1,2)]] assms(3) obtain ls where
    "app_trace env rdma c ls ([], main_app x)" by (auto simp: app_run_def)
  from app_reachable_follow [OF parsed app_trace_reachable [OF this]]
  have follow: "pipelines_follow rdma Compile c [] (fst (main_app x))" by simp
  then show n: "n < length (main_pipelines x)" using assms(4) by (auto simp: pipelines_follow_def dest: list_all2_lengthD)
  from pipelines_follow_nth(2) [OF follow n] show "pipeline_of rdma Compile c (config_entries c ! n) (main_pipelines x ! n)" .
qed

lemma process_calm:
  assumes begun: "main_begin w Decode Compile flags env = Inr (c, x0)" and runs: "main_runs env rdma c x0 x"
    and serving: "main_phase x = Serving" and env: "nothing_fails env"
    and disc: "\<not> disc_done (main_discovery x)" "\<not> main_lost x" and own: "own_names c n"
    and n: "n < length (main_pipelines x)" and pipe: "main_pipelines x ! n = ScatterPipeline tm mp rts"
    and current: "main_handled x n = length (main_got x n)" and dev: "dev \<in> mentioned (main_got x n)"
  shows "calm tm mp dev"
proof -
  from main_begin_cases [OF begun] obtain input where parsed: "parseConfig Decode Compile input = Inr c" by blast
  have "main_pipelines x ! n \<noteq> NoPipeline" using pipe by simp
  from pipeline_current [OF begun runs serving disc n this current] obtain ls a cancel where
    a: "main_app x = (a, cancel)" and trace: "app_trace env rdma c ls ([], (a, cancel))"
    and handled: "handled n ls = main_got x n" .
  from scatter_pipeline_run [OF env parsed trace own, of tm mp rts] n pipe
  have "scatter_run tm mp always_add (main_got x n) (new_scatter ()) = Return \<lparr>routes = rts, registry_state = ()\<rparr>"
    by (simp add: a handled)
  then show ?thesis using dev by (rule scatter_run_calm)
qed

lemma process_slot:
  assumes begun: "main_begin w Decode Compile flags env = Inr (c, x0)" and runs: "main_runs env rdma c x0 x"
    and serving: "main_phase x = Serving" and env: "nothing_fails env"
    and disc: "\<not> disc_done (main_discovery x)" "\<not> main_lost x" and own: "own_names c n"
    and n: "n < length (main_pipelines x)" and pipe: "main_pipelines x ! n = ScatterPipeline tm mp rts"
    and current: "main_handled x n = length (main_got x n)" and claims: "claims_ok tm mp (main_got x n)"
    and quiet: "\<forall>d. (\<nexists>t. tm d = Return (Inr (Some t))) \<longrightarrow> \<not> panics (mp d)"
    and plain: "\<forall>d is. mp d = Return (Inr is) \<longrightarrow> (\<forall>i \<in> set is. plain_inst i)"
    and dev: "dev \<in> mentioned (main_got x n)"
    and maps: "tm dev = Return (Inr (Some t))" "mp dev = Return (Inr is)" and i: "i \<in> set is"
  shows "\<exists>res j i' dev' is'. rts t = Some res \<and> template_Name t \<in> dom (reg_plugins (main_registry x)) \<and>
    res_instances res (inst_Id i) = Some j \<and>
    inst_Health pools j = (if disc_DeviceById (dev_Id dev) (main_discovery x) = None then Unhealthy else inst_Health pools i') \<and>
    inst_Id i' = inst_Id i \<and> mp dev' = Return (Inr is') \<and> i' \<in> set is' \<and>
    disc_DeviceById (dev_Id dev) (main_discovery x) \<in> {None, Some dev'} \<and>
    plugin_Allocate pools order res [[inst_Id i]] = Inr [inst_response pools order i']"
proof -
  from main_begin_cases [OF begun] obtain input where parsed: "parseConfig Decode Compile input = Inr c" by blast
  have calm: "\<forall>d \<in> mentioned (main_got x n). \<not> panics (tm d) \<and> \<not> panics (mp d)"
    using process_calm [OF begun runs serving env disc own n pipe current] quiet unfolding calm_def by blast
  have "main_pipelines x ! n \<noteq> NoPipeline" using pipe by simp
  from pipeline_current [OF begun runs serving disc n this current] obtain ls a cancel where
    a: "main_app x = (a, cancel)" and trace: "app_trace env rdma c ls ([], (a, cancel))"
    and handled: "handled n ls = main_got x n" and removals: "removals_ok (main_discovery x)"
    and heard: "disc_mux (main_discovery x) n = Some (main_got x n)" .
  from trace_slot [OF parsed env trace own, of tm mp rts "main_discovery x" n dev t "is" i pools order]
    n pipe removals heard claims calm plain dev maps i
  obtain res j i' dev' is' where "rts t = Some res" "template_Name t \<in> dom (reg_plugins (main_registry x))"
    "res_instances res (inst_Id i) = Some j"
    "decode j = (i', if disc_DeviceById (dev_Id dev) (main_discovery x) = None then Unhealthy else Healthy)"
    "inst_Id i' = inst_Id i" "mp dev' = Return (Inr is')" "i' \<in> set is'"
    "disc_DeviceById (dev_Id dev) (main_discovery x) \<in> {None, Some dev'}"
    "plugin_Allocate pools order res [[inst_Id i]] = Inr [inst_response pools order i']"
    unfolding handled a fst_conv by metis
  with decode_Health [OF this(4), of pools] show ?thesis
    by (intro exI [of _ res] exI [of _ j] exI [of _ i'] exI [of _ dev'] exI [of _ is']) auto
qed

section \<open>Properties\<close>

text \<open>
  C6: From an RDMA entry to the container. Take a process that serves, with a registry whose external
  calls succeed and a discovery that runs and has lost no event, and the only RDMA entry of the
  configuration. When its pipeline has handled what its channel got, and no two interfaces claim one
  slot, every matching interface with an RDMA device that was ever announced has its resource in the
  registry with the configured number of slots; a slot is unhealthy once the interface has gone and
  has the health of the link of the present interface before that; and an allocation of a slot
  hands out exactly the character devices of the RDMA device, each at its own path.
\<close>

theorem rdma_reaches_container:
  fixes c nrc m x defines "n \<equiv> netrdma_index c" and "count \<equiv> sint (nrc_ResourceCount nrc)"
    and "d \<equiv> DeviceDomain c"
  assumes begun: "main_begin w Decode Compile flags env = Inr (c, x0)" and runs: "main_runs env rdma c x0 x"
    and serving: "main_phase x = Serving" and env: "nothing_fails env"
    and disc: "\<not> disc_done (main_discovery x)" "\<not> main_lost x"
    and only: "NetworkRdma c = [nrc]" and m: "Compile (nrc_Matcher nrc) = Inr m"
    and current: "main_handled x n = length (main_got x n)"
    and claims: "claims_ok (NetRdmaMatcherTemplater d m) (as_insts RdmaInstance (NetRdmaMatcherInstances rdma d m count))
      (main_got x n)"
    and dev: "dev \<in> mentioned (main_got x n)" and ifname: "interface_matches m dev = Some (ifname, matches)"
    and device: "GetRdmaDeviceForNetdevice rdma ifname = Some r" and k: "int k < count"
  shows "\<exists>rts res j ds. main_pipelines x ! n = ScatterPipeline (NetRdmaMatcherTemplater d m)
      (as_insts RdmaInstance (NetRdmaMatcherInstances rdma d m count)) rts \<and>
    rts \<lparr>Domain = d, Prefix = ''netrdma-'' @ join (tl matches) ''_''\<rparr> = Some res \<and>
    d @ ''/netrdma-'' @ join (tl matches) ''_'' \<in> dom (reg_plugins (main_registry x)) \<and>
    res_instances res (ifname @ ''_'' @ show_nat k) = Some j \<and>
    inst_Health pools j = (case disc_DeviceById (dev_Id dev) (main_discovery x) of
      None \<Rightarrow> Unhealthy | Some dev' \<Rightarrow> operstate_Health dev') \<and>
    plugin_Allocate pools order res [[ifname @ ''_'' @ show_nat k]] = Inr [empty_response\<lparr>Devices := ds\<rparr>] \<and>
    ds = map (\<lambda>f. \<lparr>HostPath = f, ContainerPath = f, Permissions = ''rw''\<rparr>) (GetRdmaCharDevices rdma r)"
proof -
  let ?tm = "NetRdmaMatcherTemplater d m" and ?f = "NetRdmaMatcherInstances rdma d m count"
  let ?mp = "as_insts RdmaInstance ?f" and ?t = "\<lparr>Domain = d, Prefix = ''netrdma-'' @ join (tl matches) ''_''\<rparr>"
  from main_begin_cases [OF begun] obtain input where parsed: "parseConfig Decode Compile input = Inr c" by blast
  note entry = single_netrdma [OF parsed only, folded n_def]
  from serving_started [OF begun runs serving entry(2)] entry(1) m obtain rts where
    len: "n < length (main_pipelines x)" and pipe: "main_pipelines x ! n = ScatterPipeline ?tm ?mp rts"
    by (auto simp: d_def count_def)
  have t: "?tm dev = Return (Inr (Some ?t))" using ifname by (simp add: NetRdmaMatcherTemplater_def)
  have count: "0 \<le> count" using k by simp
  have "\<not> panics (?mp dev)"
    using process_calm [OF begun runs serving env disc entry(3) len pipe current dev] t by (auto simp: calm_def)
  then have fits: "pointer_size * count \<le> maxAlloc"
    using ifname device by (simp add: NetRdmaMatcherInstances_def interface_matched_eq make_instances_def split: if_splits)
  let ?q = "\<lambda>k. \<lparr>rdma_domain = d, rdma_ifname = ifname, rdma_idx = int k, rdma_dev = dev,
     rdma_associatedDevices = GetRdmaCharDevices rdma r\<rparr>"
  have mapped: "?mp dev = Return (Inr (map RdmaInstance (map ?q [0..<nat count])))"
    using ifname device count fits
    by (simp add: as_insts_def NetRdmaMatcherInstances_def interface_matched_eq make_instances_Return)
  have slot: "RdmaInstance (?q k) \<in> set (map RdmaInstance (map ?q [0..<nat count]))" using k by auto
  have quiet: "\<forall>d. (\<nexists>t. ?tm d = Return (Inr (Some t))) \<longrightarrow> \<not> panics (?mp d)"
    by (auto simp: NetRdmaMatcherTemplater_def NetRdmaMatcherInstances_def interface_matched_eq split: option.splits)
  have plain: "\<forall>d is. ?mp d = Return (Inr is) \<longrightarrow> (\<forall>i \<in> set is. plain_inst i)"
    by (rule as_insts_plain) simp
  have id: "inst_Id (RdmaInstance (?q k)) = ifname @ ''_'' @ show_nat k" by (simp add: rdma_Id_def slot_Id_def)
  from process_slot [OF begun runs serving env disc entry(3) len pipe current claims quiet plain dev t mapped slot,
      of pools order, unfolded id]
  obtain res j i' dev' is' where res: "rts ?t = Some res" "template_Name ?t \<in> dom (reg_plugins (main_registry x))"
      "res_instances res (ifname @ ''_'' @ show_nat k) = Some j"
    and health: "inst_Health pools j = (if disc_DeviceById (dev_Id dev) (main_discovery x) = None then Unhealthy
      else inst_Health pools i')"
    and i': "inst_Id i' = ifname @ ''_'' @ show_nat k" "?mp dev' = Return (Inr is')" "i' \<in> set is'"
    and dev': "disc_DeviceById (dev_Id dev) (main_discovery x) \<in> {None, Some dev'}"
    and alloc: "plugin_Allocate pools order res [[ifname @ ''_'' @ show_nat k]] = Inr [inst_response pools order i']"
    by (elim exE conjE) (rule that, assumption+)
  from as_insts_mem [OF i'(2,3)] obtain qs q where q: "?f dev' = Return (Inr qs)" "q \<in> set qs" "i' = RdmaInstance q" .
  from rdma_mapped [OF q(1,2)] obtain ifname' r' k' where
    mapped': "GetRdmaDeviceForNetdevice rdma ifname' = Some r'" "rdma_Id q = slot_Id ifname' (int k')"
    and chars: "rdma_dev q = dev'" "rdma_associatedDevices q = GetRdmaCharDevices rdma r'" by metis
  have "slot_Id ifname' (int k') = slot_Id ifname (int k)" using i'(1) q(3) mapped'(2) by (simp add: slot_Id_def)
  with mapped'(1) device have "r' = r" by (simp add: slot_Id_eq)
  have "inst_Health pools j = (case disc_DeviceById (dev_Id dev) (main_discovery x) of
      None \<Rightarrow> Unhealthy | Some dev' \<Rightarrow> operstate_Health dev')"
    using health dev' chars(1) q(3) by (auto simp: rdma_Health_def)
  moreover have "inst_response pools order i' = empty_response\<lparr>Devices :=
      map (\<lambda>f. \<lparr>HostPath = f, ContainerPath = f, Permissions = ''rw''\<rparr>) (GetRdmaCharDevices rdma r)\<rparr>"
    using q(3) chars(2) \<open>r' = r\<close> rdma_specs_Devices [of "GetRdmaCharDevices rdma r" empty_response]
      rdma_specs_other [of "GetRdmaCharDevices rdma r" empty_response]
    by (simp add: inst_response_def rdma_Allocate_def empty_response_def allocate_response.equality)
  ultimately show ?thesis
    using pipe res alloc
    by (intro exI [of _ rts] exI [of _ res] exI [of _ j]
        exI [of _ "map (\<lambda>f. \<lparr>HostPath = f, ContainerPath = f, Permissions = ''rw''\<rparr>) (GetRdmaCharDevices rdma r)"])
      (simp add: template_Name_def)
qed

text \<open>
  C7: From a bandwidth entry to the container. In such a process, for the only bandwidth entry of the
  configuration, with a positive share that a signed integer holds: every matching interface of
  known speed that was ever announced has its resource in the registry with one slot for each
  full share of the speed; a slot is unhealthy once the interface has gone and has the health of
  the link of the present interface before that; and an allocation of a slot changes nothing in
  the container.
\<close>

theorem netbw_reaches_container:
  fixes c nbc m x defines "n \<equiv> netbw_index c" and "share \<equiv> int (unat (nbc_MbpsPerShare nbc))"
    and "d \<equiv> DeviceDomain c"
  assumes begun: "main_begin w Decode Compile flags env = Inr (c, x0)" and runs: "main_runs env rdma c x0 x"
    and serving: "main_phase x = Serving" and env: "nothing_fails env"
    and disc: "\<not> disc_done (main_discovery x)" "\<not> main_lost x"
    and only: "NetworkBandwidth c = [nbc]" and m: "Compile (nbc_Matcher nbc) = Inr m"
    and current: "main_handled x n = length (main_got x n)"
    and claims: "claims_ok (NetBWMatcherTemplater d m)
      (as_insts BandwidthInstance (NetBWMatcherInstances d m (nbc_MbpsPerShare nbc))) (main_got x n)"
    and positive: "0 < share" "share < 2 ^ 63"
    and dev: "dev \<in> mentioned (main_got x n)" and ifname: "interface_matches m dev = Some (ifname, matches)"
    and speed: "atoi (SystemAttribute dev SysAttrSpeed) = Some speed" "0 \<le> speed" and k: "int k < speed div share"
  shows "\<exists>rts res j. main_pipelines x ! n = ScatterPipeline (NetBWMatcherTemplater d m)
      (as_insts BandwidthInstance (NetBWMatcherInstances d m (nbc_MbpsPerShare nbc))) rts \<and>
    rts \<lparr>Domain = d, Prefix = ''netbw-'' @ join (tl matches) ''_''\<rparr> = Some res \<and>
    d @ ''/netbw-'' @ join (tl matches) ''_'' \<in> dom (reg_plugins (main_registry x)) \<and>
    res_instances res (ifname @ ''_'' @ show_nat k) = Some j \<and>
    inst_Health pools j = (case disc_DeviceById (dev_Id dev) (main_discovery x) of
      None \<Rightarrow> Unhealthy | Some dev' \<Rightarrow> operstate_Health dev') \<and>
    plugin_Allocate pools order res [[ifname @ ''_'' @ show_nat k]] = Inr [empty_response]"
proof -
  let ?tm = "NetBWMatcherTemplater d m" and ?f = "NetBWMatcherInstances d m (nbc_MbpsPerShare nbc)"
  let ?mp = "as_insts BandwidthInstance ?f" and ?t = "\<lparr>Domain = d, Prefix = ''netbw-'' @ join (tl matches) ''_''\<rparr>"
  from main_begin_cases [OF begun] obtain input where parsed: "parseConfig Decode Compile input = Inr c" by blast
  note entry = single_netbw [OF parsed only, folded n_def]
  from serving_started [OF begun runs serving entry(2)] entry(1) m obtain rts where
    len: "n < length (main_pipelines x)" and pipe: "main_pipelines x ! n = ScatterPipeline ?tm ?mp rts"
    by (auto simp: d_def)
  have unat: "0 < unat (nbc_MbpsPerShare nbc)" "unat (nbc_MbpsPerShare nbc) < 2 ^ 63"
    using positive unfolding share_def by (simp_all del: of_nat_unat)
  let ?q = "\<lambda>k. \<lparr>bw_ifname = ifname, bw_idx = int k, bw_dev = dev\<rparr>"
  have matched: "interface_matched m dev = Some ifname" using ifname by (simp add: interface_matched_eq)
  have t: "?tm dev = Return (Inr (Some ?t))" using ifname by (simp add: NetBWMatcherTemplater_def)
  have "\<not> panics (?mp dev)"
    using process_calm [OF begun runs serving env disc entry(3) len pipe current dev] t by (auto simp: calm_def)
  with bandwidth_panics_iff [OF matched speed(1) unat(2), of d] speed(2) have
    fits: "pointer_size * (speed div int (unat (nbc_MbpsPerShare nbc))) \<le> maxAlloc" by (auto simp del: of_nat_unat)
  have mapped: "?mp dev = Return (Inr (map BandwidthInstance (map ?q [0..<nat (speed div share)])))"
    unfolding as_insts_def bandwidth_instances [OF matched speed unat fits] share_def by simp
  have slot: "BandwidthInstance (?q k) \<in> set (map BandwidthInstance (map ?q [0..<nat (speed div share)]))"
    using k by auto
  have quiet: "\<forall>d. (\<nexists>t. ?tm d = Return (Inr (Some t))) \<longrightarrow> \<not> panics (?mp d)"
    by (auto simp: NetBWMatcherTemplater_def NetBWMatcherInstances_def interface_matched_eq split: option.splits)
  have plain: "\<forall>d is. ?mp d = Return (Inr is) \<longrightarrow> (\<forall>i \<in> set is. plain_inst i)" by (rule as_insts_plain) simp
  have id: "inst_Id (BandwidthInstance (?q k)) = ifname @ ''_'' @ show_nat k" by (simp add: bw_Id_def slot_Id_def)
  from process_slot [OF begun runs serving env disc entry(3) len pipe current claims quiet plain dev t mapped slot,
      of pools order, unfolded id]
  obtain res j i' dev' is' where res: "rts ?t = Some res" "template_Name ?t \<in> dom (reg_plugins (main_registry x))"
      "res_instances res (ifname @ ''_'' @ show_nat k) = Some j"
    and health: "inst_Health pools j = (if disc_DeviceById (dev_Id dev) (main_discovery x) = None then Unhealthy
      else inst_Health pools i')"
    and i': "?mp dev' = Return (Inr is')" "i' \<in> set is'"
    and dev': "disc_DeviceById (dev_Id dev) (main_discovery x) \<in> {None, Some dev'}"
    and alloc: "plugin_Allocate pools order res [[ifname @ ''_'' @ show_nat k]] = Inr [inst_response pools order i']"
    by (elim exE conjE) (rule that, assumption+)
  from as_insts_mem [OF i'] obtain qs q where q: "?f dev' = Return (Inr qs)" "q \<in> set qs" "i' = BandwidthInstance q" .
  have "inst_Health pools j = (case disc_DeviceById (dev_Id dev) (main_discovery x) of
      None \<Rightarrow> Unhealthy | Some dev' \<Rightarrow> operstate_Health dev')"
    using health dev' bandwidth_mapped [OF q(1,2)] q(3) by (auto simp: bw_Health_def)
  moreover have "inst_response pools order i' = empty_response" using q(3) by (simp add: inst_response_def bw_Allocate_def)
  ultimately show ?thesis
    using pipe res alloc by (intro exI [of _ rts] exI [of _ res] exI [of _ j]) (simp add: template_Name_def)
qed

section \<open>A network interface to try\<close>

definition demo_port :: libudev_device where
  "demo_port = LibudevDevice \<lparr>Syspath = ''n0'', lu_Subsystem = ''net'', Devtype = [], Devnode = [], Devlinks = {},
     PropertyValue = (\<lambda>k. if k = ''INTERFACE'' then ''eth0'' else []), lu_Properties = [''INTERFACE'' \<mapsto> ''eth0''],
     SysattrValue = (\<lambda>k. if k = ''operstate'' then ''up'' else if k = ''speed'' then ''25'' else []),
     Sysattrs = {''operstate'', ''speed''}, lu_Tags = {}\<rparr> None"

lemma demo_port_trims: "trim_space ''eth0'' = ''eth0''" "trim_space ''up'' = ''up''" "trim_space ''25'' = ''25''"
  by (simp_all add: trim_space_visible visible_def)

lemma demo_port_simps:
  "interface_matches eth_matcher (Generic demo_port) = Some (''eth0'', [''eth0'', ''0''])"
  "atoi (SystemAttribute (Generic demo_port) SysAttrSpeed) = Some 25" "operstate_Health (Generic demo_port) = Healthy"
  "Syspath (lu_values demo_port) = ''n0''"
  by (simp_all add: interface_matches_def demo_port_def udev_names demo_port_trims eth_matcher_def MustCompile_def
      literal_def search.simps rest_length_def Let_def atoi_25 operstate_Health_def)

definition one_rdma :: rdmamap where
  "one_rdma = \<lparr>GetRdmaDeviceForNetdevice = (\<lambda>i. if i = ''eth0'' then Some ''mlx0'' else None),
     GetRdmaCharDevices = (\<lambda>_. [''/dev/infiniband/uverbs0''])\<rparr>"

definition port_config :: appConfig where
  "port_config = overlapping_config\<lparr>Partitions := [], NetworkRdma :=
     [\<lparr>nrc_Matcher = ''eth(.*)'', nrc_ResourceCount = 3, nrc_matcher = Some eth_matcher\<rparr>]\<rparr>"

lemma net_configs_parsed:
  "parseConfig (\<lambda>_. Inr nic_config) (\<lambda>_. Inr eth_matcher) text = Inr nic_config"
  "parseConfig (\<lambda>_. Inr port_config) (\<lambda>_. Inr eth_matcher) text = Inr port_config"
proof -
  show "parseConfig (\<lambda>_. Inr nic_config) (\<lambda>_. Inr eth_matcher) text = Inr nic_config" by (rule nic_config_parsed)
  have "valid_domain ''d.e''" by code_simp
  then have "config_ok (\<lambda>_. Inr eth_matcher) port_config"
    by (simp add: config_ok_def port_config_def overlapping_config_def compiles_def)
  moreover have "port_config = config_normal (\<lambda>_. Inr eth_matcher) port_config"
    by (simp add: config_normal_def port_config_def overlapping_config_def nrc_normal_def compiled_def)
  ultimately show "parseConfig (\<lambda>_. Inr port_config) (\<lambda>_. Inr eth_matcher) text = Inr port_config"
    by (auto simp: parseConfig_Inr_iff)
qed

text \<open>A configuration with one scatter whose mappings do not panic for the device.\<close>

lemma scatter_one_entry:
  assumes "config_entries c = [e]" and "\<not> panics (tm (Generic g))" and "\<not> panics (mp (Generic g))"
    and start: "start_entry demo_env rdma c e (empty_app empty_registry) = Return (a, cancel)"
    and a: "app_pipelines a = [ScatterPipeline tm mp Map.empty]"
  shows "one_entry rdma g c (\<lambda>p. \<exists>rts. p = ScatterPipeline tm mp rts)"
  unfolding one_entry_def
proof (intro conjI allI impI)
  show "\<exists>e a cancel p. config_entries c = [e] \<and> p \<noteq> NoPipeline \<and> (\<exists>rts. p = ScatterPipeline tm mp rts) \<and>
      app_pipelines a = [p] \<and> start_entry demo_env rdma c e (empty_app empty_registry) = Return (a, cancel)"
    using assms by blast
next
  fix ev and b :: app
  assume *: "set (event_devices ev) \<subseteq> {Generic g} \<and> 0 < length (app_pipelines b) \<and>
    (\<exists>rts. app_pipelines b ! 0 = ScatterPipeline tm mp rts)"
  then obtain rts where b: "app_pipelines b ! 0 = ScatterPipeline tm mp rts" by blast
  from * assms(2,3) have "\<not> panics (tm d) \<and> \<not> panics (mp d)" if "d \<in> set (event_devices ev)" for d using that by auto
  from scatter_event_returns [where tm = tm and mp = mp and e = ev, OF this, where add = "registry_add demo_env"
      and s = "\<lparr>routes = rts, registry_state = app_registry b\<rparr>"] b *
  show "\<exists>a'. pipeline_event demo_env 0 ev b = Return a' \<and> 0 < length (app_pipelines a') \<and>
      (\<exists>rts. app_pipelines a' ! 0 = ScatterPipeline tm mp rts)" by (auto simp: pipeline_event_def)
qed

text \<open>The process after its first event, for a configuration with one network entry.\<close>

lemma port_served:
  assumes "\<And>text. parseConfig (\<lambda>_. Inr c) (\<lambda>_. Inr eth_matcher) text = Inr c"
    and "one_entry rdma demo_port c (\<lambda>p. \<exists>rts. p = ScatterPipeline tm mp rts)"
  obtains x0 x where "demo_begin eth_matcher c = Inr (c, x0)" and "main_runs demo_env rdma c x0 x"
    and "main_phase x = Serving" and "\<not> disc_done (main_discovery x)" and "\<not> main_lost x"
    and "main_handled x 0 = length (main_got x 0)" and "main_got x 0 = [Init [Generic demo_port]]"
    and "disc_DeviceById ''n0'' (main_discovery x) = Some (Generic demo_port)"
    and "claims_ok tm mp (main_got x 0)"
proof -
  from demo_begins [OF assms(1)] obtain x0 where begun: "demo_begin eth_matcher c = Inr (c, x0)" by blast
  from single_served [OF begun assms(2)] obtain x where
    x: "main_runs demo_env rdma c x0 x" "single_at (\<lambda>p. \<exists>rts. p = ScatterPipeline tm mp rts) Serving (single_heard demo_port)
      [Init [Generic demo_port]] 1 x" by blast
  have "disc_DeviceById ''n0'' (single_heard demo_port) = Some (Generic demo_port)"
    by (simp add: single_heard_def single_found_def discovery_step_def monitor_start_def NewDiscovery_def
        demo_port_simps heard_before_def join_member_def disc_DeviceById_def)
  with x(2) show thesis
    by (intro that [OF begun x(1)]) (simp_all add: single_at_def single_heard_simps claims_ok_def mentioned_def)
qed

lemma rdma_reaches_container_witness:
  "\<exists>x0 x res j. demo_begin eth_matcher port_config = Inr (port_config, x0) \<and>
     main_runs demo_env one_rdma port_config x0 x \<and> res_instances res ''eth0_2'' = Some j \<and>
     inst_Health (\<lambda>_. new_pool []) j = Healthy \<and>
     plugin_Allocate (\<lambda>_. new_pool []) (\<lambda>_. []) res [[''eth0_2'']] = Inr [empty_response\<lparr>Devices :=
       [\<lparr>HostPath = ''/dev/infiniband/uverbs0'', ContainerPath = ''/dev/infiniband/uverbs0'', Permissions = ''rw''\<rparr>]\<rparr>]"
proof -
  let ?tm = "NetRdmaMatcherTemplater ''d.e'' eth_matcher"
  let ?mp = "as_insts RdmaInstance (NetRdmaMatcherInstances one_rdma ''d.e'' eth_matcher 3)"
  let ?nrc = "\<lparr>nrc_Matcher = ''eth(.*)'', nrc_ResourceCount = 3, nrc_matcher = Some eth_matcher\<rparr>"
  have config: "NetworkRdma port_config = [?nrc]" "DeviceDomain port_config = ''d.e''" "netrdma_index port_config = 0"
    "config_entries port_config = [NetRdmaEntry ?nrc]" "sint (nrc_ResourceCount ?nrc) = 3"
    by (simp_all add: port_config_def overlapping_config_def netrdma_index_def netbw_index_def config_entries_def)
  obtain a cancel where start: "start_entry demo_env one_rdma port_config (NetRdmaEntry ?nrc) (empty_app empty_registry) =
      Return (a, cancel)" and a: "app_pipelines a = [ScatterPipeline ?tm ?mp Map.empty]"
    by (simp add: start_netrdma_def config(2) chain_pipeline_def empty_app_def)
  have "\<not> panics (?tm (Generic demo_port))" "\<not> panics (?mp (Generic demo_port))"
    using rdma_returns [of 3] by (simp_all add: maxAlloc_def NetRdmaMatcherTemplater_def demo_port_simps)
  from port_served [OF net_configs_parsed(2) scatter_one_entry [OF config(4) this start a]] obtain x0 x where
    begun: "demo_begin eth_matcher port_config = Inr (port_config, x0)" and runs: "main_runs demo_env one_rdma port_config x0 x"
    and x: "main_phase x = Serving" "\<not> disc_done (main_discovery x)" "\<not> main_lost x"
      "main_handled x 0 = length (main_got x 0)" "main_got x 0 = [Init [Generic demo_port]]"
      "disc_DeviceById ''n0'' (main_discovery x) = Some (Generic demo_port)" "claims_ok ?tm ?mp (main_got x 0)" .
  have dev: "Generic demo_port \<in> mentioned (main_got x 0)" by (simp add: x(5) mentioned_def)
  have device: "GetRdmaDeviceForNetdevice one_rdma ''eth0'' = Some ''mlx0''" by (simp add: one_rdma_def)
  have id: "''eth0'' @ ''_'' @ show_nat 2 = ''eth0_2''" by code_simp
  have k: "int 2 < 3" by simp
  from rdma_reaches_container [OF begun runs x(1) nothing_fails_demo x(2,3) config(1) refl, unfolded config(2,3,5),
      OF x(4,7) dev demo_port_simps(1) device k, of "\<lambda>_. new_pool []" "\<lambda>_. []", unfolded id]
  obtain res j ds where "res_instances res ''eth0_2'' = Some j"
    and "inst_Health (\<lambda>_. new_pool []) j = (case disc_DeviceById (dev_Id (Generic demo_port)) (main_discovery x) of
      None \<Rightarrow> Unhealthy | Some dev' \<Rightarrow> operstate_Health dev')"
    and "plugin_Allocate (\<lambda>_. new_pool []) (\<lambda>_. []) res [[''eth0_2'']] = Inr [empty_response\<lparr>Devices := ds\<rparr>]"
    and "ds = map (\<lambda>f. \<lparr>HostPath = f, ContainerPath = f, Permissions = ''rw''\<rparr>) (GetRdmaCharDevices one_rdma ''mlx0'')"
    by (elim exE conjE) (rule that, assumption+)
  with begun runs x(6) show ?thesis
    by (intro exI [of _ x0] exI [of _ x] exI [of _ res] exI [of _ j])
      (simp add: demo_port_simps one_rdma_def)
qed

lemma netbw_reaches_container_witness:
  "\<exists>x0 x res j. demo_begin eth_matcher nic_config = Inr (nic_config, x0) \<and>
     main_runs demo_env no_rdma nic_config x0 x \<and> res_instances res ''eth0_2'' = Some j \<and>
     inst_Health (\<lambda>_. new_pool []) j = Healthy \<and>
     plugin_Allocate (\<lambda>_. new_pool []) (\<lambda>_. []) res [[''eth0_2'']] = Inr [empty_response]"
proof -
  let ?tm = "NetBWMatcherTemplater ''d.e'' eth_matcher"
  let ?mp = "as_insts BandwidthInstance (NetBWMatcherInstances ''d.e'' eth_matcher 2)"
  let ?nbc = "\<lparr>nbc_Matcher = ''eth(.*)'', nbc_MbpsPerShare = 2, nbc_matcher = Some eth_matcher\<rparr>"
  have config: "NetworkBandwidth nic_config = [?nbc]" "DeviceDomain nic_config = ''d.e''" "netbw_index nic_config = 0"
    "config_entries nic_config = [NetBWEntry ?nbc]" "nbc_MbpsPerShare ?nbc = 2"
    by (simp_all add: nic_config_def overlapping_config_def netbw_index_def config_entries_def)
  obtain a cancel where start: "start_entry demo_env no_rdma nic_config (NetBWEntry ?nbc) (empty_app empty_registry) =
      Return (a, cancel)" and a: "app_pipelines a = [ScatterPipeline ?tm ?mp Map.empty]"
    by (simp add: start_netbw_def config(2) chain_pipeline_def empty_app_def)
  have "\<not> panics (?tm (Generic demo_port))" "\<not> panics (?mp (Generic demo_port))"
    using bandwidth_returns [of 2 "Generic demo_port" "''d.e''" eth_matcher] demo_port_simps(2)
    by (simp_all add: maxAlloc_def NetBWMatcherTemplater_def demo_port_simps(1) del: SystemAttribute.simps)
  from port_served [OF net_configs_parsed(1) scatter_one_entry [OF config(4) this start a]] obtain x0 x where
    begun: "demo_begin eth_matcher nic_config = Inr (nic_config, x0)" and runs: "main_runs demo_env no_rdma nic_config x0 x"
    and x: "main_phase x = Serving" "\<not> disc_done (main_discovery x)" "\<not> main_lost x"
      "main_handled x 0 = length (main_got x 0)" "main_got x 0 = [Init [Generic demo_port]]"
      "disc_DeviceById ''n0'' (main_discovery x) = Some (Generic demo_port)" "claims_ok ?tm ?mp (main_got x 0)" .
  have dev: "Generic demo_port \<in> mentioned (main_got x 0)" by (simp add: x(5) mentioned_def)
  have id: "''eth0'' @ ''_'' @ show_nat 2 = ''eth0_2''" by code_simp
  have share: "int (unat (2 :: 64 word)) = 2" by simp
  have k: "int 2 < 25 div 2" and pos: "(0::int) < 2" "(2::int) < 2 ^ 63" "(0::int) \<le> 25" by simp_all
  from netbw_reaches_container [OF begun runs x(1) nothing_fails_demo x(2,3) config(1) refl, unfolded config(2,3,5) share,
      OF x(4,7) pos(1,2) dev demo_port_simps(1) demo_port_simps(2) pos(3) k, of "\<lambda>_. new_pool []" "\<lambda>_. []", unfolded id]
  obtain res j where "res_instances res ''eth0_2'' = Some j"
    and "inst_Health (\<lambda>_. new_pool []) j = (case disc_DeviceById (dev_Id (Generic demo_port)) (main_discovery x) of
      None \<Rightarrow> Unhealthy | Some dev' \<Rightarrow> operstate_Health dev')"
    and "plugin_Allocate (\<lambda>_. new_pool []) (\<lambda>_. []) res [[''eth0_2'']] = Inr [empty_response]"
    by (elim exE conjE) (rule that, assumption+)
  with begun runs x(6) show ?thesis
    by (intro exI [of _ x0] exI [of _ x] exI [of _ res] exI [of _ j]) (simp add: demo_port_simps)
qed

end
