(* ===== verification/Spec2Isabelle.thy ===== *)
theory Spec2Isabelle
  imports Mux_Filter Mux_Spec Mux_Refinement Udev_Attach Plugin_Stream Plugin_Server
    Plugin_Registry Plugin_Batch App_Runs App_Batches App_Network
begin

text \<open>
  A verification development of udev-manager, a Kubernetes device plugin that watches the kernel's
  device events and offers disk partitions, network bandwidth and RDMA slots to the kubelet.

  \<^bold>\<open>The program.\<close> \<open>cmd/udev-manager/main.go\<close> reads a configuration, starts the discovery of
  \<open>internal/udev\<close> and wires one pipeline per configured entry. The discovery owns the map of present
  devices and sends \<open>Init\<close>, \<open>Added\<close> and \<open>Removed\<close> events through a multiplexer of \<open>internal/mux\<close>. A
  pipeline of \<open>internal/plugin\<close>, a scatter or a batch, turns the events into resources, adds each to
  the registry, which serves it by a plugin of its own, and submits health updates; a resource
  broadcasts its instances to the \<open>ListAndWatch\<close> streams of the kubelet, and \<open>Allocate\<close> merges the
  responses of the requested instances.

  \<^bold>\<open>Multiplexer.\<close> \<open>Mux_Filter\<close> is \<open>filter.go\<close>; \<open>Mux_Sink\<close> the channels, sinks, handshakes and
  \<open>ChainCancelFunc\<close> of \<open>mux.go\<close>, with the locale \<open>sink_contract\<close> that channel sinks provide.
  \<open>Mux_Core\<close> is \<open>Mux\<close> as a transition system: the goroutine \<open>run\<close>, its deferred shutdown, and any
  number of concurrent calls of \<open>Submit\<close>, \<open>Subscribe\<close>, cancel functions and \<open>Close\<close>, at the grain of
  single channel and lock operations. The \<open>Submit\<close> of a sink may block: the state says which sinks
  are stuck, as a channel sink is while its channel is full, and the reader may stall and go on at
  any time; the \<open>Close\<close> of a sink returns, as all sinks of the repository close a channel.
  \<open>Mux_Invariants\<close> has the inductive invariants, \<open>Mux_Properties\<close> what follows from them, \<open>Mux_Runs\<close>
  concrete runs, and \<open>Mux_Spec\<close> the contract: order and exactly-once delivery, synchronous subscribe
  and cancel, complete shutdown, progress while no sink is stuck, and the races that the comments do
  not mention. \<open>Mux_Broadcast\<close> is the abstract multiplexer, a map from members to what they are
  promised, and \<open>Mux_Refinement\<close> shows that the unbuffered one refines it: what a member has is what
  its sink was called with, and the step that returns from \<open>Submit\<close>, takes a \<open>Subscribe\<close> or closes a
  sink is the operation. The discovery and the slices, which only use unbuffered multiplexers, are
  modelled over the broadcaster.

  \<^bold>\<open>Devices.\<close> \<open>Udev_Device\<close> has both implementations of \<open>Device\<close> (\<open>discovery.go\<close>, \<open>udev.go\<close>,
  \<open>fake.go\<close>) with the inherited lookups, whose contract is the locale \<open>inherited_lookup\<close>.
  \<open>Udev_Source\<close> has the events and the locale \<open>event_source\<close>: what a subscriber has heard starts
  with \<open>Init\<close> and replays to the state. \<open>Udev_Discovery\<close> (the monitor goroutine) and \<open>Udev_Fake\<close>
  provide it (a monitor that reconnects to the kernel handles nothing meanwhile; the fake discovery
  does not look removed devices up); \<open>Udev_Slice\<close> is the goroutine of \<open>makeSlice\<close>, whose map is
  shown to be the filtered state, and \<open>Udev_Attach\<close> attaches it to its source (the locale
  \<open>slice_source\<close>, which both discoveries provide) and lets the source, the slice and its subscribers
  step in any order.

  \<^bold>\<open>Plugins.\<close> \<open>Plugin_Api\<close> has the kubelet's data and \<open>mergeResponses\<close>; \<open>Plugin_Partition\<close>,
  \<open>Plugin_Net\<close> and \<open>Plugin_Pool\<close> the instances of \<open>partition.go\<close>, \<open>net_bw.go\<close> with \<open>net_rdma.go\<close>,
  and \<open>batch_partition.go\<close>: matching, ids, health and the exact responses, with 64-bit arithmetic
  and the panics. \<open>Plugin_Resource\<close> is \<open>resource.go\<close> with the locale \<open>overridable\<close>; \<open>Plugin_Stream\<close>
  its concurrent streams as a transition system with the read lock of \<open>ListAndWatch\<close> and the two
  \<open>done\<close> channels, in which a stream, and then the \<open>Submit\<close> of the resource, can block for good.
  \<open>Plugin_Scatter\<close> is \<open>scatter.go\<close>, refined to a map from resource and id to the last event;
  \<open>Plugin_Presence\<close> turns that into the presence of devices, which is the state of the discovery.
  \<open>Plugin_Batch\<close> is the batch goroutine. \<open>Plugin_Server\<close> is the service of \<open>plugin.go\<close> with
  \<open>Allocate\<close> and \<open>ListAndWatch\<close>; \<open>Plugin_Registry\<close> the life of a plugin, \<open>Add\<close>, the restart on a new
  kubelet socket and \<open>Healthz\<close>, with the locale \<open>resource_registry\<close> that scatters rely on.
  \<open>Plugin_Names\<close> shows what a scatter does to a registry it shares with others, and that it acts as
  on its own when nobody else can take its names (the locale \<open>reliable_registry\<close>); \<open>Plugin_Life\<close>
  that every socket file belongs to a running server, and what adding keeps every scatter keeps (the
  locale \<open>registry_invariant\<close>).

  \<^bold>\<open>Application.\<close> \<open>App_Domain\<close> is the domain expression of \<open>main.go\<close> and its language; \<open>App_Config\<close>
  the configuration sources, the flag, the entries with their validation (the locale
  \<open>entry_validator\<close>) and \<open>parseConfig\<close>; \<open>App_Main\<close> the wiring of \<open>startApp\<close> and the pipelines that
  run concurrently on one registry; \<open>App_Runs\<close> shows what a parsed configuration starts and that no
  resource name is ever served twice; \<open>App_Types\<close> that every resource and instance is stored under
  its own name and was made by its pipeline, and for which configurations nothing panics;
  \<open>App_Trace\<close> that a pipeline with a domain of its own is not disturbed by the others. \<open>App_Process\<close>
  is \<open>main\<close> with its deferred calls and the goroutines beside it as a transition system, every run
  of which is a run of the application whose pipelines read their channels in order, and its
  invariants. The requests to the discovery wait for its monitor, and subscriptions and cancel
  functions for its multiplexer, which waits for a pipeline with a full channel; a pipeline may
  block for good in the \<open>Submit\<close> of a resource. \<open>App_Lifecycle\<close> composes everything: the process can
  return exactly as long as no such pipeline holds the multiplexer, it leaves nothing behind, and a
  partition of a configured entry reaches the container that asks for it. \<open>App_Batches\<close> and
  \<open>App_Network\<close> do the same for the batch, RDMA and bandwidth entries.

  \<^bold>\<open>Library.\<close> \<open>Prelude\<close> has panics as values and the iteration order of Go maps; \<open>Go_Text\<close>,
  \<open>Go_Path\<close> and \<open>Go_Regex\<close> the parts of the standard library that the code computes with.

  \<^bold>\<open>Conventions.\<close> A Go map is a partial function, and every \<open>range\<close> over one takes its iteration
  order as an argument. A panic is a value. What lies outside the repository is an argument: the
  answers of libudev, the outcome of socket, kubelet and file calls, the package rdmamap, the file
  name sanitizer, the YAML decoder and \<open>regexp.Compile\<close>; hypotheses on these state documented
  behaviour only. The multiplexers inside the discovery and the slices either accept an event or
  time out; a flag of the step says which. Recursion is structural or over explicit input lists, so
  there is no fuel, except that the matcher of \<open>Go_Regex\<close> bounds a repetition by the length of the
  rest, which is enough because an iteration that consumes nothing is given up.

  \<^bold>\<open>Limits.\<close> The attributes of a device value do not change; an update of the kernel is a new value.
  A resource has one submitting goroutine, as in the code. Upper-casing is that of ASCII text. A
  pipeline of the application handles one event in one step; for a scatter an \<open>Init\<close> is the same as
  its devices added one by one. The runs of the application and the process are those without a
  panic, which would end them. \<open>make\<close> panics for a slice of more than \<open>maxAlloc\<close> = 2^48 bytes, the
  limit of 64-bit Linux; that the memory of the machine runs out before is not modelled. A pipeline
  that blocks for good keeps its state of before the event. While one blocks, the process model lets
  the other members of the multiplexer have an event that it has taken, in whatever order it visits
  them.

  \<^bold>\<open>Not modelled.\<close> The HTTP server, of which the process only keeps the address, the calls of gRPC,
  fsnotify, netlink and libudev, log messages and the \<open>Debug\<close> string of a libudev device, which is
  only logged, the package comment of \<open>doc.go\<close>, and the tests.
\<close>

end
